(* ===== verification/Prelude.thy ===== *)
theory Prelude
  imports Complex_Main "HOL-Library.Word" "HOL-Library.Multiset"
begin

text \<open>
  Shared vocabulary of the development: the Go machine types, the clock, errors, the
  collections of rewrite rules the component theories feed, and the generic lemmas on
  lists and maps that several components use.

  \<^item> A Go \<^verbatim>\<open>string\<close> is a sequence of bytes, which is what a HOL \<open>string\<close> is.
  \<^item> \<^verbatim>\<open>int64\<close>, \<^verbatim>\<open>time.Duration\<close> and \<^verbatim>\<open>uint64\<close> are \<open>64 word\<close>; \<open>sint\<close> reads the signed ones.
  \<^item> An instant of \<^verbatim>\<open>time.Time\<close> is an \<open>int\<close>, in nanoseconds.
  \<^item> A Go \<^verbatim>\<open>error\<close> is a \<open>string option\<close> when it is returned beside a changed state, and
    the left side of a sum when it is returned instead of a value.
\<close>

type_synonym int64 = "64 word"
type_synonym uint64 = "64 word"
type_synonym duration = "64 word"
type_synonym instant = int
type_synonym go_error = "string option"

named_theorems settle_simps "what an operation does to the settled table"
named_theorems frame_simps "fields an operation does not touch"
named_theorems kv_simps "reads of the key-value map after a write"

section \<open>Lists\<close>

text \<open>The last \<open>n\<close> elements of a list, the content of a window of size \<open>n\<close>.\<close>

definition lastn :: "nat \<Rightarrow> 'a list \<Rightarrow> 'a list" where
  "lastn n xs = drop (length xs - n) xs"

lemma length_lastn [simp]: "length (lastn n xs) = min n (length xs)"
  by (simp add: lastn_def)

lemma lastn_all [simp]: "length xs \<le> n \<Longrightarrow> lastn n xs = xs"
  by (simp add: lastn_def)

lemma lastn_snoc: "0 < n \<Longrightarrow> lastn n (lastn n xs @ [x]) = lastn n (xs @ [x])"
  by (cases "length xs \<le> n") (auto simp: lastn_def not_le Suc_diff_le drop_Suc)

lemma lastn_append_full: "length ys = n \<Longrightarrow> 0 < n \<Longrightarrow> lastn n (ys @ [x]) = tl ys @ [x]"
  by (cases ys) (simp_all add: lastn_def)

lemma lastn_append_lastn: "lastn n (lastn n xs @ ys) = lastn n (xs @ ys)"
proof (cases "length xs \<le> n")
  case False
  then have "length xs - n + (n + length ys - n) = length xs + length ys - n"
    by simp
  with False show ?thesis
    by (simp add: lastn_def not_le add.commute)
qed simp

lemma fold_map_idx: "fold f (map g xs) s = fold (\<lambda>x. f (g x)) xs s"
  by (induction xs arbitrary: s) simp_all

lemma sorted_wrt_less_distinct: "sorted_wrt (<) (xs :: 'a::linorder list) \<Longrightarrow> distinct xs"
  by (induction xs) auto

section \<open>Maps updated by a list of writes\<close>

text \<open>
  Writing a list of key-value pairs to a map, first to last: the effect of a loop of
  assignments \<^verbatim>\<open>m[k] = v\<close>. The last write of a key wins.
\<close>

definition writes :: "('k \<times> 'v) list \<Rightarrow> ('k \<rightharpoonup> 'v) \<Rightarrow> ('k \<rightharpoonup> 'v)" where
  "writes kvs m = fold (\<lambda>(k, v) m. m(k \<mapsto> v)) kvs m"

lemma writes_Nil [simp]: "writes [] m = m"
  by (simp add: writes_def)

lemma writes_Cons [simp]: "writes ((k, v) # kvs) m = writes kvs (m(k \<mapsto> v))"
  by (simp add: writes_def)

lemma writes_append [simp]: "writes (xs @ ys) m = writes ys (writes xs m)"
  by (simp add: writes_def)

lemma map_of_rev_distinct: "distinct (map fst kvs) \<Longrightarrow> map_of (rev kvs) = map_of kvs"
  by (rule map_of_inject_set [THEN iffD2]) (simp_all flip: rev_map)

lemma writes_map_of: "writes kvs m = m ++ map_of (rev kvs)"
proof (induction kvs arbitrary: m)
  case Nil
  then show ?case by simp
next
  case (Cons p kvs)
  then show ?case by (cases p) (simp add: fun_eq_iff map_add_def split: option.splits)
qed

lemma dom_writes: "dom (writes kvs m) = dom m \<union> fst ` set kvs"
  by (simp add: writes_map_of dom_map_of_conv_image_fst Un_commute)

lemma writes_add: "writes kvs (m ++ m') = m ++ writes kvs m'"
  by (simp add: writes_map_of)

lemma writes_cover: "dom m \<subseteq> fst ` set kvs \<Longrightarrow> writes kvs m = writes kvs Map.empty"
  by (auto simp: writes_map_of map_add_def dom_map_of_conv_image_fst fun_eq_iff
      split: option.splits dest: map_of_SomeD)
    (metis domIff dom_map_of_conv_image_fst image_set rev_map set_rev subsetD)

lemma writes_distinct: "distinct (map fst kvs) \<Longrightarrow> writes kvs Map.empty = map_of kvs"
  by (simp add: writes_map_of map_of_rev_distinct)

text \<open>The value of a key is that of its last write.\<close>

lemma writes_last:
  "writes kvs m k =
     (case filter (\<lambda>p. fst p = k) kvs of [] \<Rightarrow> m k | ps \<Rightarrow> Some (snd (last ps)))"
proof (induction kvs arbitrary: m)
  case Nil
  then show ?case by simp
next
  case (Cons p kvs)
  then show ?case
    by (cases p) (auto split: list.splits)
qed

lemma map_add_covered: "dom b \<subseteq> dom m \<Longrightarrow> b ++ m = m"
  by (auto simp: fun_eq_iff map_add_def domIff split: option.split)

text \<open>
  A Go map is ranged over in an order the language leaves open: an enumeration of a map
  is a list of its pairs, each key once.
\<close>

definition enumerates :: "('k \<times> 'v) list \<Rightarrow> ('k \<rightharpoonup> 'v) \<Rightarrow> bool" where
  "enumerates es m \<longleftrightarrow> distinct (map fst es) \<and> map_of es = m"

lemma writes_enumerates: "enumerates es m \<Longrightarrow> writes es m' = m' ++ m"
  by (auto simp: enumerates_def writes_map_of map_of_rev_distinct)

lemma enumerates_card: "enumerates es m \<Longrightarrow> length es = card (dom m)"
  by (metis distinct_card enumerates_def dom_map_of_conv_image_fst length_map list.set_map)

section \<open>Functional refinement\<close>

text \<open>
  A machine whose steps, under an invariant they keep, map to the steps of an abstract machine.
\<close>

locale simulation =
  fixes inv :: "'s \<Rightarrow> bool"
    and step :: "'e \<Rightarrow> 's \<Rightarrow> 's"
    and abs :: "'s \<Rightarrow> 'a"
    and astep :: "'e \<Rightarrow> 'a \<Rightarrow> 'a"
  assumes inv_step: "inv s \<Longrightarrow> inv (step e s)"
    and sim_step: "inv s \<Longrightarrow> abs (step e s) = astep e (abs s)"
begin

lemma sim_run: "inv s \<Longrightarrow> inv (fold step es s) \<and> abs (fold step es s) = fold astep es (abs s)"
  by (induction es arbitrary: s) (simp_all add: inv_step sim_step)

end

end
