(* ===== verification/Env.thy ===== *)
theory Env
  imports Prelude
begin

text \<open>
  Tuning parameters read from the environment: \<^verbatim>\<open>strconv.Atoi\<close> of the Go standard library,
  the two copies of \<^verbatim>\<open>envInt\<close> (\<^verbatim>\<open>store/batch.go\<close>, \<^verbatim>\<open>dedup/dedup.go\<close>), \<^verbatim>\<open>envOr\<close>
  (\<^verbatim>\<open>main.go\<close>), and the multiplication of a count by a time unit, which wraps at 64 bits.
  The process environment is a function \<open>getenv\<close>; \<^verbatim>\<open>os.Getenv\<close> gives the empty string for a
  variable that is not set.
\<close>

type_synonym environment = "string \<Rightarrow> string"

section \<open>strconv.Atoi\<close>

definition is_digit :: "char \<Rightarrow> bool" where
  "is_digit c \<longleftrightarrow> 48 \<le> (of_char c :: nat) \<and> (of_char c :: nat) \<le> 57"

fun digits_value :: "string \<Rightarrow> nat \<Rightarrow> nat option" where
  "digits_value [] acc = Some acc"
| "digits_value (c # cs) acc =
     (if is_digit c then digits_value cs (10 * acc + (of_char c - 48)) else None)"

definition int64_min :: int where "int64_min = - (2 ^ 63)"
definition int64_max :: int where "int64_max = 2 ^ 63 - 1"

text \<open>An optional sign, at least one decimal digit, nothing else, and a value of 64 bits.\<close>

definition Atoi :: "string \<Rightarrow> int option" where
  "Atoi s =
     (let neg = (s \<noteq> [] \<and> hd s = CHR ''-'');
          body = (if s \<noteq> [] \<and> (hd s = CHR ''-'' \<or> hd s = CHR ''+'') then tl s else s)
      in if body = [] then None
         else case digits_value body 0 of
                None \<Rightarrow> None
              | Some n \<Rightarrow>
                  (let v = (if neg then - int n else int n)
                   in if int64_min \<le> v \<and> v \<le> int64_max then Some v else None))"

lemma Atoi_bounds: "Atoi s = Some n \<Longrightarrow> int64_min \<le> n \<and> n \<le> int64_max"
  by (auto simp: Atoi_def Let_def split: option.splits if_splits)

text \<open>The decimal form of a natural number, as \<^verbatim>\<open>fmt\<close> prints it for \<^verbatim>\<open>%d\<close>.\<close>

fun Itoa :: "nat \<Rightarrow> string" where
  "Itoa n = (if n < 10 then [char_of (48 + n)] else Itoa (n div 10) @ [char_of (48 + n mod 10)])"

declare Itoa.simps [simp del]

lemma digits_value_append:
  "digits_value (xs @ ys) a = (case digits_value xs a of None \<Rightarrow> None | Some b \<Rightarrow> digits_value ys b)"
  by (induction xs a rule: digits_value.induct) simp_all

lemma is_digit_char_of:
  "(d :: nat) < 10 \<Longrightarrow> is_digit (char_of (48 + d)) \<and> of_char (char_of (48 + d) :: char) = 48 + d"
  by (simp add: is_digit_def)

lemma digits_value_Itoa: "digits_value (Itoa n) 0 = Some n"
proof (induction n rule: Itoa.induct)
  case (1 n)
  show ?case
  proof (cases "n < 10")
    case True
    then show ?thesis
      using is_digit_char_of [of n] by (simp add: Itoa.simps [of n])
  next
    case False
    then show ?thesis
      using 1 is_digit_char_of [of "n mod 10"] by (simp add: Itoa.simps [of n] digits_value_append)
  qed
qed

section \<open>envInt and envOr\<close>

text \<open>\<^verbatim>\<open>store/batch.go\<close>: a positive decimal in the variable, or the default.\<close>

definition store_envInt :: "environment \<Rightarrow> string \<Rightarrow> int \<Rightarrow> int" where
  "store_envInt getenv name defaultVal =
     (let v = getenv name
      in if v \<noteq> [] then
           (case Atoi v of
              Some n \<Rightarrow> if 0 < n then n else defaultVal
            | None \<Rightarrow> defaultVal)
         else defaultVal)"

text \<open>\<^verbatim>\<open>dedup/dedup.go\<close> has its own copy.\<close>

definition dedup_envInt :: "environment \<Rightarrow> string \<Rightarrow> int \<Rightarrow> int" where
  "dedup_envInt getenv name defaultVal =
     (let v = getenv name
      in if v \<noteq> [] then
           (case Atoi v of
              Some n \<Rightarrow> if 0 < n then n else defaultVal
            | None \<Rightarrow> defaultVal)
         else defaultVal)"

definition envOr :: "environment \<Rightarrow> string \<Rightarrow> string \<Rightarrow> string" where
  "envOr getenv name fallback = (let v = getenv name in if v \<noteq> [] then v else fallback)"

lemma store_envInt_range:
  assumes "0 < d" and "d \<le> int64_max"
  shows "0 < store_envInt getenv name d \<and> store_envInt getenv name d \<le> int64_max"
  using assms Atoi_bounds [of "getenv name"]
  by (auto simp: store_envInt_def Let_def split: option.splits)

lemma dedup_envInt_range:
  assumes "0 < d" and "d \<le> int64_max"
  shows "0 < dedup_envInt getenv name d \<and> dedup_envInt getenv name d \<le> int64_max"
  using assms Atoi_bounds [of "getenv name"]
  by (auto simp: dedup_envInt_def Let_def split: option.splits)

lemma envInt_unset:
  "getenv name = [] \<Longrightarrow> store_envInt getenv name d = d"
  "getenv name = [] \<Longrightarrow> dedup_envInt getenv name d = d"
  by (simp_all add: store_envInt_def dedup_envInt_def)

section \<open>Durations\<close>

text \<open>
  \<^verbatim>\<open>time.Duration(n) * unit\<close>: a product of \<^verbatim>\<open>int64\<close> values, which wraps around. A ticker may only
  be made with a positive interval; \<^verbatim>\<open>time.NewTicker\<close> panics otherwise.
\<close>

definition millisecond :: duration where "millisecond = 1000000"
definition second :: duration where "second = 1000000000"
definition minute :: duration where "minute = 60000000000"

definition times_unit :: "int \<Rightarrow> duration \<Rightarrow> duration" where
  "times_unit n u = word_of_int n * u"

definition ticker_ok :: "duration \<Rightarrow> bool" where
  "ticker_ok d \<longleftrightarrow> 0 < sint d"

lemma sint_word_of_int_64:
  "int64_min \<le> i \<Longrightarrow> i \<le> int64_max \<Longrightarrow> sint (word_of_int i :: int64) = i"
  by (simp add: sint_sbintrunc' int64_min_def int64_max_def signed_take_bit_int_eq_self)

lemma sint_times_unit:
  assumes "0 \<le> n" and "0 \<le> u" and "n * u \<le> int64_max"
  shows "sint (times_unit n (word_of_int u)) = n * u"
proof -
  have "times_unit n (word_of_int u) = word_of_int (n * u)"
    by (simp add: times_unit_def)
  moreover have "int64_min \<le> n * u"
    using assms by (simp add: int64_min_def order_trans [of _ 0])
  ultimately show ?thesis
    using assms sint_word_of_int_64 by metis
qed

lemma minute_word: "minute = word_of_int 60000000000"
  by (simp add: minute_def)

lemma millisecond_word: "millisecond = word_of_int 1000000"
  by (simp add: millisecond_def)

end
