(* ===== verification/KV.thy ===== *)
theory KV
  imports Prelude
begin

text \<open>
  \<^verbatim>\<open>store/kv.go\<close>: the in-memory key-value map. \<^verbatim>\<open>Set\<close> and \<^verbatim>\<open>Get\<close> hold the store's
  \<^verbatim>\<open>RWMutex\<close> for their whole body, so each is one atomic step of the model.
\<close>

section \<open>The interface of a map that is only written and read\<close>

locale kv_store =
  fixes new :: 's
    and put :: "'k \<Rightarrow> 'v \<Rightarrow> 's \<Rightarrow> 's"
    and fetch :: "'k \<Rightarrow> 's \<Rightarrow> 'v option"
  assumes fetch_new: "fetch k new = None"
    and fetch_put: "fetch k (put k' v s) = (if k = k' then Some v else fetch k s)"
begin

definition put_all :: "('k \<times> 'v) list \<Rightarrow> 's \<Rightarrow> 's" where
  "put_all kvs s = fold (\<lambda>(k, v). put k v) kvs s"

lemma fetch_put_all: "(\<lambda>k. fetch k (put_all kvs s)) = writes kvs (\<lambda>k. fetch k s)"
proof (induction kvs arbitrary: s)
  case Nil
  then show ?case by (simp add: put_all_def)
next
  case (Cons p kvs)
  obtain k v where p: "p = (k, v)" by (cases p)
  have "put_all (p # kvs) s = put_all kvs (put k v s)"
    by (simp add: put_all_def p)
  moreover have "(\<lambda>j. fetch j (put k v s)) = (\<lambda>j. fetch j s)(k \<mapsto> v)"
    by (auto simp: fetch_put)
  ultimately show ?case
    using Cons [of "put k v s"] by (simp add: p)
qed

lemma fetch_put_all_new: "(\<lambda>k. fetch k (put_all kvs new)) = writes kvs Map.empty"
  by (simp add: fetch_put_all fetch_new)

lemma put_fetch_other: "k \<noteq> k' \<Longrightarrow> fetch k (put k' v s) = fetch k s"
  by (simp add: fetch_put)

end

section \<open>The store of the program\<close>

record KV =
  kv_data :: "string \<rightharpoonup> string"

definition NewKV :: KV where
  "NewKV = \<lparr>kv_data = Map.empty\<rparr>"

definition kv_Set :: "string \<Rightarrow> string \<Rightarrow> KV \<Rightarrow> KV" where
  "kv_Set key value k = k\<lparr>kv_data := (kv_data k)(key \<mapsto> value)\<rparr>"

text \<open>\<^verbatim>\<open>Get\<close> returns the zero value and \<^verbatim>\<open>false\<close> for a key that is absent.\<close>

definition kv_Get :: "string \<Rightarrow> KV \<Rightarrow> string \<times> bool" where
  "kv_Get key k = (case kv_data k key of Some v \<Rightarrow> (v, True) | None \<Rightarrow> ([], False))"

definition kv_lookup :: "string \<Rightarrow> KV \<Rightarrow> string option" where
  "kv_lookup key k = (let (v, ok) = kv_Get key k in if ok then Some v else None)"

lemma kv_lookup_data: "kv_lookup key k = kv_data k key"
  by (simp add: kv_lookup_def kv_Get_def split: option.splits)

lemma kv_data_NewKV [kv_simps, simp]: "kv_data NewKV = Map.empty"
  by (simp add: NewKV_def)

lemma kv_data_Set [kv_simps, simp]: "kv_data (kv_Set key v k) = (kv_data k)(key \<mapsto> v)"
  by (simp add: kv_Set_def)

lemma KV_eqI: "kv_data a = kv_data b \<Longrightarrow> a = (b :: KV)"
  by (cases a, cases b) simp

interpretation kvs: kv_store NewKV kv_Set kv_lookup
  by unfold_locales (simp_all add: kv_lookup_data)

lemma kv_lookup_eta: "(\<lambda>j. kv_lookup j k) = kv_data k"
  by (simp add: kv_lookup_data fun_eq_iff)

lemma kv_data_put_all: "kv_data (kvs.put_all es k) = writes es (kv_data k)"
  using kvs.fetch_put_all [of es k] by (simp add: kv_lookup_eta)

end
