(* ===== verification/Metrics.thy ===== *)
theory Metrics
  imports Prelude Env
begin

text \<open>
  \<^verbatim>\<open>metrics/metrics.go\<close>: the package-level counters, and the ring buffer of PUT latencies.
  The counters are \<^verbatim>\<open>int64\<close> values changed by atomic instructions, and the ring is changed
  under a mutex, so each operation is one atomic step.
\<close>

section \<open>Latency ring\<close>

record LatencyTracker =
  samples :: "int64 list"
  lt_head :: nat
  lt_full :: bool
  lt_cap :: nat

definition NewLatencyTracker :: "nat \<Rightarrow> LatencyTracker" where
  "NewLatencyTracker n = \<lparr>samples = replicate n 0, lt_head = 0, lt_full = False, lt_cap = n\<rparr>"

text \<open>
  \<^verbatim>\<open>Record\<close>. The write \<^verbatim>\<open>t.samples[t.head] = ns\<close> panics when the index is out of range
  (a tracker of capacity 0): \<open>None\<close>.
\<close>

definition Record :: "int64 \<Rightarrow> LatencyTracker \<Rightarrow> LatencyTracker option" where
  "Record ns t =
     (if lt_head t < length (samples t) then
        let h = (lt_head t + 1) mod lt_cap t
        in Some (t\<lparr>samples := (samples t)[lt_head t := ns], lt_head := h,
                   lt_full := (if h = 0 then True else lt_full t)\<rparr>)
      else None)"

fun record_all :: "int64 list \<Rightarrow> LatencyTracker \<Rightarrow> LatencyTracker option" where
  "record_all [] t = Some t"
| "record_all (x # xs) t = (case Record x t of None \<Rightarrow> None | Some t' \<Rightarrow> record_all xs t')"

text \<open>
  The part of the ring that holds samples, as \<^verbatim>\<open>Percentiles\<close> copies it:
  \<^verbatim>\<open>t.samples[:n]\<close> with \<open>n\<close> the head until the ring is full, the capacity after.
\<close>

definition snapshot_samples :: "LatencyTracker \<Rightarrow> int64 list" where
  "snapshot_samples t = take (if lt_full t then lt_cap t else lt_head t) (samples t)"

definition lt_wf :: "LatencyTracker \<Rightarrow> bool" where
  "lt_wf t \<longleftrightarrow> 0 < lt_cap t \<and> length (samples t) = lt_cap t \<and> lt_head t < lt_cap t"

text \<open>The samples oldest first.\<close>

definition window :: "LatencyTracker \<Rightarrow> int64 list" where
  "window t =
     (if lt_full t then drop (lt_head t) (samples t) @ take (lt_head t) (samples t)
      else take (lt_head t) (samples t))"

lemma lt_wf_New: "0 < n \<Longrightarrow> lt_wf (NewLatencyTracker n)"
  by (simp add: lt_wf_def NewLatencyTracker_def)

lemma window_New [simp]: "window (NewLatencyTracker n) = []"
  by (simp add: window_def NewLatencyTracker_def)

lemma Record_wf: "lt_wf t \<Longrightarrow> \<exists>t'. Record x t = Some t' \<and> lt_wf t' \<and> lt_cap t' = lt_cap t"
  by (auto simp: Record_def lt_wf_def Let_def)

lemma drop_update_self: "h < length xs \<Longrightarrow> drop h (xs[h := x]) = x # drop (Suc h) xs"
  by (simp add: Cons_nth_drop_Suc [symmetric] drop_update_swap)

lemma window_Record:
  assumes wf: "lt_wf t" and rec: "Record x t = Some t'"
  shows "window t' = lastn (lt_cap t) (window t @ [x])"
proof -
  let ?h = "lt_head t" and ?c = "lt_cap t" and ?xs = "samples t"
  have h: "?h < ?c" and len: "length ?xs = ?c"
    using wf by (auto simp: lt_wf_def)
  have wrap: "(?h + 1) mod ?c = (if ?h + 1 = ?c then 0 else ?h + 1)"
    using h by auto
  have t': "t' = t\<lparr>samples := ?xs[?h := x], lt_head := (?h + 1) mod ?c,
                  lt_full := (if (?h + 1) mod ?c = 0 then True else lt_full t)\<rparr>"
    using rec h len by (simp add: Record_def Let_def)
  have snoc: "take (Suc ?h) (?xs[?h := x]) = take ?h ?xs @ [x]"
    using h len by (simp add: take_Suc_conv_app_nth)
  show ?thesis
  proof (cases "lt_full t")
    case True
    have "length (window t) = ?c"
      using True h len by (simp add: window_def)
    then have "lastn ?c (window t @ [x]) = tl (window t) @ [x]"
      using h by (intro lastn_append_full) simp_all
    also have "\<dots> = drop (Suc ?h) ?xs @ take ?h ?xs @ [x]"
      using True h len by (simp add: window_def drop_Suc tl_drop)
    also have "\<dots> = window t'"
      using True h len snoc by (cases "Suc ?h = ?c") (auto simp: window_def t' wrap)
    finally show ?thesis by simp
  next
    case False
    have "window t @ [x] = take (Suc ?h) (?xs[?h := x])"
      using False snoc by (simp add: window_def)
    moreover have "lastn ?c (window t @ [x]) = window t @ [x]"
      using False h len by (simp add: window_def)
    ultimately show ?thesis
      using False h len by (cases "Suc ?h = ?c") (auto simp: window_def t' wrap)
  qed
qed

text \<open>
  The interface: a recorder with a bounded window shows the last \<open>n\<close> records.
\<close>

locale bounded_window =
  fixes wf :: "'t \<Rightarrow> bool"
    and rec :: "'a \<Rightarrow> 't \<Rightarrow> 't option"
    and content :: "'t \<Rightarrow> 'a list"
    and size_of :: "'t \<Rightarrow> nat"
  assumes rec_total: "wf t \<Longrightarrow> \<exists>t'. rec x t = Some t' \<and> wf t' \<and> size_of t' = size_of t"
    and rec_content: "wf t \<Longrightarrow> rec x t = Some t' \<Longrightarrow> content t' = lastn (size_of t) (content t @ [x])"
    and size_pos: "wf t \<Longrightarrow> 0 < size_of t"
begin

fun rec_list :: "'a list \<Rightarrow> 't \<Rightarrow> 't option" where
  "rec_list [] t = Some t"
| "rec_list (x # xs) t = (case rec x t of None \<Rightarrow> None | Some t' \<Rightarrow> rec_list xs t')"

lemma rec_list_total:
  assumes "wf t" and "length (content t) \<le> size_of t"
  shows "\<exists>t'. rec_list xs t = Some t' \<and> wf t' \<and> size_of t' = size_of t
              \<and> content t' = lastn (size_of t) (content t @ xs)"
  using assms
proof (induction xs arbitrary: t)
  case Nil
  then show ?case by simp
next
  case (Cons x xs)
  obtain u where u: "rec x t = Some u" "wf u" "size_of u = size_of t"
    using rec_total Cons.prems by blast
  have cu: "content u = lastn (size_of t) (content t @ [x])"
    using rec_content Cons.prems u by blast
  obtain t' where t': "rec_list xs u = Some t'" "wf t'" "size_of t' = size_of u"
      "content t' = lastn (size_of u) (content u @ xs)"
    using Cons.IH [OF u(2)] cu u(3) by auto
  have "lastn (size_of t) (content u @ xs) = lastn (size_of t) (content t @ x # xs)"
    using lastn_append_lastn [of "size_of t" "content t @ [x]" xs] by (simp add: cu)
  then show ?case
    using t' u by simp
qed

end

interpretation ring: bounded_window lt_wf Record window lt_cap
  by unfold_locales (auto simp: Record_wf window_Record, simp add: lt_wf_def)

lemma record_all_ring: "record_all xs t = ring.rec_list xs t"
  by (induction xs arbitrary: t) (simp_all split: option.split)

lemma mset_snapshot: "lt_wf t \<Longrightarrow> mset (snapshot_samples t) = mset (window t)"
  by (auto simp: snapshot_samples_def window_def lt_wf_def)
    (metis append_take_drop_id mset_append union_commute)

section \<open>Counters\<close>

record throughputTracker =
  windowStart :: "instant option"
  startCount :: int64
  lastWPS :: rat

record metrics =
  totalWrites :: int64
  totalDuplicates :: int64
  totalErrors :: int64
  totalForwards :: int64
  queueDepth :: int64
  dedupMapSize :: int64
  tp :: throughputTracker
  Latency :: LatencyTracker

definition init_metrics :: metrics where
  "init_metrics =
     \<lparr>totalWrites = 0, totalDuplicates = 0, totalErrors = 0, totalForwards = 0,
      queueDepth = 0, dedupMapSize = 0,
      tp = \<lparr>windowStart = None, startCount = 0, lastWPS = 0\<rparr>,
      Latency = NewLatencyTracker 2000\<rparr>"

definition RecordWrite :: "metrics \<Rightarrow> metrics" where
  "RecordWrite m = m\<lparr>totalWrites := totalWrites m + 1\<rparr>"

definition RecordDuplicate :: "metrics \<Rightarrow> metrics" where
  "RecordDuplicate m = m\<lparr>totalDuplicates := totalDuplicates m + 1\<rparr>"

definition RecordError :: "metrics \<Rightarrow> metrics" where
  "RecordError m = m\<lparr>totalErrors := totalErrors m + 1\<rparr>"

definition RecordForward :: "metrics \<Rightarrow> metrics" where
  "RecordForward m = m\<lparr>totalForwards := totalForwards m + 1\<rparr>"

definition SetQueueDepth :: "nat \<Rightarrow> metrics \<Rightarrow> metrics" where
  "SetQueueDepth n m = m\<lparr>queueDepth := of_nat n\<rparr>"

definition SetDedupMapSize :: "nat \<Rightarrow> metrics \<Rightarrow> metrics" where
  "SetDedupMapSize n m = m\<lparr>dedupMapSize := of_nat n\<rparr>"

lemmas metrics_defs =
  RecordWrite_def RecordDuplicate_def RecordError_def RecordForward_def
  SetQueueDepth_def SetDedupMapSize_def

section \<open>Properties\<close>

text \<open>
  The latency ring of capacity \<open>n\<close> accepts any number of samples without a panic, and what
  \<^verbatim>\<open>Percentiles\<close> copies out of it is, up to order, the last \<open>n\<close> of them.
\<close>

lemma latency_ring_window:
  assumes "0 < n"
  shows "\<exists>t. record_all xs (NewLatencyTracker n) = Some t \<and> lt_wf t \<and> lt_cap t = n
             \<and> window t = lastn n xs \<and> mset (snapshot_samples t) = mset (lastn n xs)"
  using ring.rec_list_total [of "NewLatencyTracker n" xs] lt_wf_New [OF assms] mset_snapshot
  by (fastforce simp: record_all_ring NewLatencyTracker_def window_def)

end
