(* ===== verification/Float64.thy ===== *)
theory Float64
  imports Prelude "HOL-Library.Log_Nat"
begin

text \<open>
  The \<^verbatim>\<open>float64\<close> arithmetic of the metrics: a value is a rational, and an operation is the exact
  one followed by \<open>fl\<close>, rounding to 53 significant bits, ties to even. The values the
  metrics compute are zero or lie between \<open>2 ^ -64\<close> and \<open>2 ^ 100\<close> in size, far from overflow and
  from subnormal numbers, which are left out.
\<close>

section \<open>Rounding\<close>

definition rne :: "rat \<Rightarrow> int" where
  "rne x =
     (let f = \<lfloor>x\<rfloor>; d = x - of_int f
      in if d < 1 / 2 then f else if 1 / 2 < d then f + 1 else if even f then f else f + 1)"

definition ilog2 :: "rat \<Rightarrow> int" where
  "ilog2 x =
     (let (p, q) = quotient_of x;
          e = int (floorlog 2 (nat p)) - int (floorlog 2 (nat q))
      in if 2 powi e \<le> x then e else e - 1)"

definition fl :: "rat \<Rightarrow> rat" where
  "fl x =
     (if x = 0 then 0
      else let u = 2 powi (ilog2 \<bar>x\<bar> - 52) in sgn x * of_int (rne (\<bar>x\<bar> / u)) * u)"

text \<open>\<^verbatim>\<open>math.Ceil\<close> and \<^verbatim>\<open>math.Round\<close> are exact; the latter rounds halves away from zero.\<close>

definition math_Ceil :: "rat \<Rightarrow> rat" where
  "math_Ceil x = of_int \<lceil>x\<rceil>"

definition math_Round :: "rat \<Rightarrow> rat" where
  "math_Round x = sgn x * of_int \<lfloor>\<bar>x\<bar> + 1 / 2\<rfloor>"

section \<open>What rounding does\<close>

lemma rne_cases: "rne x = \<lfloor>x\<rfloor> \<and> x - of_int \<lfloor>x\<rfloor> \<le> 1 / 2 \<or> rne x = \<lfloor>x\<rfloor> + 1 \<and> 1 / 2 \<le> x - of_int \<lfloor>x\<rfloor>"
  by (simp add: rne_def Let_def not_less)

lemma rne_lower: "x - 1 / 2 \<le> of_int (rne x)"
proof -
  have "x < of_int \<lfloor>x\<rfloor> + 1"
    by linarith
  then show ?thesis
    using rne_cases [of x] by auto
qed

lemma rne_of_int [simp]: "rne (of_int k) = k"
  by (simp add: rne_def)

lemma rne_upper:
  assumes "x \<le> of_int k"
  shows "rne x \<le> k"
proof (cases "\<lfloor>x\<rfloor> = k")
  case True
  then have "x = of_int k"
    using assms by linarith
  then show ?thesis by simp
next
  case False
  then have "\<lfloor>x\<rfloor> + 1 \<le> k"
    using assms by linarith
  then show ?thesis
    using rne_cases [of x] by auto
qed

lemma floorlog_powi:
  assumes "0 < n"
  shows "2 powi (int (floorlog 2 n) - 1) \<le> (of_nat n :: rat)" "(of_nat n :: rat) < 2 powi int (floorlog 2 n)"
proof -
  have b: "2 ^ (floorlog 2 n - 1) \<le> n" "n < 2 ^ floorlog 2 n"
    using floorlog_bounds [of n 2] assms by simp_all
  have "0 < floorlog 2 n"
    using assms by (simp add: floorlog_def)
  then have "int (floorlog 2 n) - 1 = int (floorlog 2 n - 1)"
    by linarith
  moreover have "(2 :: rat) ^ (floorlog 2 n - 1) \<le> of_nat n" "of_nat n < (2 :: rat) ^ floorlog 2 n"
    using b by (metis of_nat_le_iff of_nat_numeral of_nat_power, metis of_nat_less_iff of_nat_numeral of_nat_power)
  ultimately show "2 powi (int (floorlog 2 n) - 1) \<le> (of_nat n :: rat)" "(of_nat n :: rat) < 2 powi int (floorlog 2 n)"
    by (simp_all only: power_int_of_nat)
qed

lemma ilog2_bounds:
  assumes "0 < x"
  shows "2 powi (ilog2 x) \<le> x \<and> x < 2 powi (ilog2 x + 1)"
proof -
  obtain p q where pq: "quotient_of x = (p, q)"
    by (cases "quotient_of x")
  have q: "0 < q" and x: "x = of_int p / of_int q"
    using quotient_of_denom_pos [OF pq] quotient_of_div [OF pq] by simp_all
  have p: "0 < p"
    using assms q by (simp add: x zero_less_divide_iff)
  let ?a = "int (floorlog 2 (nat p))" and ?b = "int (floorlog 2 (nat q))"
  have P: "2 powi (?a - 1) \<le> (of_int p :: rat)" "(of_int p :: rat) < 2 powi ?a"
    using floorlog_powi [of "nat p"] p by simp_all
  have Q: "2 powi (?b - 1) \<le> (of_int q :: rat)" "(of_int q :: rat) < 2 powi ?b"
    using floorlog_powi [of "nat q"] q by simp_all
  have "x < 2 powi ?a / 2 powi (?b - 1)"
    unfolding x using P(2) Q(1) p q by (intro frac_less) simp_all
  also have "\<dots> = 2 powi (?a - ?b + 1)"
    by (simp add: power_int_diff power_int_add)
  finally have up: "x < 2 powi (?a - ?b + 1)" .
  have "2 powi (?a - 1) / 2 powi ?b \<le> x"
    unfolding x using P(1) Q(2) p q by (intro frac_le) simp_all
  then have "2 powi (?a - ?b - 1) \<le> x"
    by (simp add: power_int_diff)
  then show ?thesis
    using up by (simp add: ilog2_def pq Let_def)
qed

text \<open>A value below an integer of 53 bits is rounded to one that is not above it.\<close>

lemma fl_pos:
  assumes "0 < x"
  defines "u \<equiv> 2 powi (ilog2 x - 52)"
  shows "fl x = of_int (rne (x / u)) * u" "0 < u" "u * 2 ^ 52 \<le> x"
proof -
  show "fl x = of_int (rne (x / u)) * u"
    using assms by (simp add: fl_def u_def Let_def)
  show "0 < u"
    by (simp add: u_def)
  have "u * 2 ^ 52 = 2 powi (ilog2 x)"
    by (simp add: u_def power_int_diff)
  then show "u * 2 ^ 52 \<le> x"
    using ilog2_bounds [OF assms(1)] by simp
qed

lemma unit_small:
  assumes "0 < x" and "x < 2 ^ 53"
  shows "\<exists>n. 2 powi (ilog2 x - 52) = 1 / (2 :: rat) ^ n"
proof -
  have "2 powi (ilog2 x) < (2 :: rat) powi 53"
    using ilog2_bounds [OF assms(1)] assms(2) by simp
  then have "ilog2 x - 52 \<le> 0"
    using power_int_increasing [of 53 "ilog2 x" "2 :: rat"] by (cases "53 \<le> ilog2 x") simp_all
  then obtain n where n: "ilog2 x - 52 = - int n"
    by (metis nonpos_int_cases)
  have "2 powi (ilog2 x - 52) = 1 / (2 :: rat) ^ n"
    unfolding n by (simp add: power_int_minus field_simps)
  then show ?thesis ..
qed

lemma fl_upper:
  assumes "0 < x" and "x \<le> of_int k" and "x < 2 ^ 53"
  shows "fl x \<le> of_int k"
proof -
  let ?e = "ilog2 x - 52"
  obtain n where u: "2 powi ?e = 1 / (2 :: rat) ^ n"
    using unit_small [OF assms(1,3)] by blast
  have "x / 2 powi ?e \<le> of_int (k * 2 ^ n)"
    using assms(2) by (simp add: u)
  then have "rne (x / 2 powi ?e) \<le> k * 2 ^ n"
    by (rule rne_upper)
  then have "(of_int (rne (x / 2 powi ?e)) :: rat) \<le> of_int (k * 2 ^ n)"
    by (simp only: of_int_le_iff)
  then have "of_int (rne (x / 2 powi ?e)) / 2 ^ n \<le> (of_int k :: rat)"
    by (simp add: pos_divide_le_eq)
  then show ?thesis
    using fl_pos(1) [OF assms(1)] by (simp add: u)
qed

lemma fl_lower:
  assumes "0 < x"
  shows "x - x / 2 ^ 53 \<le> fl x"
proof -
  define u :: rat where "u = 2 powi (ilog2 x - 52)"
  note f = fl_pos [OF assms, folded u_def]
  have "(x / u - 1 / 2) * u \<le> of_int (rne (x / u)) * u"
    using rne_lower f(2) by (intro mult_right_mono) simp_all
  then have "x - u / 2 \<le> fl x"
    using f(1,2) by (simp add: left_diff_distrib)
  then show ?thesis
    using f(3) by (simp add: field_simps)
qed

lemma rne_ge:
  assumes "of_int k \<le> x"
  shows "k \<le> rne x"
proof -
  have "k \<le> \<lfloor>x\<rfloor>"
    using assms by (simp add: le_floor_iff)
  then show ?thesis
    using rne_cases [of x] by auto
qed

lemma fl_ge:
  assumes "0 < x" and "of_int k \<le> x" and "x < 2 ^ 53"
  shows "of_int k \<le> fl x"
proof -
  let ?e = "ilog2 x - 52"
  obtain n where u: "2 powi ?e = 1 / (2 :: rat) ^ n"
    using unit_small [OF assms(1,3)] by blast
  have "of_int (k * 2 ^ n) \<le> x / 2 powi ?e"
    using assms(2) by (simp add: u)
  then have "k * 2 ^ n \<le> rne (x / 2 powi ?e)"
    by (rule rne_ge)
  then have "(of_int (k * 2 ^ n) :: rat) \<le> of_int (rne (x / 2 powi ?e))"
    by (simp only: of_int_le_iff)
  then have "(of_int k :: rat) \<le> of_int (rne (x / 2 powi ?e)) / 2 ^ n"
    by (simp add: pos_le_divide_eq)
  then show ?thesis
    using fl_pos(1) [OF assms(1)] by (simp add: u)
qed

lemma rne_error: "of_int (rne x) \<le> x + 1 / 2"
proof -
  have "of_int \<lfloor>x\<rfloor> \<le> x + 1 / 2"
    by linarith
  then show ?thesis
    using rne_cases [of x] by auto
qed

lemma fl_error:
  assumes "0 < x"
  shows "fl x \<le> x + x / 2 ^ 53"
proof -
  define u :: rat where "u = 2 powi (ilog2 x - 52)"
  note f = fl_pos [OF assms, folded u_def]
  have "of_int (rne (x / u)) * u \<le> (x / u + 1 / 2) * u"
    using rne_error f(2) by (intro mult_right_mono) simp_all
  then have "fl x \<le> x + u / 2"
    using f(1,2) by (simp add: distrib_right)
  then show ?thesis
    using f(3) by (simp add: field_simps)
qed

lemma fl_zero [simp]: "fl 0 = 0"
  by (simp add: fl_def)

lemma fl_of_int:
  assumes "0 \<le> k" and "k < 2 ^ 53"
  shows "fl (of_int k) = of_int k"
proof (cases "k = 0")
  case False
  define x :: rat where "x = of_int k"
  have x: "0 < x" "x < 2 ^ 53"
    using assms False by (simp_all add: x_def)
  let ?e = "ilog2 x - 52"
  obtain n where u: "2 powi ?e = 1 / (2 :: rat) ^ n"
    using unit_small [OF x] by blast
  have "x / 2 powi ?e = of_int (k * 2 ^ n)"
    unfolding u by (simp add: x_def)
  then have "rne (x / 2 powi ?e) = k * 2 ^ n"
    by (metis rne_of_int)
  then show ?thesis
    using fl_pos(1) [OF x(1)] unfolding u by (simp add: x_def)
qed simp

lemma fl_nonneg: "0 \<le> x \<Longrightarrow> 0 \<le> fl x"
proof (cases "x = 0")
  case False
  assume "0 \<le> x"
  then have "0 < x" using False by simp
  then have "0 \<le> x - x / 2 ^ 53"
    by simp
  then show ?thesis
    using fl_lower [OF \<open>0 < x\<close>] by linarith
qed simp

end
