(* ===== verification/Report.thy ===== *)
theory Report
  imports Prelude Env Metrics Float64 "HOL-Library.Signed_Division"
begin

text \<open>
  The reading side of \<^verbatim>\<open>metrics/metrics.go\<close>: \<^verbatim>\<open>WritesPerSecond\<close>, \<^verbatim>\<open>Percentiles\<close> and the snapshot
  that \<^verbatim>\<open>GET /metrics\<close> returns, in the \<^verbatim>\<open>float64\<close> arithmetic of \<^verbatim>\<open>Float64\<close>.
\<close>

section \<open>Throughput\<close>

text \<open>\<^verbatim>\<open>time.Time.Sub\<close> saturates at the bounds of a duration; \<^verbatim>\<open>Seconds\<close> adds whole and part.\<close>

definition time_Sub :: "instant \<Rightarrow> instant \<Rightarrow> duration" where
  "time_Sub t u = word_of_int (max int64_min (min int64_max (t - u)))"

definition Seconds :: "duration \<Rightarrow> rat" where
  "Seconds d =
     (let sec = sint d sdiv 1000000000; nsec = sint d smod 1000000000
      in fl (fl (of_int sec) + fl (of_int nsec / 1000000000)))"

definition WritesPerSecond :: "instant \<Rightarrow> metrics \<Rightarrow> rat \<times> metrics" where
  "WritesPerSecond now m =
     (let t = tp m; current = totalWrites m
      in case windowStart t of
           None \<Rightarrow> (0, m\<lparr>tp := t\<lparr>windowStart := Some now, startCount := current\<rparr>\<rparr>)
         | Some w \<Rightarrow>
             (let elapsed = Seconds (time_Sub now w);
                  t' = (if 1 \<le> elapsed then
                          t\<lparr>lastWPS := fl (fl (of_int (sint (current - startCount t))) / elapsed),
                            windowStart := Some now, startCount := current\<rparr>
                        else t)
              in (lastWPS t', m\<lparr>tp := t'\<rparr>)))"

section \<open>Percentiles\<close>

definition toMs :: "int64 \<Rightarrow> rat" where
  "toMs ns = fl (math_Round (fl (fl (fl (of_int (sint ns)) / 1000000) * 100)) / 100)"

definition perc_index :: "rat \<Rightarrow> nat \<Rightarrow> nat" where
  "perc_index pct n =
     (let i = \<lceil>fl (fl (pct / 100) * fl (of_nat n))\<rceil> - 1 in if i < 0 then 0 else nat i)"

text \<open>An index expression, \<open>None\<close> being the panic of one out of range.\<close>

definition index_at :: "'a list \<Rightarrow> nat \<Rightarrow> 'a option" where
  "index_at xs i = (if i < length xs then Some (xs ! i) else None)"

definition Percentiles :: "LatencyTracker \<Rightarrow> (rat \<times> rat \<times> rat) option" where
  "Percentiles t =
     (let n = (if lt_full t then lt_cap t else lt_head t)
      in if n = 0 then Some (0, 0, 0)
         else if length (samples t) < n then None
         else
           let snap = sort_key sint (take n (samples t));
               idx = (\<lambda>pct. index_at snap (perc_index pct (length snap)))
           in case (idx 50, idx 95, idx 99) of
                (Some a, Some b, Some c) \<Rightarrow> Some (toMs a, toMs b, toMs c)
              | _ \<Rightarrow> None)"

section \<open>Snapshot\<close>

record Snapshot =
  sn_TotalWrites :: int64
  sn_TotalDuplicates :: int64
  sn_TotalErrors :: int64
  sn_TotalForwards :: int64
  sn_QueueDepth :: int64
  sn_DedupMapSize :: int64
  sn_WritesPerSec :: rat
  sn_LatencyP50Ms :: rat
  sn_LatencyP95Ms :: rat
  sn_LatencyP99Ms :: rat

definition metrics_Get :: "instant \<Rightarrow> metrics \<Rightarrow> (Snapshot \<times> metrics) option" where
  "metrics_Get now m =
     (case Percentiles (Latency m) of
        None \<Rightarrow> None
      | Some (p50, p95, p99) \<Rightarrow>
          (let (wps, m') = WritesPerSecond now m
           in Some (\<lparr>sn_TotalWrites = totalWrites m, sn_TotalDuplicates = totalDuplicates m,
                     sn_TotalErrors = totalErrors m, sn_TotalForwards = totalForwards m,
                     sn_QueueDepth = queueDepth m, sn_DedupMapSize = dedupMapSize m,
                     sn_WritesPerSec = wps, sn_LatencyP50Ms = p50, sn_LatencyP95Ms = p95,
                     sn_LatencyP99Ms = p99\<rparr>, m')))"

section \<open>The rank of a percentile\<close>

text \<open>The factors 0.95 and 0.99 are rounded down, so a product never passes the exact rank.\<close>

lemma fl_factors:
  "fl (50 / 100) = 50 / 100"
  "fl (95 / 100) \<le> 95 / 100" "95 / 100 - 1 / 2 ^ 53 \<le> fl (95 / 100)"
  "fl (99 / 100) \<le> 99 / 100" "99 / 100 - 1 / 2 ^ 53 \<le> fl (99 / 100)"
  by code_simp+

lemma perc_index_rank:
  fixes p :: int
  assumes c: "fl (of_int p / 100) \<le> of_int p / 100" "of_int p / 100 - 1 / 2 ^ 53 \<le> fl (of_int p / 100)"
    and p: "1 \<le> p" "p \<le> 100" and n: "0 < n" "n \<le> 1000000"
  shows "int (perc_index (of_int p) n) = (p * int n + 99) div 100 - 1"
proof -
  define c where "c = fl (of_int p / 100 :: rat)"
  define x where "x = c * of_nat n"
  define k where "k = (p * int n + 99) div 100"
  define M where "M = (of_nat n :: rat)"
  define y where "y = of_int p * M"
  have M: "1 \<le> M" "M \<le> 1000000"
    using n of_nat_le_iff [of n 1000000, where 'a = rat] by (simp_all add: M_def)
  have fn: "fl (of_nat n) = M"
    using fl_of_int [of "int n"] n by (simp add: M_def)
  have k: "100 * k + 1 \<le> p * int n + 100" "p * int n \<le> 100 * k"
    unfolding k_def by linarith+
  have "(of_int (100 * k + 1) :: rat) \<le> of_int (p * int n + 100)" "(of_int (p * int n) :: rat) \<le> of_int (100 * k)"
    using k by (simp_all only: of_int_le_iff)
  then have kq: "100 * of_int k + 1 \<le> y + 100" "y \<le> 100 * of_int k"
    by (simp_all add: y_def M_def)
  have "M \<le> y" "y \<le> 100 * M"
    unfolding y_def using p M mult_right_mono [of 1 "of_int p :: rat" M] mult_right_mono [of "of_int p :: rat" 100 M]
    by simp_all
  moreover have xle: "x \<le> y / 100"
    using c(1) M mult_right_mono [of c "of_int p / 100" M] by (simp add: x_def c_def y_def M_def)
  moreover have xge: "y / 100 - M / 9007199254740992 \<le> x"
    using c(2) M mult_right_mono [of "of_int p / 100 - 1 / 2 ^ 53" c M]
    by (simp add: x_def c_def y_def M_def left_diff_distrib)
  ultimately have x: "0 < x" "x \<le> of_int k" "x \<le> 1000000" and gap: "of_int k - 1 < x - x / 9007199254740992"
    using kq M by linarith+
  have up: "fl x \<le> of_int k"
    using x by (intro fl_upper) simp_all
  have "of_int (k - 1) < fl x"
    using fl_lower [OF x(1)] gap by simp
  then have "\<lceil>fl x\<rceil> = k"
    using up by (intro ceiling_unique) simp_all
  moreover have "1 \<le> k"
    using k(2) p(1) n(1) by (smt (verit) mult_pos_pos of_nat_0_less_iff)
  moreover have "fl (of_int p / 100) * fl (of_nat n) = x"
    by (simp add: fn x_def c_def M_def)
  ultimately show ?thesis
    unfolding perc_index_def Let_def by (simp flip: k_def)
qed

text \<open>The index of the nearest rank: the least \<open>i\<close> with at least \<open>p\<close> percent of the samples up to it.\<close>

definition nearest_rank :: "nat \<Rightarrow> nat \<Rightarrow> nat" where
  "nearest_rank p n = (p * n + 99) div 100 - 1"

lemma perc_index_nearest_rank:
  assumes "0 < n" and "n \<le> 1000000"
  shows "perc_index 50 n = nearest_rank 50 n" "perc_index 95 n = nearest_rank 95 n"
    "perc_index 99 n = nearest_rank 99 n"
proof -
  have 50: "fl (of_int 50 / 100) \<le> of_int 50 / 100" "of_int 50 / 100 - 1 / 2 ^ 53 \<le> fl (of_int 50 / 100)"
    using fl_factors(1) by simp_all
  show "perc_index 50 n = nearest_rank 50 n" "perc_index 95 n = nearest_rank 95 n"
    "perc_index 99 n = nearest_rank 99 n"
    using perc_index_rank [of 50 n] perc_index_rank [of 95 n] perc_index_rank [of 99 n] fl_factors assms 50
    by (simp_all add: nearest_rank_def)
qed

lemma nearest_rank_bound: "0 < n \<Longrightarrow> p \<le> 100 \<Longrightarrow> nearest_rank p n < n"
proof -
  assume "0 < n" "p \<le> 100"
  then have "(p * n + 99) div 100 \<le> (100 * n + 99) div 100"
    by (intro div_le_mono) simp
  also have "\<dots> = n"
    by simp
  finally show "nearest_rank p n < n"
    using \<open>0 < n\<close> by (simp add: nearest_rank_def)
qed

lemma nearest_rank_mono: "p \<le> q \<Longrightarrow> nearest_rank p n \<le> nearest_rank q n"
  by (simp add: nearest_rank_def diff_le_mono div_le_mono)

text \<open>The reader of a well-formed ring never indexes out of range.\<close>

lemma Percentiles_total:
  assumes "lt_wf t" and "lt_cap t \<le> 1000000"
  shows "Percentiles t \<noteq> None"
proof -
  define n where "n = (if lt_full t then lt_cap t else lt_head t)"
  have "n \<le> length (samples t)" "n \<le> 1000000"
    using assms by (auto simp: n_def lt_wf_def)
  then show ?thesis
    using perc_index_nearest_rank [of n] nearest_rank_bound [of n]
    by (cases "n = 0") (simp_all add: Percentiles_def Let_def index_at_def flip: n_def)
qed

lemma metrics_Get_total:
  "lt_wf (Latency m) \<Longrightarrow> lt_cap (Latency m) \<le> 1000000 \<Longrightarrow> \<exists>sn m'. metrics_Get now m = Some (sn, m') \<and> Latency m' = Latency m"
  using Percentiles_total [of "Latency m"]
  by (auto simp: metrics_Get_def WritesPerSecond_def Let_def split: option.splits prod.splits)

text \<open>Sorting by the signed value depends on the samples only up to order.\<close>

lemma sort_key_sint_cong:
  fixes xs ys :: "int64 list"
  assumes "mset xs = mset ys"
  shows "sort_key sint xs = sort_key sint ys"
proof -
  have "map sint (sort_key sint xs) = sort (map sint xs)" for xs :: "int64 list"
    by (rule sym, rule properties_for_sort) simp_all
  moreover have "sort (map sint xs) = sort (map sint ys)"
    using assms by (intro properties_for_sort) simp_all
  ultimately have "map sint (sort_key sint xs) = map sint (sort_key sint ys)"
    by metis
  then show ?thesis
    by (rule map_injective) (simp add: inj_def signed_word_eqI)
qed

text \<open>The test of \<^verbatim>\<open>elapsed >= 1.0\<close> is the exact one.\<close>

lemma Seconds_ge_1:
  assumes "0 \<le> n" and "n \<le> int64_max"
  shows "1 \<le> Seconds (word_of_int n) \<longleftrightarrow> 1000000000 \<le> n"
proof -
  have dm: "n sdiv 1000000000 = n div 1000000000" "n smod 1000000000 = n mod 1000000000"
    using assms(1) by (cases "n = 0"; simp add: signed_divide_int_def signed_modulo_int_def)+
  define q r where "q = n div 1000000000" and "r = n mod 1000000000"
  have q: "0 \<le> q" "q < 2 ^ 53" and r: "0 \<le> r" "r < 1000000000"
    using assms by (simp_all add: q_def r_def int64_max_def)
  have "sint (word_of_int n :: int64) = n"
    using assms by (intro sint_word_of_int_64) (simp_all add: int64_min_def)
  then have S: "Seconds (word_of_int n) = fl (of_int q + fl (of_int r / 1000000000))"
    using fl_of_int [OF q] by (simp add: Seconds_def dm q_def r_def Let_def)
  have part: "0 \<le> fl (of_int r / 1000000000)"
    using r by (intro fl_nonneg) simp
  have rq: "(of_int r :: rat) \<le> 999999999"
    using r of_int_le_iff [of r 999999999, where 'a = rat] by simp
  show ?thesis
  proof (cases "1000000000 \<le> n")
    case True
    then have q1: "1 \<le> q" by (simp add: q_def)
    have "fl (of_int r / 1000000000) \<le> 1"
      using rq r by (cases "r = 0") (auto intro: fl_upper [where k = 1, simplified])
    moreover have "(of_int q :: rat) \<le> 9223372036"
      using assms of_int_le_iff [of q 9223372036, where 'a = rat] by (simp add: q_def int64_max_def)
    moreover have "(1 :: rat) \<le> of_int q"
      using q1 by simp
    ultimately show ?thesis
      using True part fl_ge [of "of_int q + fl (of_int r / 1000000000)" 1] by (simp add: S)
  next
    case False
    then have "q = 0" using assms(1) by (simp add: q_def)
    have "fl (fl (of_int r / 1000000000)) < 1"
    proof (cases "r = 0")
      case False
      then have "0 < (of_int r / 1000000000 :: rat)" using r by simp
      then have e: "fl (of_int r / 1000000000) \<le> of_int r / 1000000000 + of_int r / 1000000000 / 2 ^ 53"
        by (rule fl_error)
      show ?thesis
      proof (cases "fl (of_int r / 1000000000) = 0")
        case False
        then have "fl (fl (of_int r / 1000000000)) \<le> fl (of_int r / 1000000000) + fl (of_int r / 1000000000) / 2 ^ 53"
          using part by (intro fl_error) simp
        then show ?thesis using e rq by simp
      qed simp
    qed simp
    then show ?thesis
      using False \<open>q = 0\<close> by (simp add: S)
  qed
qed

section \<open>Properties\<close>

text \<open>
  C40: Percentiles are the nearest ranks. After any number of recorded latencies, \<^verbatim>\<open>Percentiles\<close>
  does not panic; with no sample it gives zeros, and otherwise the samples of rank 50, 95 and 99
  percent, rounded up, among the last 2000, in milliseconds. The rounding of the \<^verbatim>\<open>float64\<close>
  product never moves a rank, and the three ranks are in order.
\<close>

theorem percentiles_nearest_rank:
  assumes "record_all xs (NewLatencyTracker 2000) = Some t"
  shows "let ys = sort_key sint (lastn 2000 xs); n = length ys
         in Percentiles t = (if xs = [] then Some (0, 0, 0)
              else Some (toMs (ys ! nearest_rank 50 n), toMs (ys ! nearest_rank 95 n), toMs (ys ! nearest_rank 99 n)))
            \<and> (xs \<noteq> [] \<longrightarrow> nearest_rank 99 n < n
                \<and> sint (ys ! nearest_rank 50 n) \<le> sint (ys ! nearest_rank 95 n)
                \<and> sint (ys ! nearest_rank 95 n) \<le> sint (ys ! nearest_rank 99 n))"
proof -
  have t: "lt_wf t" "lt_cap t = 2000" "window t = lastn 2000 xs"
    using ring.rec_list_total [of "NewLatencyTracker 2000" xs] lt_wf_New [of 2000] assms
    by (auto simp: record_all_ring NewLatencyTracker_def window_def)
  define n where "n = (if lt_full t then lt_cap t else lt_head t)"
  have "n \<le> length (samples t) \<and> n = length (window t) \<and> n \<le> 2000"
    using t(1,2) by (auto simp: n_def lt_wf_def window_def)
  then have n: "n \<le> length (samples t)" "n = length (lastn 2000 xs)" "n \<le> 2000"
    unfolding t(3) by auto
  define ys where "ys = sort_key sint (lastn 2000 xs)"
  have "mset (take n (samples t)) = mset (lastn 2000 xs)"
    using mset_snapshot [OF t(1)] t(3) by (simp add: snapshot_samples_def n_def)
  then have ys: "sort_key sint (take n (samples t)) = ys"
    unfolding ys_def by (rule sort_key_sint_cong)
  have len: "length ys = n"
    by (simp add: ys_def n(2))
  have empty: "n = 0 \<longleftrightarrow> xs = []"
    using n(2) by (auto simp: min_def)
  have "sorted (map sint ys)"
    by (simp add: ys_def)
  then have srt: "sint (ys ! i) \<le> sint (ys ! j)" if "i \<le> j" "j < n" for i j
    using that sorted_nth_mono [of "map sint ys" i j] len by simp
  show ?thesis
  proof (cases "xs = []")
    case True
    then show ?thesis
      using empty by (simp add: Percentiles_def Let_def flip: n_def)
  next
    case False
    then have "0 < n" using empty by simp
    then have "nearest_rank p n < n" if "p \<le> 100" for p
      using that by (rule nearest_rank_bound)
    then show ?thesis
      using False \<open>0 < n\<close> n(1,3) ys len perc_index_nearest_rank [of n]
        nearest_rank_mono [of 50 95 n] nearest_rank_mono [of 95 99 n] srt
      by (simp add: Percentiles_def Let_def index_at_def flip: n_def ys_def)
  qed
qed

theorem percentiles_nearest_rank_witness:
  "\<exists>t. record_all [7000000, 5000000, 6000000] (NewLatencyTracker 2000) = Some t
       \<and> Percentiles t = Some (toMs 6000000, toMs 7000000, toMs 7000000)"
proof -
  obtain t where t: "record_all [7000000, 5000000, 6000000] (NewLatencyTracker 2000) = Some t"
    using ring.rec_list_total [of "NewLatencyTracker 2000" "[7000000, 5000000, 6000000]"] lt_wf_New [of 2000]
    by (auto simp: record_all_ring NewLatencyTracker_def window_def)
  then show ?thesis
    using percentiles_nearest_rank [OF t] by (simp add: lastn_def nearest_rank_def)
qed

text \<open>
  The throughput window. A request less than a second after the start of the window returns
  the last rate and changes nothing. A later one returns the writes counted since then over the
  time since then, and starts a new window.
\<close>

lemma wps_window:
  assumes "windowStart (tp m) = Some w" and "w \<le> now" and "now - w \<le> int64_max"
  shows "(now - w < 1000000000 \<longrightarrow> WritesPerSecond now m = (lastWPS (tp m), m))
    \<and> (1000000000 \<le> now - w \<longrightarrow>
         fst (WritesPerSecond now m) =
           fl (fl (of_int (sint (totalWrites m - startCount (tp m)))) / Seconds (word_of_int (now - w)))
         \<and> tp (snd (WritesPerSecond now m)) =
             \<lparr>windowStart = Some now, startCount = totalWrites m, lastWPS = fst (WritesPerSecond now m)\<rparr>)"
proof -
  have sub: "time_Sub now w = word_of_int (now - w)"
    using assms(2,3) by (simp add: time_Sub_def int64_min_def)
  then show ?thesis
    using Seconds_ge_1 [of "now - w"] assms by (simp add: WritesPerSecond_def Let_def)
qed

end
