(* ===== verification/Sqlite.thy ===== *)
theory Sqlite
  imports Prelude KV
begin

text \<open>
  \<^verbatim>\<open>store/sqlite.go\<close>: the durable log, one table \<^verbatim>\<open>kv_log\<close> with the integer primary key
  \<^verbatim>\<open>idx\<close>.

  The table is the list of its rows. The SQL statements of the source are translated by
  their meaning on it: \<^verbatim>\<open>INSERT OR IGNORE\<close> adds a row unless its primary key is there,
  \<^verbatim>\<open>INSERT\<close> fails then, \<^verbatim>\<open>DELETE FROM kv_log\<close> empties the table, and the \<^verbatim>\<open>SELECT\<close>
  lists the rows by ascending \<^verbatim>\<open>idx\<close>. Whether the driver succeeds is not known to the
  program, so every operation takes the driver's answers as a parameter: any of the calls
  that return an error may return any error. A handle that has been closed answers every call
  with an error, as \<^verbatim>\<open>database/sql\<close> does.
\<close>

section \<open>Rows, the table and the driver\<close>

record LogEntry =
  le_Index :: uint64
  le_IdempotencyKey :: string
  le_Key :: string
  le_Value :: string

record row =
  r_idx :: int
  r_idem :: string
  r_key :: string
  r_value :: string

definition row_of :: "LogEntry \<Rightarrow> row" where
  "row_of e = \<lparr>r_idx = uint (le_Index e), r_idem = le_IdempotencyKey e,
               r_key = le_Key e, r_value = le_Value e\<rparr>"

text \<open>\<^verbatim>\<open>rows.Scan\<close> into a \<^verbatim>\<open>LogEntry\<close>.\<close>

definition entry_of :: "row \<Rightarrow> LogEntry" where
  "entry_of r = \<lparr>le_Index = word_of_int (r_idx r), le_IdempotencyKey = r_idem r,
                 le_Key = r_key r, le_Value = r_value r\<rparr>"

record sqldb =
  tbl :: "row list"
  db_open :: bool

record driver =
  d_open :: "nat \<Rightarrow> go_error"
  d_begin :: go_error
  d_prepare :: go_error
  d_exec :: "nat \<Rightarrow> go_error"
  d_commit :: go_error
  d_query :: go_error
  d_scan :: "nat \<Rightarrow> go_error"
  d_rows :: "(nat \<times> string) option"

definition no_fault :: driver where
  "no_fault = \<lparr>d_open = (\<lambda>_. None), d_begin = None, d_prepare = None, d_exec = (\<lambda>_. None), d_commit = None,
               d_query = None, d_scan = (\<lambda>_. None), d_rows = None\<rparr>"

definition closed_error :: string where
  "closed_error = ''sql: database is closed''"

lemma no_fault_simps [simp]:
  "d_open no_fault i = None" "d_begin no_fault = None" "d_prepare no_fault = None" "d_exec no_fault i = None"
  "d_commit no_fault = None" "d_query no_fault = None" "d_scan no_fault i = None"
  "d_rows no_fault = None"
  by (simp_all add: no_fault_def)

lemma entry_row [simp]: "entry_of (row_of e) = e"
  by (simp add: entry_of_def row_of_def)

lemma row_of_simps [simp]:
  "r_idx (row_of e) = uint (le_Index e)" "r_idem (row_of e) = le_IdempotencyKey e"
  "r_key (row_of e) = le_Key e" "r_value (row_of e) = le_Value e"
  by (simp_all add: row_of_def)

lemma entry_of_simps [simp]: "le_Key (entry_of r) = r_key r" "le_Value (entry_of r) = r_value r"
  by (simp_all add: entry_of_def)

lemma row_of_inj [simp]: "row_of a = row_of b \<longleftrightarrow> a = b"
  by (metis entry_row)

section \<open>The keyed table as an interface\<close>

text \<open>
  What the writers rely on: an insert keeps the row that holds the primary key already.
  From the two laws alone, inserts are idempotent, and the result of inserting rows with
  distinct keys does not depend on their order, which is what lets the batch writer and
  its synchronous fallback write out of order.
\<close>

locale keyed_table =
  fixes key :: "'r \<Rightarrow> 'k"
    and ins :: "'r \<Rightarrow> 't \<Rightarrow> 't"
    and rows :: "'t \<Rightarrow> 'k \<rightharpoonup> 'r"
  assumes ins_old: "rows t (key r) = Some r' \<Longrightarrow> rows (ins r t) = rows t"
    and ins_new: "rows t (key r) = None \<Longrightarrow> rows (ins r t) = (rows t)(key r \<mapsto> r)"
begin

lemma rows_ins:
  "rows (ins r t) = (if rows t (key r) = None then (rows t)(key r \<mapsto> r) else rows t)"
  using ins_old ins_new by (cases "rows t (key r)") auto

lemma rows_fold_ins: "rows (fold ins rs t) = (map_of (map (\<lambda>r. (key r, r)) rs)) ++ rows t"
proof (induction rs arbitrary: t)
  case Nil
  then show ?case by simp
next
  case (Cons r rs)
  then show ?case
    by (auto simp: rows_ins map_add_def fun_eq_iff split: option.splits)
qed

lemma ins_idem: "rows (ins r (ins r t)) = rows (ins r t)"
  by (simp add: rows_ins)

lemma ins_commute: "key r \<noteq> key r' \<Longrightarrow> rows (ins r (ins r' t)) = rows (ins r' (ins r t))"
  by (auto simp: rows_ins fun_eq_iff)

lemma fold_ins_perm:
  assumes "mset rs = mset rs'" and "distinct (map key rs)"
  shows "rows (fold ins rs t) = rows (fold ins rs' t)"
proof -
  let ?p = "\<lambda>rs. map (\<lambda>r. (key r, r)) rs"
  have "distinct (map key rs')"
    using assms by (metis mset_eq_imp_distinct_iff mset_map)
  then have "map_of (?p rs) = map_of (?p rs')"
    using assms by (intro map_of_inject_set [THEN iffD2])
      (auto simp: comp_def dest: mset_eq_setD)
  then show ?thesis by (simp add: rows_fold_ins)
qed

lemma fold_ins_absorb:
  assumes "\<And>r. r \<in> set rs \<Longrightarrow> rows t (key r) \<noteq> None"
  shows "rows (fold ins rs t) = rows t"
proof -
  have "dom (map_of (map (\<lambda>r. (key r, r)) rs)) \<subseteq> dom (rows t)"
    using assms by (auto simp: dom_map_of_conv_image_fst)
  then show ?thesis
    by (auto simp: rows_fold_ins map_add_def fun_eq_iff split: option.splits)
qed

end

section \<open>The statements of the source\<close>

definition insert_or_ignore :: "row \<Rightarrow> row list \<Rightarrow> row list" where
  "insert_or_ignore r t = (if r_idx r \<in> set (map r_idx t) then t else t @ [r])"

definition tmap :: "row list \<Rightarrow> int \<rightharpoonup> row" where
  "tmap t = map_of (map (\<lambda>r. (r_idx r, r)) t)"

text \<open>The primary key: no two rows share an \<^verbatim>\<open>idx\<close>.\<close>

definition pk_ok :: "row list \<Rightarrow> bool" where
  "pk_ok t \<longleftrightarrow> distinct (map r_idx t)"

lemma dom_tmap: "dom (tmap t) = r_idx ` set t"
  by (simp add: tmap_def dom_map_of_conv_image_fst image_image)

lemma tmap_None: "tmap t i = None \<longleftrightarrow> i \<notin> r_idx ` set t"
  by (simp add: domIff flip: dom_tmap)

lemma tmap_SomeD: "tmap t i = Some r \<Longrightarrow> r \<in> set t \<and> r_idx r = i"
  by (auto simp: tmap_def dest: map_of_SomeD)

lemma tmap_Some_iff: "pk_ok t \<Longrightarrow> tmap t i = Some r \<longleftrightarrow> r \<in> set t \<and> r_idx r = i"
  by (auto simp: tmap_def pk_ok_def comp_def dest: map_of_SomeD intro!: map_of_is_SomeI)

lemma pk_ok_insert [simp]: "pk_ok t \<Longrightarrow> pk_ok (insert_or_ignore r t)"
  by (auto simp: pk_ok_def insert_or_ignore_def)

lemma pk_ok_fold [simp]: "pk_ok t \<Longrightarrow> pk_ok (fold insert_or_ignore rs t)"
  by (induction rs arbitrary: t) simp_all

lemma set_insert_or_ignore: "set (insert_or_ignore r t) \<subseteq> insert r (set t)"
  by (auto simp: insert_or_ignore_def)

lemma set_fold_insert: "set (fold insert_or_ignore rs t) \<subseteq> set rs \<union> set t"
proof (induction rs arbitrary: t)
  case (Cons r rs)
  then show ?case using set_insert_or_ignore [of r t] by fastforce
qed simp

lemma insert_or_ignore_new: "r_idx r \<notin> r_idx ` set t \<Longrightarrow> insert_or_ignore r t = t @ [r]"
  by (simp add: insert_or_ignore_def)

interpretation sql: keyed_table r_idx insert_or_ignore tmap
proof unfold_locales
  fix t and r r' :: row
  assume "tmap t (r_idx r) = Some r'"
  then have "r_idx r \<in> r_idx ` set t"
    by (metis imageI tmap_SomeD)
  then show "tmap (insert_or_ignore r t) = tmap t"
    by (simp add: insert_or_ignore_def)
next
  fix t and r :: row
  assume "tmap t (r_idx r) = None"
  then have "insert_or_ignore r t = t @ [r]"
    by (simp add: tmap_None insert_or_ignore_def)
  then show "tmap (insert_or_ignore r t) = (tmap t)(r_idx r \<mapsto> r)"
    using \<open>tmap t (r_idx r) = None\<close>
    by (auto simp: tmap_def fun_eq_iff map_add_def split: option.splits)
qed

text \<open>\<^verbatim>\<open>createSchema\<close>: an existing table is kept, a new one is empty.\<close>

definition createSchema :: "row list option \<Rightarrow> row list" where
  "createSchema existing = (case existing of Some t \<Rightarrow> t | None \<Rightarrow> [])"

text \<open>
  \<^verbatim>\<open>NewSQLiteLog\<close>: opening, five pragmas and the schema, each of which can fail. The answers
  of the driver are numbered in the order of the calls, from the opening on.
\<close>

definition open_steps :: "(nat \<times> string) list" where
  "open_steps =
     [(0, ''open sqlite: ''), (1, ''enable WAL: ''), (2, ''set synchronous: ''), (3, ''set cache_size: ''),
      (4, ''set temp_store: ''), (5, ''set mmap_size: ''), (6, [])]"

fun first_error :: "(nat \<Rightarrow> go_error) \<Rightarrow> (nat \<times> string) list \<Rightarrow> go_error" where
  "first_error f [] = None"
| "first_error f ((i, msg) # rest) = (case f i of Some err \<Rightarrow> Some (msg @ err) | None \<Rightarrow> first_error f rest)"

definition NewSQLiteLog :: "driver \<Rightarrow> row list option \<Rightarrow> string + sqldb" where
  "NewSQLiteLog d existing =
     (case first_error (d_open d) open_steps of
        Some err \<Rightarrow> Inl err
      | None \<Rightarrow> Inr \<lparr>tbl = createSchema existing, db_open = True\<rparr>)"

lemma NewSQLiteLog_no_fault: "NewSQLiteLog no_fault disk = Inr \<lparr>tbl = createSchema disk, db_open = True\<rparr>"
  by (simp add: NewSQLiteLog_def open_steps_def)

section \<open>Append, Replay, ReplaceAll, Close\<close>

definition Append :: "driver \<Rightarrow> LogEntry \<Rightarrow> sqldb \<Rightarrow> go_error \<times> sqldb" where
  "Append d e s =
     (if \<not> db_open s then (Some closed_error, s)
      else case d_exec d 0 of
             Some err \<Rightarrow> (Some err, s)
           | None \<Rightarrow> (None, s\<lparr>tbl := insert_or_ignore (row_of e) (tbl s)\<rparr>))"

text \<open>
  \<^verbatim>\<open>Replay\<close>: the callback runs on each row by ascending \<^verbatim>\<open>idx\<close>, until it or the driver
  reports an error. What it did to the caller's state until then stays done.
\<close>

fun replay_rows ::
    "driver \<Rightarrow> (LogEntry \<Rightarrow> 's \<Rightarrow> go_error \<times> 's) \<Rightarrow> nat \<Rightarrow> row list \<Rightarrow> 's \<Rightarrow> go_error \<times> 's" where
  "replay_rows d fn i [] s = (map_option snd (d_rows d), s)"
| "replay_rows d fn i (r # rs) s =
     (if map_option fst (d_rows d) = Some i then (map_option snd (d_rows d), s)
      else case d_scan d i of
             Some err \<Rightarrow> (Some err, s)
           | None \<Rightarrow>
               (case fn (entry_of r) s of
                  (Some err, s') \<Rightarrow> (Some err, s')
                | (None, s') \<Rightarrow> replay_rows d fn (Suc i) rs s'))"

definition Replay ::
    "driver \<Rightarrow> (LogEntry \<Rightarrow> 's \<Rightarrow> go_error \<times> 's) \<Rightarrow> sqldb \<Rightarrow> 's \<Rightarrow> go_error \<times> 's" where
  "Replay d fn db s =
     (if \<not> db_open db then (Some closed_error, s)
      else case d_query d of
             Some err \<Rightarrow> (Some err, s)
           | None \<Rightarrow> replay_rows d fn 0 (sort_key r_idx (tbl db)) s)"

text \<open>
  \<^verbatim>\<open>ReplaceAll\<close>. The argument \<open>es\<close> lists the entries in the order in which the loop ranges
  over the map. The transaction works on a copy that \<^verbatim>\<open>Commit\<close> installs; on every
  other path the deferred \<^verbatim>\<open>Rollback\<close> drops it.
\<close>

fun insert_entries ::
    "driver \<Rightarrow> nat \<Rightarrow> (string \<times> string) list \<Rightarrow> row list \<Rightarrow> string + row list" where
  "insert_entries d i [] t = Inr t"
| "insert_entries d i ((k, v) # es) t =
     (case d_exec d (Suc i) of
        Some err \<Rightarrow> Inl (''insert snapshot entry: '' @ err)
      | None \<Rightarrow>
          (if int i \<in> set (map r_idx t) then Inl ''insert snapshot entry: UNIQUE constraint failed''
           else insert_entries d (Suc i) es
                  (t @ [\<lparr>r_idx = int i, r_idem = [], r_key = k, r_value = v\<rparr>])))"

definition ReplaceAll ::
    "driver \<Rightarrow> (string \<times> string) list \<Rightarrow> sqldb \<Rightarrow> go_error \<times> sqldb" where
  "ReplaceAll d es s =
     (if \<not> db_open s then (Some (''begin transaction: '' @ closed_error), s)
      else case d_begin d of
             Some err \<Rightarrow> (Some (''begin transaction: '' @ err), s)
           | None \<Rightarrow>
      (case d_exec d 0 of
         Some err \<Rightarrow> (Some (''delete old log: '' @ err), s)
       | None \<Rightarrow>
      (case insert_entries d 0 es [] of
         Inl err \<Rightarrow> (Some err, s)
       | Inr t \<Rightarrow>
      (case d_commit d of
         Some err \<Rightarrow> (Some err, s)
       | None \<Rightarrow> (None, s\<lparr>tbl := t\<rparr>)))))"

definition Close :: "sqldb \<Rightarrow> sqldb" where
  "Close s = s\<lparr>db_open := False\<rparr>"

section \<open>What Replay rebuilds\<close>

definition row_kv :: "row \<Rightarrow> string \<times> string" where
  "row_kv r = (r_key r, r_value r)"

text \<open>The map a replay into an empty store builds, as a function of the table alone.\<close>

definition replay_map :: "row list \<Rightarrow> string \<rightharpoonup> string" where
  "replay_map t = writes (map row_kv (sort_key r_idx t)) Map.empty"

text \<open>The callback \<^verbatim>\<open>main.go\<close> gives to \<^verbatim>\<open>Replay\<close>.\<close>

definition set_entry :: "LogEntry \<Rightarrow> KV \<Rightarrow> go_error \<times> KV" where
  "set_entry e k = (None, kv_Set (le_Key e) (le_Value e) k)"

lemma replay_rows_set:
  "snd (replay_rows no_fault set_entry i rs k) = kvs.put_all (map row_kv rs) k
   \<and> fst (replay_rows no_fault set_entry i rs k) = None"
  by (induction rs arbitrary: i k) (simp_all add: kvs.put_all_def set_entry_def row_kv_def)

lemma Replay_set:
  assumes "db_open db"
  shows "Replay no_fault set_entry db k =
           (None, kvs.put_all (map row_kv (sort_key r_idx (tbl db))) k)"
  using assms replay_rows_set [of 0 "sort_key r_idx (tbl db)" k]
  by (simp add: Replay_def prod_eq_iff)

lemma Replay_kv:
  "db_open db \<Longrightarrow> kv_data (snd (Replay no_fault set_entry db NewKV)) = replay_map (tbl db)"
  by (simp add: Replay_set kv_data_put_all replay_map_def)

lemma sort_key_mset_eq:
  assumes "mset xs = mset ys" and "distinct (map f xs)"
  shows "sort_key f xs = sort_key f ys"
proof (rule properties_for_sort_key)
  show "mset (sort_key f ys) = mset xs"
    by (simp add: assms(1))
  show "sorted (map f (sort_key f ys))"
    by simp
  fix k assume k: "k \<in> set (sort_key f ys)"
  have single: "filter (\<lambda>x. f k = f x) zs = [k]" if "distinct (map f zs)" "k \<in> set zs" for zs
    using that
  proof (induction zs)
    case (Cons a zs)
    show ?case
    proof (cases "a = k")
      case True
      then have "filter (\<lambda>x. f k = f x) zs = []"
        using Cons.prems by (auto simp: filter_empty_conv)
      then show ?thesis using True by simp
    next
      case False
      then have "k \<in> set zs" and "f k \<noteq> f a"
        using Cons.prems by auto (metis imageI)
      then show ?thesis using Cons by simp
    qed
  qed simp
  have "distinct (map f (sort_key f ys))"
    by (metis assms mset_eq_imp_distinct_iff mset_map mset_sort)
  moreover have "k \<in> set xs"
    using k assms(1) by (metis set_mset_mset set_sort)
  ultimately show "filter (\<lambda>x. f k = f x) (sort_key f ys) = filter (\<lambda>x. f k = f x) xs"
    using single k assms(2) by metis
qed

lemma sort_key_tmap_cong:
  assumes "pk_ok t" and "pk_ok t'" and "tmap t = tmap t'"
  shows "sort_key r_idx t = sort_key r_idx t'"
proof -
  have "set t = set t'"
    using assms tmap_Some_iff by (metis subsetI subset_antisym)
  moreover have "distinct t" "distinct t'"
    using assms by (auto simp: pk_ok_def distinct_map)
  ultimately have "mset t = mset t'"
    by (simp add: set_eq_iff_mset_eq_distinct)
  then show ?thesis
    using assms by (intro sort_key_mset_eq) (simp_all add: pk_ok_def)
qed

lemma replay_map_cong:
  "pk_ok t \<Longrightarrow> pk_ok t' \<Longrightarrow> tmap t = tmap t' \<Longrightarrow> replay_map t = replay_map t'"
  unfolding replay_map_def using sort_key_tmap_cong by metis

lemma sort_key_snoc_max:
  assumes "\<And>x. x \<in> set xs \<Longrightarrow> f x < f y"
  shows "sort_key f (xs @ [y]) = sort_key f xs @ [y]"
proof (rule properties_for_sort_key)
  show "mset (sort_key f xs @ [y]) = mset (xs @ [y])" by simp
  show "sorted (map f (sort_key f xs @ [y]))"
    using assms by (auto simp: sorted_append less_imp_le)
  fix k assume "k \<in> set (sort_key f xs @ [y])"
  show "filter (\<lambda>x. f k = f x) (sort_key f xs @ [y]) = filter (\<lambda>x. f k = f x) (xs @ [y])"
    using sort_key_stable [of f "f k" xs] by (simp add: eq_commute)
qed

lemma replay_map_Nil [simp]: "replay_map [] = Map.empty"
  by (simp add: replay_map_def)

lemma replay_map_insert_max:
  assumes "\<And>r'. r' \<in> set t \<Longrightarrow> r_idx r' < r_idx r"
  shows "replay_map (insert_or_ignore r t) = (replay_map t)(r_key r \<mapsto> r_value r)"
proof -
  have "insert_or_ignore r t = t @ [r]"
    using assms by (force intro: insert_or_ignore_new)
  then show ?thesis
    using sort_key_snoc_max [of t r_idx r] assms
    by (simp add: replay_map_def row_kv_def)
qed

lemma dom_replay_map: "dom (replay_map t) = r_key ` set t"
  by (simp add: replay_map_def dom_writes row_kv_def image_image)

lemma sorted_le_last: "sorted (map f zs) \<Longrightarrow> z \<in> set zs \<Longrightarrow> f z \<le> f (last zs)"
  by (induction zs) auto

lemma filter_sort_last:
  assumes "filter P (sort_key f xs) = ys" and "x \<in> set xs" and "P x"
  shows "f x \<le> f (last ys)"
proof (rule sorted_le_last)
  show "sorted (map f ys)"
    using assms(1) by (metis sorted_filter sorted_sort_key)
  show "x \<in> set ys"
    unfolding assms(1) [symmetric] using assms(2,3) by simp
qed

text \<open>The value a key has after a replay is that of the row with the greatest index.\<close>

lemma replay_map_max:
  assumes pk: "pk_ok t"
  shows "replay_map t k = Some v \<longleftrightarrow>
           (\<exists>r \<in> set t. r_key r = k \<and> r_value r = v
                \<and> (\<forall>r' \<in> set t. r_key r' = k \<longrightarrow> r_idx r' \<le> r_idx r))"
proof -
  let ?P = "\<lambda>r. r_key r = k"
  let ?ys = "filter ?P (sort_key r_idx t)"
  have fil: "filter (\<lambda>p. fst p = k) (map row_kv (sort_key r_idx t)) = map row_kv ?ys"
    by (simp add: filter_map comp_def row_kv_def)
  have val: "replay_map t k = (case ?ys of [] \<Rightarrow> None | _ \<Rightarrow> Some (r_value (last ?ys)))"
    unfolding replay_map_def writes_last fil
    by (cases ?ys) (simp_all add: row_kv_def last_map)
  have max: "r_idx x \<le> r_idx (last ?ys)" if "x \<in> set t" "?P x" for x
    using filter_sort_last [of ?P r_idx t ?ys x] that by simp
  have inj: "inj_on r_idx (set t)"
    using pk by (simp add: pk_ok_def distinct_map)
  show ?thesis
  proof (cases "?ys = []")
    case True
    then show ?thesis
      using val by (auto simp: filter_empty_conv)
  next
    case False
    have "last ?ys \<in> set ?ys"
      using False by (rule last_in_set)
    then have l: "last ?ys \<in> set t" "?P (last ?ys)"
      by simp_all
    have v: "replay_map t k = Some (r_value (last ?ys))"
      using False val by (simp split: list.splits)
    have uniq: "r = last ?ys" if "r \<in> set t" "?P r" "\<forall>r' \<in> set t. ?P r' \<longrightarrow> r_idx r' \<le> r_idx r" for r
    proof (rule inj_onD [OF inj])
      show "r_idx r = r_idx (last ?ys)"
        using that l max [of r] by (intro order_antisym) auto
    qed (use that l in auto)
    show ?thesis
    proof
      assume "replay_map t k = Some v"
      then have "r_value (last ?ys) = v"
        using v by simp
      with l max show "\<exists>r \<in> set t. r_key r = k \<and> r_value r = v
                \<and> (\<forall>r' \<in> set t. r_key r' = k \<longrightarrow> r_idx r' \<le> r_idx r)"
        by (intro bexI [of _ "last ?ys"]) simp_all
    next
      assume "\<exists>r \<in> set t. r_key r = k \<and> r_value r = v
                \<and> (\<forall>r' \<in> set t. r_key r' = k \<longrightarrow> r_idx r' \<le> r_idx r)"
      then obtain r where "r \<in> set t" "r_key r = k" "r_value r = v"
          "\<forall>r' \<in> set t. r_key r' = k \<longrightarrow> r_idx r' \<le> r_idx r"
        by blast
      then show "replay_map t k = Some v"
        using uniq [of r] v by simp
    qed
  qed
qed

section \<open>ReplaceAll\<close>

text \<open>The rows \<^verbatim>\<open>ReplaceAll\<close> writes: synthetic indices counted from \<open>i\<close>.\<close>

fun snap_rows :: "nat \<Rightarrow> (string \<times> string) list \<Rightarrow> row list" where
  "snap_rows i [] = []"
| "snap_rows i ((k, v) # es) =
     \<lparr>r_idx = int i, r_idem = [], r_key = k, r_value = v\<rparr> # snap_rows (Suc i) es"

lemma snap_rows_idx: "map r_idx (snap_rows i es) = map int [i..<i + length es]"
proof (induction es arbitrary: i)
  case (Cons p es)
  then show ?case by (cases p) (simp add: upt_rec)
qed simp

lemma snap_rows_kv: "map row_kv (snap_rows i es) = es"
proof (induction es arbitrary: i)
  case (Cons p es)
  then show ?case by (cases p) (simp add: row_kv_def)
qed simp

lemma snap_rows_idx_bound: "r \<in> set (snap_rows 0 es) \<Longrightarrow> 0 \<le> r_idx r \<and> r_idx r < int (length es)"
proof -
  assume "r \<in> set (snap_rows 0 es)"
  then have "r_idx r \<in> set (map r_idx (snap_rows 0 es))"
    by simp
  then show ?thesis
    unfolding snap_rows_idx by auto
qed

lemma pk_ok_snap_rows: "pk_ok (snap_rows i es)"
  by (simp add: pk_ok_def snap_rows_idx distinct_map)

lemma replay_map_snap_rows: "replay_map (snap_rows i es) = writes es Map.empty"
proof -
  have "sorted (map r_idx (snap_rows i es))"
    by (simp add: snap_rows_idx sorted_map sorted_wrt_upt flip: sorted_wrt_map)
  then have "sort_key r_idx (snap_rows i es) = snap_rows i es"
    by (rule sort_key_id_if_sorted)
  then show ?thesis
    by (simp add: replay_map_def snap_rows_kv)
qed

lemma insert_entries_Inr:
  assumes "insert_entries d i es t = Inr t'"
  shows "t' = t @ snap_rows i es"
  using assms
proof (induction es arbitrary: i t)
  case (Cons p es)
  then show ?case
    by (cases p) (fastforce split: option.splits if_splits)
qed simp

lemma insert_entries_ok:
  assumes "\<And>j. d_exec d (Suc j) = None" and "\<And>r. r \<in> set t \<Longrightarrow> r_idx r < int i"
  shows "insert_entries d i es t = Inr (t @ snap_rows i es)"
  using assms(2)
proof (induction es arbitrary: i t)
  case (Cons p es)
  obtain k v where p: "p = (k, v)" by (cases p)
  let ?r = "\<lparr>r_idx = int i, r_idem = [], r_key = k, r_value = v\<rparr>"
  have "int i \<notin> r_idx ` set t"
    using Cons.prems by force
  moreover have "insert_entries d (Suc i) es (t @ [?r]) = Inr ((t @ [?r]) @ snap_rows (Suc i) es)"
    using Cons.prems by (intro Cons.IH) force
  ultimately show ?case
    by (simp add: p assms(1))
qed simp

lemma ReplaceAll_result:
  assumes "ReplaceAll d es s = (err, s')"
  shows "(err = None \<longrightarrow> s' = s\<lparr>tbl := snap_rows 0 es\<rparr>) \<and> (err \<noteq> None \<longrightarrow> s' = s)"
  using assms
  by (auto simp: ReplaceAll_def dest: insert_entries_Inr split: if_splits option.splits sum.splits)

lemma ReplaceAll_no_fault:
  "db_open s \<Longrightarrow> ReplaceAll no_fault es s = (None, s\<lparr>tbl := snap_rows 0 es\<rparr>)"
  using insert_entries_ok [of no_fault "[]" 0 es] by (simp add: ReplaceAll_def)

lemma db_open_ReplaceAll [simp]: "db_open (snd (ReplaceAll d es s)) = db_open s"
  using ReplaceAll_result [of d es s] by (cases "ReplaceAll d es s") auto

section \<open>Properties\<close>

text \<open>
  The replay of \<^verbatim>\<open>main.go\<close> into an empty store gives each key the value of the row with the
  greatest index among the rows of that key, and no other key.
\<close>

lemma replay_last_writer:
  assumes "db_open db" and "pk_ok (tbl db)"
  shows "fst (Replay no_fault set_entry db NewKV) = None
    \<and> (kv_Get k (snd (Replay no_fault set_entry db NewKV)) = (v, True) \<longleftrightarrow>
        (\<exists>r \<in> set (tbl db). r_key r = k \<and> r_value r = v
           \<and> (\<forall>r' \<in> set (tbl db). r_key r' = k \<longrightarrow> r_idx r' \<le> r_idx r)))"
  unfolding replay_map_max [OF assms(2), symmetric]
  using Replay_kv [OF assms(1)] Replay_set [OF assms(1), of NewKV]
  by (simp add: kv_Get_def split: option.splits)

text \<open>
  Rows with distinct indices may reach the table in any order. Whatever the callback does and
  whatever the driver answers, \<^verbatim>\<open>Replay\<close> gives the same result, which is why the synchronous
  fallback of the batch writer may overtake the entries still queued.
\<close>

lemma replay_insert_order:
  assumes "mset rs = mset rs'" and "distinct (map r_idx rs)" and "pk_ok t"
  shows "Replay d fn \<lparr>tbl = fold insert_or_ignore rs t, db_open = b\<rparr> s =
         Replay d fn \<lparr>tbl = fold insert_or_ignore rs' t, db_open = b\<rparr> s"
  using sql.fold_ins_perm [OF assms(1,2), of t] assms(3)
    sort_key_tmap_cong [of "fold insert_or_ignore rs t" "fold insert_or_ignore rs' t"]
  by (simp add: Replay_def split: option.split)

text \<open>
  C30: \<^verbatim>\<open>ReplaceAll\<close> is atomic. Whatever call fails, the table is untouched; otherwise it replays to
  exactly the given entries, in whatever order they were written.
\<close>

theorem replace_all_atomic:
  assumes "enumerates es m"
  shows "(case ReplaceAll d es s of
            (None, s') \<Rightarrow> replay_map (tbl s') = m \<and> pk_ok (tbl s') \<and> db_open s' = db_open s
          | (Some err, s') \<Rightarrow> s' = s)"
proof -
  obtain err s' where R: "ReplaceAll d es s = (err, s')"
    by (cases "ReplaceAll d es s")
  then show ?thesis
    using ReplaceAll_result [OF R] writes_enumerates [OF assms, of Map.empty]
    by (auto simp: replay_map_snap_rows pk_ok_snap_rows split: option.splits)
qed

theorem replace_all_atomic_witness:
  "(case ReplaceAll (no_fault\<lparr>d_commit := Some ''disk full''\<rparr>) [(''k'', ''v'')] \<lparr>tbl = [], db_open = True\<rparr> of
      (None, s') \<Rightarrow> replay_map (tbl s') = [''k'' \<mapsto> ''v''] \<and> pk_ok (tbl s')
                   \<and> db_open s' = db_open \<lparr>tbl = [], db_open = True\<rparr>
    | (Some err, s') \<Rightarrow> s' = \<lparr>tbl = [], db_open = True\<rparr>)"
  by (rule replace_all_atomic) (simp add: enumerates_def)

end
