(* ===== verification/BatchWriter.thy ===== *)
theory BatchWriter
  imports Prelude Env Metrics Sqlite
begin

text \<open>
  \<^verbatim>\<open>store/batch.go\<close>: the worker that decouples SQLite writes from the commit path.

  A state holds the struct (channel content and capacity, the \<^verbatim>\<open>stop\<close> channel, the tuning
  values), the variables of the worker goroutine (its slice \<^verbatim>\<open>batch\<close> and where it is in
  \<^verbatim>\<open>run\<close>), and what it shares with the rest of the process: the database handle and the
  metrics. Every definition is generic in the record's extension, so that the state machine
  of \<^verbatim>\<open>fsm/fsm.go\<close> extends this record and uses the operations as they are.

  A \<^verbatim>\<open>select\<close> picks any case that is ready. The picks of the worker are a parameter
  (\<open>wchoice\<close>), and so are the steps the worker takes while \<^verbatim>\<open>Send\<close> waits for a slot.
\<close>

section \<open>State\<close>

datatype worker_pc = Running | Draining | Exited

record bwsys =
  ch :: "LogEntry list"
  chan_cap :: nat
  stop_closed :: bool
  flushSize :: nat
  flushInterval :: duration
  batch :: "LogEntry list"
  wpc :: worker_pc
  db :: sqldb
  mets :: metrics

definition writer_of :: "environment \<Rightarrow> sqldb \<Rightarrow> metrics \<Rightarrow> bwsys" where
  "writer_of getenv sqliteLog m =
     (let chanSize = store_envInt getenv ''BATCH_CHAN_SIZE'' 4096;
          size = store_envInt getenv ''BATCH_SIZE'' 200;
          flushMs = store_envInt getenv ''FLUSH_INTERVAL_MS'' 10
      in \<lparr>ch = [], chan_cap = nat chanSize, stop_closed = False, flushSize = nat size,
          flushInterval = times_unit flushMs millisecond,
          batch = [], wpc = Running, db = sqliteLog, mets = m\<rparr>)"

text \<open>
  \<^verbatim>\<open>make\<close> panics when it is asked for more than the address space holds, \<open>2 ^ 48\<close> bytes in the
  runtime for 64-bit machines; a channel takes 112 more than its slots. A \<^verbatim>\<open>LogEntry\<close>, one
  integer and three string headers, has 56 bytes. Within that limit memory is taken to suffice.
\<close>

definition maxAlloc :: nat where "maxAlloc = 2 ^ 48"

definition LogEntry_size :: nat where "LogEntry_size = 56"

definition make_chan_ok :: "nat \<Rightarrow> bool" where
  "make_chan_ok n \<longleftrightarrow> n * LogEntry_size + 112 \<le> maxAlloc"

definition make_slice_ok :: "nat \<Rightarrow> bool" where
  "make_slice_ok n \<longleftrightarrow> n * LogEntry_size \<le> maxAlloc"

text \<open>The constructor makes the channel, and panics (\<open>None\<close>) if that is too large.\<close>

definition NewBatchWriter :: "environment \<Rightarrow> sqldb \<Rightarrow> metrics \<Rightarrow> bwsys option" where
  "NewBatchWriter getenv sqliteLog m =
     (let bw = writer_of getenv sqliteLog m
      in if make_chan_ok (chan_cap bw) then Some bw else None)"

text \<open>
  The first statements of \<^verbatim>\<open>run\<close> make the ticker, which panics unless the interval is positive, and
  the slice for a batch. They are the first step of the worker's goroutine; a panic there (\<open>None\<close>)
  ends the process at whatever moment it is scheduled (see \<open>main_start\<close> in the theory \<^verbatim>\<open>Process\<close>).
\<close>

definition run_start :: "'a bwsys_scheme \<Rightarrow> 'a bwsys_scheme option" where
  "run_start s = (if ticker_ok (flushInterval s) \<and> make_slice_ok (flushSize s) then Some s else None)"

section \<open>Inserting\<close>

fun exec_rows :: "driver \<Rightarrow> nat \<Rightarrow> LogEntry list \<Rightarrow> row list \<Rightarrow> string + row list" where
  "exec_rows d i [] t = Inr t"
| "exec_rows d i (e # es) t =
     (case d_exec d i of
        Some err \<Rightarrow> Inl err
      | None \<Rightarrow> exec_rows d (Suc i) es (insert_or_ignore (row_of e) t))"

text \<open>One transaction: a copy of the table, installed by \<^verbatim>\<open>Commit\<close> alone.\<close>

definition insertBatch :: "driver \<Rightarrow> LogEntry list \<Rightarrow> sqldb \<Rightarrow> go_error \<times> sqldb" where
  "insertBatch d es s =
     (if \<not> db_open s then (Some closed_error, s)
      else case d_begin d of
             Some err \<Rightarrow> (Some err, s)
           | None \<Rightarrow>
      (case d_prepare d of
         Some err \<Rightarrow> (Some err, s)
       | None \<Rightarrow>
      (case exec_rows d 0 es (tbl s) of
         Inl err \<Rightarrow> (Some err, s)
       | Inr t \<Rightarrow>
      (case d_commit d of
         Some err \<Rightarrow> (Some err, s)
       | None \<Rightarrow> (None, s\<lparr>tbl := t\<rparr>)))))"

definition insertOne :: "driver \<Rightarrow> LogEntry \<Rightarrow> sqldb \<Rightarrow> go_error \<times> sqldb" where
  "insertOne d e s =
     (if \<not> db_open s then (Some closed_error, s)
      else case d_exec d 0 of
             Some err \<Rightarrow> (Some err, s)
           | None \<Rightarrow> (None, s\<lparr>tbl := insert_or_ignore (row_of e) (tbl s)\<rparr>))"

section \<open>The worker\<close>

text \<open>The local function \<^verbatim>\<open>flush\<close> of \<^verbatim>\<open>run\<close>: the batch is emptied whatever the outcome.\<close>

definition flush :: "driver \<Rightarrow> 'a bwsys_scheme \<Rightarrow> 'a bwsys_scheme" where
  "flush d s =
     (if batch s = [] then s
      else let (err, db') = insertBatch d (batch s) (db s);
               m = (if err \<noteq> None then RecordError (mets s) else mets s)
           in s\<lparr>db := db', batch := [], mets := SetQueueDepth (length (ch s)) m\<rparr>)"

datatype wchoice = WRecv | WTick | WStop | WDrain

text \<open>
  One round of the worker's loop. \<open>WRecv\<close>, \<open>WTick\<close> and \<open>WStop\<close> are the three cases of the
  outer \<^verbatim>\<open>select\<close>; \<open>WDrain\<close> is a round of the inner loop, whose \<^verbatim>\<open>default\<close> is taken only
  when the channel is empty. \<open>None\<close>: that case is not ready.
\<close>

fun worker_step :: "driver \<Rightarrow> wchoice \<Rightarrow> 'a bwsys_scheme \<Rightarrow> 'a bwsys_scheme option" where
  "worker_step d WRecv s =
     (if wpc s = Running then
        (case ch s of
           [] \<Rightarrow> None
         | e # es \<Rightarrow>
             let s' = s\<lparr>ch := es, batch := batch s @ [e]\<rparr>
             in Some (if flushSize s \<le> length (batch s') then flush d s' else s'))
      else None)"
| "worker_step d WTick s = (if wpc s = Running then Some (flush d s) else None)"
| "worker_step d WStop s =
     (if wpc s = Running \<and> stop_closed s then Some (s\<lparr>wpc := Draining\<rparr>) else None)"
| "worker_step d WDrain s =
     (if wpc s = Draining then
        (case ch s of
           e # es \<Rightarrow> Some (s\<lparr>ch := es, batch := batch s @ [e]\<rparr>)
         | [] \<Rightarrow> Some ((flush d s)\<lparr>wpc := Exited\<rparr>))
      else None)"

text \<open>A run of the worker by itself; a pick that is not ready changes nothing.\<close>

fun worker_run :: "(driver \<times> wchoice) list \<Rightarrow> 'a bwsys_scheme \<Rightarrow> 'a bwsys_scheme" where
  "worker_run [] s = s"
| "worker_run ((d, c) # cs) s =
     worker_run cs (case worker_step d c s of None \<Rightarrow> s | Some s' \<Rightarrow> s')"

section \<open>Send and Stop\<close>

text \<open>
  \<^verbatim>\<open>Send\<close>. With a free slot the entry is queued. Without one the call waits, and the worker
  takes the steps \<open>sched\<close> before the timer of 100 ms fires; if none of them frees a slot, the
  entry is written synchronously.
\<close>

fun Send ::
    "(driver \<times> wchoice) list \<Rightarrow> driver \<Rightarrow> LogEntry \<Rightarrow> 'a bwsys_scheme \<Rightarrow> 'a bwsys_scheme" where
  "Send [] d e s =
     (if length (ch s) < chan_cap s then
        let s' = s\<lparr>ch := ch s @ [e]\<rparr>
        in s'\<lparr>mets := SetQueueDepth (length (ch s')) (mets s')\<rparr>
      else
        let (err, db') = insertOne d e (db s)
        in s\<lparr>mets := RecordError (mets s), db := db'\<rparr>)"
| "Send ((dw, c) # sched) d e s =
     (if length (ch s) < chan_cap s then
        let s' = s\<lparr>ch := ch s @ [e]\<rparr>
        in s'\<lparr>mets := SetQueueDepth (length (ch s')) (mets s')\<rparr>
      else Send sched d e (case worker_step dw c s of None \<Rightarrow> s | Some s' \<Rightarrow> s'))"

text \<open>\<^verbatim>\<open>Stop\<close> closes a channel; closing it twice panics (\<open>None\<close>).\<close>

definition Stop :: "'a bwsys_scheme \<Rightarrow> 'a bwsys_scheme option" where
  "Stop s = (if stop_closed s then None else Some (s\<lparr>stop_closed := True\<rparr>))"

section \<open>The settled table\<close>

text \<open>
  What the table would hold if everything received so far were flushed: the rows, then the
  batch, then the channel. This is the abstraction the writer is judged by.
\<close>

definition settled :: "'a bwsys_scheme \<Rightarrow> row list" where
  "settled s = fold insert_or_ignore (map row_of (batch s @ ch s)) (tbl (db s))"

lemma settled_idle: "batch s = [] \<Longrightarrow> ch s = [] \<Longrightarrow> settled s = tbl (db s)"
  by (simp add: settled_def)

lemma pk_ok_settled [simp]: "pk_ok (tbl (db s)) \<Longrightarrow> pk_ok (settled s)"
  by (simp add: settled_def)

lemma set_settled: "set (settled s) \<subseteq> row_of ` set (batch s @ ch s) \<union> set (tbl (db s))"
  using set_fold_insert [of "map row_of (batch s @ ch s)" "tbl (db s)"]
  by (simp add: settled_def image_Un)

lemma exec_rows_Inr:
  "exec_rows d i es t = Inr t' \<Longrightarrow> t' = fold insert_or_ignore (map row_of es) t"
  by (induction es arbitrary: i t) (auto split: option.splits)

lemma exec_rows_ok:
  "(\<And>j. d_exec d j = None) \<Longrightarrow> exec_rows d i es t = Inr (fold insert_or_ignore (map row_of es) t)"
  by (induction es arbitrary: i t) simp_all

lemma insertBatch_result:
  assumes "insertBatch d es s = (err, s')"
  shows "(err = None \<longrightarrow> s' = s\<lparr>tbl := fold insert_or_ignore (map row_of es) (tbl s)\<rparr>)
         \<and> (err \<noteq> None \<longrightarrow> s' = s)"
  using assms
  by (auto simp: insertBatch_def dest: exec_rows_Inr split: if_splits option.splits sum.splits)

lemma insertBatch_no_fault:
  "db_open s \<Longrightarrow> insertBatch no_fault es s =
     (None, s\<lparr>tbl := fold insert_or_ignore (map row_of es) (tbl s)\<rparr>)"
  by (simp add: insertBatch_def exec_rows_ok)

lemma insertOne_result:
  assumes "insertOne d e s = (err, s')"
  shows "(err = None \<longrightarrow> s' = s\<lparr>tbl := insert_or_ignore (row_of e) (tbl s)\<rparr>)
         \<and> (err \<noteq> None \<longrightarrow> s' = s)"
  using assms by (auto simp: insertOne_def split: if_splits option.splits)

section \<open>What each operation does\<close>

text \<open>A driver whose answers to an insert are all successes.\<close>

definition healthy :: "driver \<Rightarrow> bool" where
  "healthy d \<longleftrightarrow> d_begin d = None \<and> d_prepare d = None \<and> (\<forall>i. d_exec d i = None) \<and> d_commit d = None"

lemma healthy_no_fault [simp]: "healthy no_fault"
  by (simp add: healthy_def)

lemma insertBatch_healthy:
  "healthy d \<Longrightarrow> db_open s \<Longrightarrow> insertBatch d es s =
     (None, s\<lparr>tbl := fold insert_or_ignore (map row_of es) (tbl s)\<rparr>)"
  by (simp add: insertBatch_def exec_rows_ok healthy_def)

lemma insertOne_healthy:
  "healthy d \<Longrightarrow> db_open s \<Longrightarrow>
     insertOne d e s = (None, s\<lparr>tbl := insert_or_ignore (row_of e) (tbl s)\<rparr>)"
  by (simp add: insertOne_def healthy_def)

lemma flush_frame [frame_simps, simp]:
  "ch (flush d s) = ch s" "chan_cap (flush d s) = chan_cap s"
  "stop_closed (flush d s) = stop_closed s" "flushSize (flush d s) = flushSize s"
  "flushInterval (flush d s) = flushInterval s" "wpc (flush d s) = wpc s"
  "batch (flush d s) = []" "bwsys.more (flush d s) = bwsys.more s"
  by (simp_all add: flush_def Let_def split: prod.splits)

lemma flush_db_open [frame_simps, simp]: "db_open (db (flush d s)) = db_open (db s)"
  using insertBatch_result [of d "batch s" "db s"]
  by (auto simp: flush_def Let_def split: prod.splits)

lemma metrics_errors [simp]:
  "totalErrors (SetQueueDepth n m) = totalErrors m"
  "totalErrors (RecordError m) = totalErrors m + 1"
  by (simp_all add: metrics_defs)

text \<open>A flush writes the whole batch and counts no error, or nothing and counts one.\<close>

lemma flush_outcome:
  "(db (flush d s) = (db s)\<lparr>tbl := fold insert_or_ignore (map row_of (batch s)) (tbl (db s))\<rparr>
      \<and> totalErrors (mets (flush d s)) = totalErrors (mets s))
   \<or> (db (flush d s) = db s \<and> batch s \<noteq> []
      \<and> totalErrors (mets (flush d s)) = totalErrors (mets s) + 1)"
  using insertBatch_result [of d "batch s" "db s"]
  by (auto simp: flush_def Let_def split: prod.splits)

lemma flush_healthy:
  assumes "healthy d" and "db_open (db s)"
  shows "db (flush d s) = (db s)\<lparr>tbl := fold insert_or_ignore (map row_of (batch s)) (tbl (db s))\<rparr>"
  using assms by (simp add: flush_def Let_def insertBatch_healthy)

lemma settled_flush_counted:
  "settled (flush d s) = settled s \<or> totalErrors (mets (flush d s)) = totalErrors (mets s) + 1"
  using flush_outcome [of d s] by (auto simp: settled_def)

lemma settled_flush_healthy [settle_simps]:
  "healthy d \<Longrightarrow> db_open (db s) \<Longrightarrow> settled (flush d s) = settled s"
  by (simp add: settled_def flush_healthy)

lemma settled_recv [settle_simps]:
  "ch s = e # es \<Longrightarrow> settled (s\<lparr>ch := es, batch := batch s @ [e]\<rparr>) = settled s"
  by (simp add: settled_def)

lemma settled_wpc [settle_simps, simp]: "settled (s\<lparr>wpc := w\<rparr>) = settled s"
  by (simp add: settled_def)

lemma settled_mets [settle_simps, simp]: "settled (s\<lparr>mets := m\<rparr>) = settled s"
  by (simp add: settled_def)

lemma settled_stop [settle_simps, simp]: "settled (s\<lparr>stop_closed := b\<rparr>) = settled s"
  by (simp add: settled_def)

lemma worker_step_cases:
  assumes "worker_step d c s = Some s'"
  obtains
    (recv) e es where "wpc s = Running" "ch s = e # es" "c = WRecv"
      "length (batch s) + 1 < flushSize s" "s' = s\<lparr>ch := es, batch := batch s @ [e]\<rparr>"
  | (recv_flush) e es where "wpc s = Running" "ch s = e # es" "c = WRecv"
      "flushSize s \<le> length (batch s) + 1" "s' = flush d (s\<lparr>ch := es, batch := batch s @ [e]\<rparr>)"
  | (tick) "wpc s = Running" "c = WTick" "s' = flush d s"
  | (stop) "wpc s = Running" "c = WStop" "stop_closed s" "s' = s\<lparr>wpc := Draining\<rparr>"
  | (drain) e es where "wpc s = Draining" "ch s = e # es" "c = WDrain"
      "s' = s\<lparr>ch := es, batch := batch s @ [e]\<rparr>"
  | (exit) "wpc s = Draining" "ch s = []" "c = WDrain" "s' = (flush d s)\<lparr>wpc := Exited\<rparr>"
  using assms
  by (cases c) (auto simp: Let_def not_le split: if_splits list.splits)

text \<open>
  Conservation: whatever the driver answers, a step of the worker keeps the settled table,
  or the error counter has gone up.
\<close>

lemma worker_step_conserves:
  assumes "worker_step d c s = Some s'"
  shows "settled s' = settled s \<or> totalErrors (mets s') = totalErrors (mets s) + 1"
  using assms
proof (cases rule: worker_step_cases)
  case (recv_flush e es)
  then show ?thesis
    using settled_flush_counted [of d "s\<lparr>ch := es, batch := batch s @ [e]\<rparr>"]
    by (simp add: settle_simps)
next
  case tick
  then show ?thesis using settled_flush_counted [of d s] by simp
next
  case exit
  then show ?thesis using settled_flush_counted [of d s] by simp
qed (simp_all add: settle_simps)

lemma worker_step_healthy:
  assumes "worker_step d c s = Some s'" and "healthy d" and "db_open (db s)"
  shows "settled s' = settled s"
  using assms(1) by (cases rule: worker_step_cases) (simp_all add: settle_simps assms)

lemma worker_step_frame:
  assumes "worker_step d c s = Some s'"
  shows "chan_cap s' = chan_cap s" "stop_closed s' = stop_closed s"
    "flushSize s' = flushSize s" "flushInterval s' = flushInterval s"
    "bwsys.more s' = bwsys.more s" "db_open (db s') = db_open (db s)"
  using assms by (cases rule: worker_step_cases; simp)+

lemma worker_step_pk:
  assumes "worker_step d c s = Some s'" and "pk_ok (tbl (db s))"
  shows "pk_ok (tbl (db s'))"
proof -
  have fl: "pk_ok (tbl (db (flush d t)))" if "pk_ok (tbl (db t))" for t :: "'a bwsys_scheme"
    using flush_outcome [of d t] that by auto
  from assms(1) show ?thesis
    by (cases rule: worker_step_cases) (use assms(2) fl in simp_all)
qed

text \<open>No step of the worker makes rows up.\<close>

definition holds_rows :: "'a bwsys_scheme \<Rightarrow> row set" where
  "holds_rows s = row_of ` (set (batch s) \<union> set (ch s)) \<union> set (tbl (db s))"

lemma holds_rows_flush: "holds_rows (flush d s) \<subseteq> holds_rows s"
  using flush_outcome [of d s] set_fold_insert [of "map row_of (batch s)" "tbl (db s)"]
  by (auto simp: holds_rows_def)

lemma worker_step_holds_rows:
  assumes "worker_step d c s = Some s'"
  shows "holds_rows s' \<subseteq> holds_rows s"
  using assms
proof (cases rule: worker_step_cases)
  case (recv_flush e es)
  then show ?thesis
    using holds_rows_flush [of d "s\<lparr>ch := es, batch := batch s @ [e]\<rparr>"]
    by (auto simp: holds_rows_def)
next
  case exit
  then show ?thesis
    using holds_rows_flush [of d s] by (auto simp: holds_rows_def)
next
  case tick
  then show ?thesis
    using holds_rows_flush [of d s] by simp
qed (auto simp: holds_rows_def)

text \<open>The unfolding of \<^verbatim>\<open>Send\<close>: first the worker's steps while the channel is full, then one of the two outcomes.\<close>

definition enqueue :: "LogEntry \<Rightarrow> 'a bwsys_scheme \<Rightarrow> 'a bwsys_scheme" where
  "enqueue e s = s\<lparr>ch := ch s @ [e], mets := SetQueueDepth (length (ch s) + 1) (mets s)\<rparr>"

definition sync_write :: "driver \<Rightarrow> LogEntry \<Rightarrow> 'a bwsys_scheme \<Rightarrow> 'a bwsys_scheme" where
  "sync_write d e s = s\<lparr>mets := RecordError (mets s), db := snd (insertOne d e (db s))\<rparr>"

lemma Send_room: "length (ch s) < chan_cap s \<Longrightarrow> Send sched d e s = enqueue e s"
  by (cases sched) (auto simp: enqueue_def Let_def)

lemma Send_full:
  "\<not> length (ch s) < chan_cap s \<Longrightarrow> Send [] d e s = sync_write d e s"
  "\<not> length (ch s) < chan_cap s \<Longrightarrow> Send ((dw, c) # sched) d e s =
     Send sched d e (case worker_step dw c s of None \<Rightarrow> s | Some s' \<Rightarrow> s')"
  by (simp_all add: sync_write_def split: prod.splits)

declare Send.simps [simp del]

text \<open>A property of the states that worker steps keep and that both outcomes establish.\<close>

lemma Send_induct [case_names room full step]:
  assumes "\<And>s. P s \<Longrightarrow> length (ch s) < chan_cap s \<Longrightarrow> Q (enqueue e s)"
    and "\<And>s. P s \<Longrightarrow> \<not> length (ch s) < chan_cap s \<Longrightarrow> Q (sync_write d e s)"
    and "\<And>s s' dw c. P s \<Longrightarrow> (dw, c) \<in> set sched \<Longrightarrow> worker_step dw c s = Some s' \<Longrightarrow> P s'"
    and "P s"
  shows "Q (Send sched d e s)"
  using assms(3,4)
proof (induction sched arbitrary: s)
  case Nil
  then show ?case
    by (cases "length (ch s) < chan_cap s") (simp_all add: Send_room Send_full assms(1,2))
next
  case (Cons p sched)
  obtain dw c where p: "p = (dw, c)" by (cases p)
  show ?case
  proof (cases "length (ch s) < chan_cap s")
    case True
    then show ?thesis using Cons.prems assms(1) by (simp add: Send_room)
  next
    case False
    let ?s = "case worker_step dw c s of None \<Rightarrow> s | Some s' \<Rightarrow> s'"
    have "P ?s"
      using Cons.prems by (auto simp: p split: option.splits)
    then have "Q (Send sched d e ?s)"
      using Cons.prems(1) by (intro Cons.IH) auto
    then show ?thesis
      using False by (simp add: p Send_full)
  qed
qed

lemma Send_frame:
  "bwsys.more (Send sched d e s) = bwsys.more s \<and> chan_cap (Send sched d e s) = chan_cap s
   \<and> flushSize (Send sched d e s) = flushSize s \<and> stop_closed (Send sched d e s) = stop_closed s
   \<and> db_open (db (Send sched d e s)) = db_open (db s)"
  (is "?Q (Send sched d e s)")
proof (rule Send_induct [where P = ?Q])
  fix u :: "'a bwsys_scheme" assume "?Q u"
  then show "?Q (enqueue e u)" by (simp add: enqueue_def)
next
  fix u :: "'a bwsys_scheme" assume "?Q u"
  then show "?Q (sync_write d e u)"
    using insertOne_result [of d e "db u"]
    by (cases "insertOne d e (db u)") (auto simp: sync_write_def)
next
  fix u u' :: "'a bwsys_scheme" and dw c
  assume "?Q u" "worker_step dw c u = Some u'"
  then show "?Q u'" by (simp add: worker_step_frame)
qed simp

lemma worker_frame_more [frame_simps]: "worker_step d c s = Some s' \<Longrightarrow> bwsys.more s' = bwsys.more s"
  by (rule worker_step_frame)

section \<open>A sink that loses nothing\<close>

text \<open>
  The contract of the writer towards its client: an accepted entry is part of the content from
  then on, and the background work changes nothing of the content, while the database answers.
  For any interleaving of the two, the content is then the old one and the accepted entries.
\<close>

locale durable_sink =
  fixes good :: "'s \<Rightarrow> bool"
    and accept :: "'v \<Rightarrow> 'e \<Rightarrow> 's \<Rightarrow> 's"
    and accept_env :: "'v \<Rightarrow> bool"
    and pump :: "'w \<Rightarrow> 's \<Rightarrow> 's"
    and pump_env :: "'w \<Rightarrow> bool"
    and content :: "'s \<Rightarrow> 'k \<rightharpoonup> 'r"
    and key :: "'e \<Rightarrow> 'k"
    and img :: "'e \<Rightarrow> 'r"
  assumes accept_good: "good s \<Longrightarrow> accept_env v \<Longrightarrow> good (accept v e s)"
    and accept_content:
      "good s \<Longrightarrow> accept_env v \<Longrightarrow> content s (key e) = None \<or> content s (key e) = Some (img e) \<Longrightarrow>
         content (accept v e s) = (content s)(key e \<mapsto> img e)"
    and pump_good: "good s \<Longrightarrow> pump_env w \<Longrightarrow> good (pump w s)"
    and pump_content: "good s \<Longrightarrow> pump_env w \<Longrightarrow> content (pump w s) = content s"
begin

fun sink_run :: "('v \<times> 'e + 'w) list \<Rightarrow> 's \<Rightarrow> 's" where
  "sink_run [] s = s"
| "sink_run (Inl (v, e) # xs) s = sink_run xs (accept v e s)"
| "sink_run (Inr w # xs) s = sink_run xs (pump w s)"

definition accepted :: "('v \<times> 'e + 'w) list \<Rightarrow> 'e list" where
  "accepted xs = concat (map (\<lambda>x. case x of Inl (v, e) \<Rightarrow> [e] | Inr w \<Rightarrow> []) xs)"

definition envs_ok :: "('v \<times> 'e + 'w) list \<Rightarrow> bool" where
  "envs_ok xs \<longleftrightarrow> (\<forall>x \<in> set xs. case x of Inl (v, e) \<Rightarrow> accept_env v | Inr w \<Rightarrow> pump_env w)"

lemma accepted_simps [simp]:
  "accepted [] = []" "accepted (Inl (v, e) # xs) = e # accepted xs" "accepted (Inr w # xs) = accepted xs"
  by (simp_all add: accepted_def)

lemma envs_ok_simps [simp]:
  "envs_ok []" "envs_ok (Inl (v, e) # xs) \<longleftrightarrow> accept_env v \<and> envs_ok xs"
  "envs_ok (Inr w # xs) \<longleftrightarrow> pump_env w \<and> envs_ok xs"
  by (simp_all add: envs_ok_def)

text \<open>The entries agree with each other and with what is there: one entry per key.\<close>

definition agree :: "'e list \<Rightarrow> ('k \<rightharpoonup> 'r) \<Rightarrow> bool" where
  "agree es m \<longleftrightarrow> (\<forall>e \<in> set es. m (key e) = None \<or> m (key e) = Some (img e))
     \<and> (\<forall>e \<in> set es. \<forall>e' \<in> set es. key e = key e' \<longrightarrow> img e = img e')"

lemma agree_head: "agree (e # es) m \<Longrightarrow> m (key e) = None \<or> m (key e) = Some (img e)"
  unfolding agree_def by (meson list.set_intros(1))

lemma agree_Cons:
  assumes "agree (e # es) m"
  shows "agree es (m(key e \<mapsto> img e))"
  unfolding agree_def
proof (intro conjI ballI impI)
  fix x assume x: "x \<in> set es"
  show "(m(key e \<mapsto> img e)) (key x) = None \<or> (m(key e \<mapsto> img e)) (key x) = Some (img x)"
  proof (cases "key x = key e")
    case True
    then have "img e = img x"
      using assms x unfolding agree_def by (metis list.set_intros)
    then show ?thesis using True by simp
  next
    case False
    then show ?thesis
      using assms x unfolding agree_def by (metis fun_upd_other list.set_intros(2))
  qed
next
  fix x y assume "x \<in> set es" "y \<in> set es" "key x = key y"
  then show "img x = img y"
    using assms unfolding agree_def by (metis list.set_intros(2))
qed

lemma sink_run_content:
  assumes "good s" and "envs_ok xs" and "agree (accepted xs) (content s)"
  shows "good (sink_run xs s)
         \<and> content (sink_run xs s) = writes (map (\<lambda>e. (key e, img e)) (accepted xs)) (content s)"
  using assms
proof (induction xs s rule: sink_run.induct)
  case (2 v e xs s)
  have c: "content (accept v e s) = (content s)(key e \<mapsto> img e)"
    using "2.prems" by (intro accept_content agree_head [of e "accepted xs"]) simp_all
  have "agree (accepted xs) (content (accept v e s))"
    unfolding c using "2.prems"(3) by (simp add: agree_Cons)
  moreover have "good (accept v e s)"
    using "2.prems" by (simp add: accept_good)
  moreover have "envs_ok xs"
    using "2.prems"(2) by simp
  ultimately have "good (sink_run xs (accept v e s))
      \<and> content (sink_run xs (accept v e s)) =
          writes (map (\<lambda>e. (key e, img e)) (accepted xs)) (content (accept v e s))"
    by (intro "2.IH")
  then show ?case
    by (simp only: sink_run.simps accepted_simps list.map writes_Cons c simp_thms)
next
  case (3 w xs s)
  then show ?case
    using pump_good [of s w] pump_content [of s w] by simp
qed simp

end

definition bw_good :: "'a bwsys_scheme \<Rightarrow> bool" where
  "bw_good s \<longleftrightarrow> db_open (db s) \<and> pk_ok (tbl (db s))"

definition stored :: "'a bwsys_scheme \<Rightarrow> int \<rightharpoonup> row" where
  "stored s = tmap (settled s)"

definition pump_worker :: "driver \<times> wchoice \<Rightarrow> 'a bwsys_scheme \<Rightarrow> 'a bwsys_scheme" where
  "pump_worker dc s = (case worker_step (fst dc) (snd dc) s of None \<Rightarrow> s | Some s' \<Rightarrow> s')"

definition send_with ::
    "(driver \<times> wchoice) list \<times> driver \<Rightarrow> LogEntry \<Rightarrow> 'a bwsys_scheme \<Rightarrow> 'a bwsys_scheme" where
  "send_with v e s = Send (fst v) (snd v) e s"

definition send_env :: "(driver \<times> wchoice) list \<times> driver \<Rightarrow> bool" where
  "send_env v \<longleftrightarrow> (\<forall>p \<in> set (fst v). healthy (fst p)) \<and> healthy (snd v)"

lemma stored_enqueue:
  assumes "stored s (uint (le_Index e)) = None \<or> stored s (uint (le_Index e)) = Some (row_of e)"
  shows "stored (enqueue e s) = (stored s)(uint (le_Index e) \<mapsto> row_of e)"
proof -
  have "settled (enqueue e s) = insert_or_ignore (row_of e) (settled s)"
    by (simp add: settled_def enqueue_def)
  then show ?thesis
    using assms by (auto simp: stored_def sql.rows_ins)
qed

lemma stored_sync_write:
  assumes "stored s (uint (le_Index e)) = None \<or> stored s (uint (le_Index e)) = Some (row_of e)"
    and "healthy d" and "db_open (db s)"
  shows "stored (sync_write d e s) = (stored s)(uint (le_Index e) \<mapsto> row_of e)"
proof -
  let ?ps = "map row_of (batch s @ ch s)"
  have st: "stored s = map_of (map (\<lambda>r. (r_idx r, r)) ?ps) ++ tmap (tbl (db s))"
    unfolding stored_def settled_def by (rule sql.rows_fold_ins)
  have "stored (sync_write d e s) =
          map_of (map (\<lambda>r. (r_idx r, r)) ?ps) ++ tmap (insert_or_ignore (row_of e) (tbl (db s)))"
    unfolding stored_def settled_def sql.rows_fold_ins
    using assms(2,3) by (simp add: sync_write_def insertOne_healthy)
  then show ?thesis
    using assms(1)
    by (auto simp: st sql.rows_ins map_add_def fun_eq_iff split: option.splits)
qed

lemma worker_step_stored:
  assumes "worker_step d c s = Some s'" and "healthy d" and "bw_good s"
  shows "stored s' = stored s \<and> bw_good s'"
  using worker_step_healthy [OF assms(1,2)] worker_step_frame(6) [OF assms(1)]
    worker_step_pk [OF assms(1)] assms(3)
  by (simp add: stored_def bw_good_def)

lemma Send_stored:
  assumes "bw_good s" and "send_env (sched, d)"
    and "stored s (uint (le_Index e)) = None \<or> stored s (uint (le_Index e)) = Some (row_of e)"
  shows "bw_good (Send sched d e s)
         \<and> stored (Send sched d e s) = (stored s)(uint (le_Index e) \<mapsto> row_of e)"
proof (rule Send_induct [where P = "\<lambda>u. bw_good u \<and> stored u = stored s"])
  fix u :: "'a bwsys_scheme"
  assume "bw_good u \<and> stored u = stored s"
  then show "bw_good (enqueue e u) \<and> stored (enqueue e u) = (stored s)(uint (le_Index e) \<mapsto> row_of e)"
    using stored_enqueue [of u e] assms(3) by (simp add: bw_good_def enqueue_def)
next
  fix u :: "'a bwsys_scheme"
  assume u: "bw_good u \<and> stored u = stored s"
  then have "bw_good (sync_write d e u)"
    using assms(2) by (simp add: bw_good_def sync_write_def insertOne_healthy send_env_def)
  then show "bw_good (sync_write d e u)
      \<and> stored (sync_write d e u) = (stored s)(uint (le_Index e) \<mapsto> row_of e)"
    using stored_sync_write [of u e d] u assms by (simp add: bw_good_def send_env_def)
next
  fix u u' :: "'a bwsys_scheme" and dw c
  assume "bw_good u \<and> stored u = stored s" "(dw, c) \<in> set sched" "worker_step dw c u = Some u'"
  then show "bw_good u' \<and> stored u' = stored s"
    using worker_step_stored [of dw c u u'] assms(2) by (auto simp: send_env_def)
qed (simp add: assms(1))

interpretation sink: durable_sink bw_good send_with send_env pump_worker "\<lambda>dc. healthy (fst dc)"
  stored "\<lambda>e. uint (le_Index e)" row_of
proof unfold_locales
  fix s :: "'a bwsys_scheme" and v e
  assume g: "bw_good s" "send_env v"
  show "bw_good (send_with v e s)"
  proof (unfold send_with_def, rule Send_induct [where P = bw_good])
    fix u u' :: "'a bwsys_scheme" and dw c
    assume "bw_good u" "(dw, c) \<in> set (fst v)" "worker_step dw c u = Some u'"
    then show "bw_good u'"
      using worker_step_frame(6) worker_step_pk by (metis bw_good_def)
  qed (use g in \<open>auto simp: bw_good_def enqueue_def sync_write_def insertOne_healthy send_env_def\<close>)
  assume "stored s (uint (le_Index e)) = None \<or> stored s (uint (le_Index e)) = Some (row_of e)"
  then show "stored (send_with v e s) = (stored s)(uint (le_Index e) \<mapsto> row_of e)"
    using Send_stored [of s "fst v" "snd v" e] g by (simp add: send_with_def)
next
  fix s :: "'a bwsys_scheme" and w :: "driver \<times> wchoice"
  assume "bw_good s" "healthy (fst w)"
  then show "bw_good (pump_worker w s)" "stored (pump_worker w s) = stored s"
    using worker_step_stored by (auto simp: pump_worker_def split: option.splits)
qed

section \<open>Reachable states\<close>

text \<open>The steps of the component: a client's send, the worker, and \<^verbatim>\<open>Stop\<close>.\<close>

inductive bw_next :: "bwsys \<Rightarrow> bwsys \<Rightarrow> bool" where
  send: "bw_next s (Send sched d e s)"
| work: "worker_step d c s = Some s' \<Longrightarrow> bw_next s s'"
| stop: "Stop s = Some s' \<Longrightarrow> bw_next s s'"

inductive bw_reach :: "bwsys \<Rightarrow> bwsys \<Rightarrow> bool" for s0 where
  start: "bw_reach s0 s0"
| step: "bw_reach s0 s \<Longrightarrow> bw_next s s' \<Longrightarrow> bw_reach s0 s'"

inductive_cases bw_nextE: "bw_next s s'"

text \<open>
  The channel never holds more than its capacity, the batch of a running worker stays below the
  flush size, and only a stopped worker drains or has left.
\<close>

definition bw_inv :: "'a bwsys_scheme \<Rightarrow> bool" where
  "bw_inv s \<longleftrightarrow>
     0 < chan_cap s \<and> 0 < flushSize s \<and> length (ch s) \<le> chan_cap s
     \<and> (wpc s = Running \<longrightarrow> length (batch s) < flushSize s)
     \<and> (wpc s \<noteq> Running \<longrightarrow> stop_closed s)
     \<and> (wpc s = Exited \<longrightarrow> batch s = [])"

lemma bw_inv_worker_step:
  assumes "worker_step d c s = Some s'" and "bw_inv s"
  shows "bw_inv s'"
  using assms(1) by (cases rule: worker_step_cases) (use assms(2) in \<open>auto simp: bw_inv_def\<close>)

lemma bw_inv_Send:
  assumes "bw_inv s"
  shows "bw_inv (Send sched d e s)"
proof (rule Send_induct [where P = bw_inv])
  fix u u' dw c
  assume "bw_inv u" "worker_step dw c u = Some u'"
  then show "bw_inv u'" using bw_inv_worker_step by blast
qed (use assms in \<open>auto simp: bw_inv_def enqueue_def sync_write_def\<close>)

lemma bw_inv_next: "bw_next s s' \<Longrightarrow> bw_inv s \<Longrightarrow> bw_inv s'"
  by (auto elim!: bw_nextE simp: bw_inv_Send bw_inv_worker_step)
    (auto simp: Stop_def bw_inv_def split: if_splits)

lemma bw_inv_New: "bw_inv (writer_of getenv q m)"
  using store_envInt_range [of 4096 getenv "''BATCH_CHAN_SIZE''"]
    store_envInt_range [of 200 getenv "''BATCH_SIZE''"]
  by (simp add: bw_inv_def writer_of_def Let_def int64_max_def)

lemma bw_inv_reach: "bw_reach s0 s \<Longrightarrow> bw_inv s0 \<Longrightarrow> bw_inv s"
  by (induction rule: bw_reach.induct) (auto intro: bw_inv_next)

section \<open>Draining\<close>

text \<open>
  The inner loop of \<^verbatim>\<open>run\<close> after \<^verbatim>\<open>Stop\<close>: one round per queued entry and one to flush and leave.
\<close>

lemma drain_run:
  assumes "wpc s = Draining" and "healthy d" and "db_open (db s)"
  shows "let s' = worker_run (replicate (Suc (length (ch s))) (d, WDrain)) s
         in wpc s' = Exited \<and> ch s' = [] \<and> batch s' = [] \<and> tbl (db s') = settled s"
  using assms
proof (induction "ch s" arbitrary: s)
  case Nil
  then show ?case
    by (simp add: Let_def flush_healthy settled_def)
next
  case (Cons e es)
  let ?s = "s\<lparr>ch := es, batch := batch s @ [e]\<rparr>"
  have "settled ?s = settled s"
    using Cons.hyps(2) by (simp add: settle_simps)
  then show ?case
    using Cons.hyps(1) [of ?s] Cons.prems by (simp add: Cons.hyps(2) [symmetric] Let_def)
qed

section \<open>Properties\<close>

text \<open>Sends and steps of the worker, in the order they happen.\<close>

type_synonym writer_event =
  "((driver \<times> wchoice) list \<times> driver) \<times> LogEntry + driver \<times> wchoice"

fun bw_run :: "writer_event list \<Rightarrow> 'a bwsys_scheme \<Rightarrow> 'a bwsys_scheme" where
  "bw_run [] s = s"
| "bw_run (Inl (v, e) # xs) s = bw_run xs (send_with v e s)"
| "bw_run (Inr w # xs) s = bw_run xs (pump_worker w s)"

fun sent :: "writer_event list \<Rightarrow> LogEntry list" where
  "sent [] = []"
| "sent (Inl (v, e) # xs) = e # sent xs"
| "sent (Inr w # xs) = sent xs"

fun all_healthy :: "writer_event list \<Rightarrow> bool" where
  "all_healthy [] = True"
| "all_healthy (Inl (v, e) # xs) = (send_env v \<and> all_healthy xs)"
| "all_healthy (Inr w # xs) = (healthy (fst w) \<and> all_healthy xs)"

lemma bw_run_sink: "bw_run xs s = sink.sink_run xs s"
  by (induction xs s rule: bw_run.induct) simp_all

lemma sent_sink: "sent xs = sink.accepted xs"
  by (induction xs rule: sent.induct) simp_all

lemma all_healthy_sink: "all_healthy xs = sink.envs_ok xs"
  by (induction xs rule: all_healthy.induct) simp_all

text \<open>
  C10: Nothing is lost while the database answers. For any interleaving of sends, through the channel or
  synchronous, with steps of the worker, and for any point at which \<^verbatim>\<open>Stop\<close> is noticed: if every call of the
  database succeeds, also those of the drain, and the sent entries have distinct indices of which none is
  taken yet, then the drain ends, the worker leaves, and the table holds what it and the queues
  held before and every entry that was sent.
\<close>

theorem writer_delivers_all:
  assumes "bw_good s" and "all_healthy xs" and "healthy d"
    and "distinct (map le_Index (sent xs))"
    and "\<And>e. e \<in> set (sent xs) \<Longrightarrow> stored s (uint (le_Index e)) = None"
    and "wpc (bw_run xs s) = Draining"
  shows "let z = worker_run (replicate (Suc (length (ch (bw_run xs s)))) (d, WDrain)) (bw_run xs s)
         in wpc z = Exited \<and> ch z = [] \<and> batch z = []
            \<and> tmap (tbl (db z)) = writes (map (\<lambda>e. (uint (le_Index e), row_of e)) (sent xs)) (stored s)"
proof -
  have "row_of x = row_of y"
    if "x \<in> set (sent xs)" "y \<in> set (sent xs)" "uint (le_Index x) = uint (le_Index y)" for x y
    using that assms(4) inj_onD [of le_Index "set (sent xs)" x y]
    by (simp add: distinct_map word_uint_eq_iff [of "le_Index x" "le_Index y"])
  then have "sink.agree (sink.accepted xs) (stored s)"
    using assms(5) unfolding sink.agree_def sent_sink [symmetric] by auto
  then have "bw_good (bw_run xs s)
      \<and> stored (bw_run xs s) = writes (map (\<lambda>e. (uint (le_Index e), row_of e)) (sent xs)) (stored s)"
    using sink.sink_run_content [of s xs] assms(1,2)
    by (simp add: bw_run_sink sent_sink all_healthy_sink)
  then show ?thesis
    using drain_run [OF assms(6,3)] by (simp add: bw_good_def stored_def Let_def)
qed

definition ex_entry :: "uint64 \<Rightarrow> LogEntry" where
  "ex_entry i = \<lparr>le_Index = i, le_IdempotencyKey = ''a'', le_Key = ''k'', le_Value = ''v''\<rparr>"

text \<open>A writer with a channel of one slot, whose second entry overtakes the first.\<close>

definition ex_writer :: bwsys where
  "ex_writer =
     \<lparr>ch = [], chan_cap = 1, stop_closed = True, flushSize = 2, flushInterval = 1, batch = [],
      wpc = Running, db = \<lparr>tbl = [], db_open = True\<rparr>, mets = init_metrics\<rparr>"

definition ex_writes :: "writer_event list" where
  "ex_writes = [Inl (([], no_fault), ex_entry 1), Inl (([], no_fault), ex_entry 2), Inr (no_fault, WStop)]"

lemma ex_writes_run:
  "bw_run ex_writes ex_writer = ex_writer\<lparr>ch := [ex_entry 1], wpc := Draining,
     db := \<lparr>tbl = [row_of (ex_entry 2)], db_open = True\<rparr>,
     mets := RecordError (SetQueueDepth 1 init_metrics)\<rparr>"
  by (simp add: ex_writes_def ex_writer_def send_with_def Send.simps Let_def insertOne_healthy
      insert_or_ignore_def pump_worker_def)

theorem writer_delivers_all_witness:
  "let z = worker_run [(no_fault, WDrain), (no_fault, WDrain)] (bw_run ex_writes ex_writer)
   in wpc z = Exited \<and> tmap (tbl (db z)) = [1 \<mapsto> row_of (ex_entry 1), 2 \<mapsto> row_of (ex_entry 2)]"
proof -
  have "stored ex_writer = Map.empty"
    by (simp add: stored_def settled_def ex_writer_def tmap_def)
  then show ?thesis
    using writer_delivers_all [of ex_writer ex_writes no_fault]
    by (simp add: ex_writes_run Let_def)
      (simp add: ex_writes_def ex_writer_def bw_good_def pk_ok_def send_env_def ex_entry_def)
qed

text \<open>
  A step of the worker keeps the settled table, whatever the database answers, or it increments
  \<^verbatim>\<open>totalErrors\<close>: no loss goes unreported.
\<close>

lemma worker_loss_is_counted:
  assumes "worker_step d c s = Some s'"
  shows "settled s' = settled s \<or> totalErrors (mets s') = totalErrors (mets s) + 1"
  using worker_step_conserves [OF assms] .

text \<open>
  The loss is real. When the transaction of a flush is refused, the batch is emptied all the same:
  its entries are then in none of the batch, the channel and the table, and no later step of
  the writer brings them back.
\<close>

lemma failed_flush_drops_batch:
  assumes "d_begin d = Some err" and "batch s \<noteq> []"
    and "e \<in> set (batch s)" and "e \<notin> set (ch s)" and "row_of e \<notin> set (tbl (db s))"
  shows "batch (flush d s) = [] \<and> ch (flush d s) = ch s \<and> tbl (db (flush d s)) = tbl (db s)
    \<and> row_of e \<notin> holds_rows (worker_run ws (flush d s))"
proof -
  have db: "db (flush d s) = db s"
    using assms(1,2) by (simp add: flush_def insertBatch_def)
  have "holds_rows (worker_run ws t) \<subseteq> holds_rows t" for t :: "'a bwsys_scheme"
  proof (induction ws t rule: worker_run.induct)
    case (2 dw c cs t)
    then show ?case
      using worker_step_holds_rows [of dw c t] by (cases "worker_step dw c t") (auto 4 3)
  qed simp
  moreover have "row_of e \<notin> holds_rows (flush d s)"
    using assms(4,5) by (auto simp: holds_rows_def db)
  ultimately show ?thesis
    by (auto simp: db)
qed

text \<open>
  In every state a writer can reach from its construction, the channel holds at most its
  capacity, a running worker's batch is smaller than a transaction, and a worker that has left
  was stopped and holds nothing back.
\<close>

lemma NewBatchWriter_Some: "NewBatchWriter getenv q m = Some s \<Longrightarrow> s = writer_of getenv q m"
  by (auto simp: NewBatchWriter_def Let_def split: if_splits)

lemma writer_bounded:
  assumes "NewBatchWriter getenv q m = Some s0" and "bw_reach s0 s"
  shows "length (ch s) \<le> chan_cap s \<and> (wpc s = Running \<longrightarrow> length (batch s) < flushSize s)
    \<and> (wpc s = Exited \<longrightarrow> stop_closed s \<and> batch s = [])"
  using bw_inv_reach [OF assms(2)] bw_inv_New NewBatchWriter_Some [OF assms(1)] by (simp add: bw_inv_def)

text \<open>
  The flush interval is positive for every setting up to 9223372036854 milliseconds. The next
  value passes \<^verbatim>\<open>envInt\<close> too, wraps to a negative duration, and the worker's ticker panics.
\<close>

lemma flush_interval_wraps:
  assumes "store_envInt getenv ''FLUSH_INTERVAL_MS'' 10 = n"
  shows "(n \<le> 9223372036854 \<longrightarrow> ticker_ok (flushInterval (writer_of getenv q m)))
    \<and> (n = 9223372036855 \<longrightarrow> run_start (writer_of getenv q m) = None)"
proof -
  have iv: "flushInterval (writer_of getenv q m) = times_unit n millisecond"
    using assms by (simp add: writer_of_def Let_def)
  have "0 < n"
    using store_envInt_range [of 10 getenv "''FLUSH_INTERVAL_MS''"] assms by (simp add: int64_max_def)
  then have "n \<le> 9223372036854 \<Longrightarrow> sint (times_unit n millisecond) = n * 1000000"
    using sint_times_unit [of n 1000000] by (simp add: millisecond_word int64_max_def)
  then show ?thesis
    using \<open>0 < n\<close> by (auto simp: run_start_def ticker_ok_def iv) (simp add: times_unit_def millisecond_def)
qed

text \<open>Sizes that \<^verbatim>\<open>envInt\<close> accepts, but \<^verbatim>\<open>make\<close> does not.\<close>

lemma huge_sizes_panic:
  "store_envInt getenv ''BATCH_CHAN_SIZE'' 4096 = 10 ^ 18 \<Longrightarrow> NewBatchWriter getenv q m = None"
  "store_envInt getenv ''BATCH_SIZE'' 200 = 10 ^ 18 \<Longrightarrow> run_start (writer_of getenv q m) = None"
  by (simp_all add: NewBatchWriter_def run_start_def writer_of_def make_chan_ok_def make_slice_ok_def LogEntry_size_def
      maxAlloc_def Let_def)

end
