(* ===== verification/Dedup.thy ===== *)
theory Dedup
  imports Prelude Env Metrics "HOL-Library.AList"
begin

text \<open>
  \<^verbatim>\<open>dedup/dedup.go\<close>: the idempotency keys that have been applied, each with the time it was
  marked, and the background eviction of old ones.

  The Go map is an association list with distinct keys (\<open>dd_wf\<close>), so that its length and the
  loop over it are computable. The store's mutex covers every access, so each operation is
  one atomic step; the clock reading \<^verbatim>\<open>time.Now()\<close> is an argument.
\<close>

section \<open>State and operations\<close>

record dedup_Store =
  seen :: "(string \<times> instant) list"
  ttl :: duration
  cleanInterval :: duration
  dd_stopped :: bool

definition dedup_New :: "environment \<Rightarrow> dedup_Store" where
  "dedup_New getenv =
     (let ttlMin = dedup_envInt getenv ''DEDUP_TTL_MINUTES'' 10;
          cleanMin = dedup_envInt getenv ''DEDUP_CLEAN_INTERVAL_MINUTES'' 1
      in \<lparr>seen = [], ttl = times_unit ttlMin minute,
          cleanInterval = times_unit cleanMin minute, dd_stopped = False\<rparr>)"

text \<open>The ticker that \<^verbatim>\<open>cleaner\<close> makes first; a panic there ends the process.\<close>

definition cleaner_start :: "dedup_Store \<Rightarrow> dedup_Store option" where
  "cleaner_start s = (if ticker_ok (cleanInterval s) then Some s else None)"

definition IsDuplicate :: "string \<Rightarrow> dedup_Store \<Rightarrow> bool" where
  "IsDuplicate key s = (if key = [] then False else map_of (seen s) key \<noteq> None)"

definition MarkSeen :: "instant \<Rightarrow> string \<Rightarrow> dedup_Store \<Rightarrow> dedup_Store" where
  "MarkSeen now key s = (if key = [] then s else s\<lparr>seen := AList.update key now (seen s)\<rparr>)"

definition dedup_Len :: "dedup_Store \<Rightarrow> nat" where
  "dedup_Len s = length (seen s)"

text \<open>
  \<^verbatim>\<open>evict\<close>: \<^verbatim>\<open>cutoff := time.Now().Add(-s.ttl)\<close>, where the negation is that of \<^verbatim>\<open>int64\<close>; entries
  seen strictly before the cutoff go.
\<close>

definition evict :: "instant \<Rightarrow> dedup_Store \<times> metrics \<Rightarrow> dedup_Store \<times> metrics" where
  "evict now sm =
     (let s = fst sm;
          cutoff = now + sint (- ttl s);
          s' = s\<lparr>seen := filter (\<lambda>p. \<not> snd p < cutoff) (seen s)\<rparr>
      in (s', SetDedupMapSize (length (seen s')) (snd sm)))"

text \<open>\<^verbatim>\<open>Stop\<close> closes a channel; closing it twice panics (\<open>None\<close>).\<close>

definition dedup_Stop :: "dedup_Store \<Rightarrow> dedup_Store option" where
  "dedup_Stop s = (if dd_stopped s then None else Some (s\<lparr>dd_stopped := True\<rparr>))"

text \<open>
  The loop of \<^verbatim>\<open>cleaner\<close> over the cases its \<^verbatim>\<open>select\<close> takes. Leaving the loop is the end of the
  run; a \<^verbatim>\<open>stop\<close> that is not closed yet cannot be taken.
\<close>

datatype cleaner_pick = CTick instant | CStop

fun cleaner :: "cleaner_pick list \<Rightarrow> dedup_Store \<times> metrics \<Rightarrow> dedup_Store \<times> metrics" where
  "cleaner [] sm = sm"
| "cleaner (CTick now # ps) sm = cleaner ps (evict now sm)"
| "cleaner (CStop # ps) sm = (if dd_stopped (fst sm) then sm else cleaner ps sm)"

section \<open>A filter of repeated keys with a retention time\<close>

locale dup_filter =
  fixes wf :: "'s \<Rightarrow> bool"
    and is_dup :: "'k \<Rightarrow> 's \<Rightarrow> bool"
    and mark :: "int \<Rightarrow> 'k \<Rightarrow> 's \<Rightarrow> 's"
    and purge :: "int \<Rightarrow> 's \<Rightarrow> 's"
    and opt_out :: "'k \<Rightarrow> bool"
    and seen_at :: "'s \<Rightarrow> 'k \<rightharpoonup> int"
    and retention :: "'s \<Rightarrow> int"
  assumes is_dup_iff: "is_dup k s \<longleftrightarrow> \<not> opt_out k \<and> seen_at s k \<noteq> None"
    and mark_wf: "wf s \<Longrightarrow> wf (mark t k s)"
    and mark_seen: "seen_at (mark t k s) = (if opt_out k then seen_at s else (seen_at s)(k \<mapsto> t))"
    and mark_retention: "retention (mark t k s) = retention s"
    and purge_wf: "wf s \<Longrightarrow> wf (purge t s)"
    and purge_seen: "wf s \<Longrightarrow> seen_at (purge t s) k =
          (case seen_at s k of Some u \<Rightarrow> if t - retention s \<le> u then Some u else None | None \<Rightarrow> None)"
    and purge_retention: "retention (purge t s) = retention s"
begin

text \<open>Operations in the order they happen: \<open>Inl\<close> marks a key, \<open>Inr\<close> purges.\<close>

fun filter_run :: "(int \<times> 'k + int) list \<Rightarrow> 's \<Rightarrow> 's" where
  "filter_run [] s = s"
| "filter_run (Inl (t, k) # xs) s = filter_run xs (mark t k s)"
| "filter_run (Inr t # xs) s = filter_run xs (purge t s)"

lemma filter_run_inv: "wf s \<Longrightarrow> wf (filter_run xs s) \<and> retention (filter_run xs s) = retention s"
  by (induction xs s rule: filter_run.induct)
    (simp_all add: mark_wf mark_retention purge_wf purge_retention)

text \<open>A marked key stays a duplicate while no purge is later than its mark plus the retention.\<close>

lemma retained:
  assumes "wf s" and "\<not> opt_out k" and "seen_at s k = Some u" and "t0 \<le> u"
    and "\<And>t. Inr t \<in> set xs \<Longrightarrow> t \<le> t0 + retention s"
    and "\<And>t k'. Inl (t, k') \<in> set xs \<Longrightarrow> t0 \<le> t"
  shows "is_dup k (filter_run xs s)"
  using assms
proof (induction xs s arbitrary: u rule: filter_run.induct)
  case (1 s)
  then show ?case by (simp add: is_dup_iff)
next
  case (2 t k' xs s)
  obtain v where "seen_at (mark t k' s) k = Some v" "t0 \<le> v"
    using 2 by (cases "opt_out k' \<or> k \<noteq> k'") (auto simp: mark_seen)
  then have "is_dup k (filter_run xs (mark t k' s))"
    using "2.prems" by (intro "2.IH" [where u = v]) (auto simp: mark_wf mark_retention)
  then show ?case by simp
next
  case (3 t xs s)
  have "t - retention s \<le> u"
    using "3.prems"(4) "3.prems"(5) [of t] by simp
  then have "seen_at (purge t s) k = Some u"
    using 3 by (simp add: purge_seen)
  then have "is_dup k (filter_run xs (purge t s))"
    using "3.prems" by (intro "3.IH" [where u = u]) (auto simp: purge_wf purge_retention)
  then show ?case by simp
qed

lemma forgotten:
  assumes "wf s" and "seen_at s k = Some u" and "u + retention s < t"
  shows "\<not> is_dup k (purge t s)"
  using assms by (simp add: is_dup_iff purge_seen)

lemma mark_dup: "\<not> opt_out k \<Longrightarrow> is_dup k (mark t k s)"
  by (simp add: is_dup_iff mark_seen)

end

section \<open>The store is such a filter\<close>

definition dd_wf :: "dedup_Store \<Rightarrow> bool" where
  "dd_wf s \<longleftrightarrow> distinct (map fst (seen s)) \<and> [] \<notin> fst ` set (seen s)"

definition purge_store :: "instant \<Rightarrow> dedup_Store \<Rightarrow> dedup_Store" where
  "purge_store now s = s\<lparr>seen := filter (\<lambda>p. \<not> snd p < now + sint (- ttl s)) (seen s)\<rparr>"

lemma evict_purge:
  "evict now (s, m) = (purge_store now s, SetDedupMapSize (length (seen (purge_store now s))) m)"
  by (simp add: evict_def purge_store_def Let_def)

lemma map_of_filter_value:
  "distinct (map fst al) \<Longrightarrow>
     map_of (filter (\<lambda>p. P (snd p)) al) k =
       (case map_of al k of Some v \<Rightarrow> if P v then Some v else None | None \<Rightarrow> None)"
proof (induction al)
  case (Cons p al)
  have "map_of al (fst p) = None"
    using Cons.prems by (simp add: map_of_eq_None_iff)
  with Cons show ?case
    by (cases p) (auto split: option.splits)
qed simp

lemma dd_wf_New [simp]: "dd_wf (dedup_New getenv)"
  by (simp add: dd_wf_def dedup_New_def Let_def)

lemma dd_wf_MarkSeen: "dd_wf s \<Longrightarrow> dd_wf (MarkSeen t k s)"
  by (simp add: dd_wf_def MarkSeen_def distinct_update dom_update)

lemma dd_wf_purge: "dd_wf s \<Longrightarrow> dd_wf (purge_store t s)"
  by (auto simp: dd_wf_def purge_store_def distinct_map_filter)

interpretation dd: dup_filter dd_wf IsDuplicate MarkSeen purge_store "\<lambda>k. k = []"
  "\<lambda>s. map_of (seen s)" "\<lambda>s. - sint (- ttl s)"
proof unfold_locales
  fix t k s
  show "map_of (seen (MarkSeen t k s)) = (if k = [] then map_of (seen s) else (map_of (seen s))(k \<mapsto> t))"
    by (simp add: MarkSeen_def update_conv')
next
  fix s t k
  assume "dd_wf s"
  then show "map_of (seen (purge_store t s)) k =
      (case map_of (seen s) k of Some u \<Rightarrow> if t - - sint (- ttl s) \<le> u then Some u else None | None \<Rightarrow> None)"
    using map_of_filter_value [of "seen s" "\<lambda>v. \<not> v < t + sint (- ttl s)" k]
    by (simp add: dd_wf_def purge_store_def not_less cong: option.case_cong)
qed (simp_all add: IsDuplicate_def dd_wf_MarkSeen dd_wf_purge, simp_all add: MarkSeen_def purge_store_def)

text \<open>The retention is the TTL as long as the product of minutes and unit fits.\<close>

lemma retention_of_minutes:
  assumes "0 \<le> n" and "n * 60000000000 \<le> int64_max"
  shows "sint (times_unit n minute) = n * 60000000000"
    and "- sint (- times_unit n minute) = n * 60000000000"
proof -
  show "sint (times_unit n minute) = n * 60000000000"
    using sint_times_unit [of n 60000000000] assms by (simp add: minute_word)
  have "times_unit n minute = word_of_int (n * 60000000000)"
    by (simp add: times_unit_def minute_def)
  then have "- times_unit n minute = word_of_int (- (n * 60000000000))"
    by simp
  then show "- sint (- times_unit n minute) = n * 60000000000"
    using sint_word_of_int_64 [of "- (n * 60000000000)"] assms
    by (simp add: int64_min_def int64_max_def)
qed

section \<open>Properties\<close>

text \<open>Marks and evictions in the order they happen, on the store and the metrics.\<close>

fun dedup_run :: "(instant \<times> string + instant) list \<Rightarrow> dedup_Store \<times> metrics \<Rightarrow> dedup_Store \<times> metrics" where
  "dedup_run [] sm = sm"
| "dedup_run (Inl (now, k) # xs) sm = dedup_run xs (MarkSeen now k (fst sm), snd sm)"
| "dedup_run (Inr now # xs) sm = dedup_run xs (evict now sm)"

lemma fst_evict: "fst (evict now sm) = purge_store now (fst sm)"
  by (cases sm) (simp add: evict_purge)

lemma dedup_run_filter: "fst (dedup_run xs sm) = dd.filter_run xs (fst sm)"
  by (induction xs sm rule: dedup_run.induct) (simp_all add: fst_evict)

text \<open>
  A key that has been marked is a duplicate after any marks and evictions, as long as the clock
  does not go back and no eviction runs later than the retention time after the mark.
\<close>

lemma dedup_retains:
  assumes "dd_wf s" and "k \<noteq> []"
    and "\<And>t. Inr t \<in> set xs \<Longrightarrow> t \<le> now - sint (- ttl s)"
    and "\<And>t k'. Inl (t, k') \<in> set xs \<Longrightarrow> now \<le> t"
  shows "IsDuplicate k (fst (dedup_run xs (MarkSeen now k s, m)))"
proof -
  have "map_of (seen (MarkSeen now k s)) k = Some now"
    using assms(2) by (simp add: dd.mark_seen)
  then have "IsDuplicate k (dd.filter_run xs (MarkSeen now k s))"
    using assms dd.mark_retention [of now k s]
    by (intro dd.retained [where u = now and ?t0.0 = now]) (auto simp: dd.mark_wf)
  then show ?thesis by (simp add: dedup_run_filter)
qed

lemma default_retention: "(\<And>x. getenv x = []) \<Longrightarrow> - sint (- ttl (dedup_New getenv)) = 600000000000"
  using retention_of_minutes(2) [of 10] by (simp add: dedup_New_def envInt_unset int64_max_def)

text \<open>
  One eviction pass removes exactly the keys marked before the cutoff, keeps the rest with their
  marks, and reports the number of keys that stay.
\<close>

lemma evict_exact:
  assumes "dd_wf s"
  shows "(IsDuplicate k (fst (evict now (s, m))) \<longleftrightarrow>
            k \<noteq> [] \<and> (\<exists>t. map_of (seen s) k = Some t \<and> now + sint (- ttl s) \<le> t))
    \<and> dd_wf (fst (evict now (s, m)))
    \<and> dedupMapSize (snd (evict now (s, m))) = of_nat (dedup_Len (fst (evict now (s, m))))"
  using dd.purge_seen [OF assms, of now k] dd.purge_wf [OF assms, of now]
  by (auto simp: evict_purge dd.is_dup_iff dedup_Len_def SetDedupMapSize_def split: option.splits if_splits)

text \<open>
  The retention time is the configured number of minutes up to 153722867, and the product with
  the unit wraps around for the next value, which \<^verbatim>\<open>envInt\<close> accepts as well: a key is then gone
  with the first eviction pass, even one at the very instant of its mark.
\<close>

lemma dedup_ttl_wraps:
  assumes "dedup_envInt getenv ''DEDUP_TTL_MINUTES'' 10 = n"
  shows "(0 \<le> n \<and> n \<le> 153722867 \<longrightarrow> - sint (- ttl (dedup_New getenv)) = n * 60000000000)
    \<and> (n = 153722868 \<longrightarrow> \<not> IsDuplicate k (fst (evict now (MarkSeen now k (dedup_New getenv), m))))"
proof (intro conjI impI)
  assume "0 \<le> n \<and> n \<le> 153722867"
  then show "- sint (- ttl (dedup_New getenv)) = n * 60000000000"
    using retention_of_minutes(2) [of n] assms by (simp add: dedup_New_def int64_max_def Let_def)
next
  assume n: "n = 153722868"
  let ?s = "MarkSeen now k (dedup_New getenv)"
  have "sint (- ttl ?s) = 9223371993709551616"
    using assms n by (simp add: dedup_New_def MarkSeen_def times_unit_def minute_def Let_def)
  then show "\<not> IsDuplicate k (fst (evict now (?s, m)))"
    using evict_exact [of ?s k now m] by (cases "k = []") (auto simp: dd.mark_wf dd.mark_seen)
qed

end
