(* ===== verification/FSM.thy ===== *)
theory FSM
  imports Prelude KV Metrics Sqlite BatchWriter Dedup
begin

text \<open>
  \<^verbatim>\<open>fsm/fsm.go\<close>: the state machine that raft drives with committed entries. Its state extends
  that of the batch writer by the key-value map, the dedup store and the node's name.

  \<^verbatim>\<open>encoding/json\<close> is a parameter: \<open>unm\<close> is \<^verbatim>\<open>json.Unmarshal\<close> into a \<^verbatim>\<open>Command\<close>, \<open>enc\<close> and \<open>dec\<close>
  are the encoder and decoder of the snapshot, \<open>Inl\<close> being their error (the theory \<^verbatim>\<open>Codec\<close> has the
  instances the program uses). The two loops over a
  decoded map take the order of the range as a parameter.
\<close>

section \<open>State and data\<close>

record Command =
  cmd_Op :: string
  cmd_Key :: string
  cmd_Value :: string
  cmd_IdempotencyKey :: string

record ApplyResult =
  ar_Error :: string

record raft_Log =
  log_Index :: uint64
  log_Data :: string

record FSM = bwsys +
  fsm_kv :: KV
  fsm_dedup :: dedup_Store
  fsm_nodeID :: string

definition fsm_New :: "KV \<Rightarrow> dedup_Store \<Rightarrow> bwsys \<Rightarrow> string \<Rightarrow> FSM" where
  "fsm_New kv dd bw nid =
     bwsys.extend bw \<lparr>fsm_kv = kv, fsm_dedup = dd, fsm_nodeID = nid\<rparr>"

text \<open>What the surroundings decide during one call of \<^verbatim>\<open>Apply\<close>.\<close>

record apply_env =
  a_now :: instant
  a_sched :: "(driver \<times> wchoice) list"
  a_driver :: driver

type_synonym unmarshal = "string \<Rightarrow> string + Command"

section \<open>Apply\<close>

definition entry_for :: "uint64 \<Rightarrow> Command \<Rightarrow> LogEntry" where
  "entry_for i cmd =
     \<lparr>le_Index = i, le_IdempotencyKey = cmd_IdempotencyKey cmd,
      le_Key = cmd_Key cmd, le_Value = cmd_Value cmd\<rparr>"

definition Apply :: "unmarshal \<Rightarrow> apply_env \<Rightarrow> raft_Log \<Rightarrow> FSM \<Rightarrow> FSM \<times> ApplyResult" where
  "Apply unm env l f =
     (case unm (log_Data l) of
        Inl err \<Rightarrow> (f, \<lparr>ar_Error = ''decode: '' @ err\<rparr>)
      | Inr cmd \<Rightarrow>
          (if IsDuplicate (cmd_IdempotencyKey cmd) (fsm_dedup f) then
             (f\<lparr>mets := RecordDuplicate (mets f)\<rparr>, \<lparr>ar_Error = []\<rparr>)
           else if cmd_Op cmd = ''put'' then
             let f1 = f\<lparr>fsm_kv := kv_Set (cmd_Key cmd) (cmd_Value cmd) (fsm_kv f)\<rparr>;
                 f2 = Send (a_sched env) (a_driver env) (entry_for (log_Index l) cmd) f1;
                 f3 = f2\<lparr>fsm_dedup := MarkSeen (a_now env) (cmd_IdempotencyKey cmd) (fsm_dedup f2)\<rparr>
             in (f3\<lparr>mets := RecordWrite (mets f3)\<rparr>, \<lparr>ar_Error = []\<rparr>)
           else (f, \<lparr>ar_Error = ''unknown op: '' @ cmd_Op cmd\<rparr>)))"

section \<open>Snapshot, Persist and Restore\<close>

definition snap_entry ::
    "LogEntry \<Rightarrow> (string \<rightharpoonup> string) \<Rightarrow> go_error \<times> (string \<rightharpoonup> string)" where
  "snap_entry e m = (None, m(le_Key e \<mapsto> le_Value e))"

definition Snapshot :: "driver \<Rightarrow> 'a bwsys_scheme \<Rightarrow> string + (string \<rightharpoonup> string)" where
  "Snapshot d f =
     (case Replay d snap_entry (db f) Map.empty of
        (Some err, _) \<Rightarrow> Inl err
      | (None, entries) \<Rightarrow> Inr entries)"

datatype sink = SinkCancelled | SinkClosed string

text \<open>\<^verbatim>\<open>Persist\<close>: \<open>enc\<close> is the encoder writing to the sink, \<open>close_err\<close> the answer of \<^verbatim>\<open>sink.Close\<close>.\<close>

definition Persist ::
    "((string \<rightharpoonup> string) \<Rightarrow> string + string) \<Rightarrow> go_error \<Rightarrow> (string \<rightharpoonup> string) \<Rightarrow> go_error \<times> sink" where
  "Persist enc close_err data =
     (case enc data of
        Inl err \<Rightarrow> (Some err, SinkCancelled)
      | Inr bytes \<Rightarrow> (close_err, SinkClosed bytes))"

type_synonym map_range = "(string \<rightharpoonup> string) \<Rightarrow> (string \<times> string) list"

definition set_all :: "(string \<times> string) list \<Rightarrow> KV \<Rightarrow> KV" where
  "set_all es k = fold (\<lambda>(key, v). kv_Set key v) es k"

definition Restore ::
    "(string \<Rightarrow> string + (string \<rightharpoonup> string)) \<Rightarrow> map_range \<Rightarrow> map_range \<Rightarrow> driver \<Rightarrow> string
       \<Rightarrow> FSM \<Rightarrow> go_error \<times> FSM" where
  "Restore dec range1 range2 d rc f =
     (case dec rc of
        Inl err \<Rightarrow> (Some (''decode snapshot: '' @ err), f)
      | Inr entries \<Rightarrow>
          (case ReplaceAll d (range1 entries) (db f) of
             (Some err, db') \<Rightarrow> (Some (''restore sqlite: '' @ err), f\<lparr>db := db'\<rparr>)
           | (None, db') \<Rightarrow> (None, f\<lparr>db := db', fsm_kv := set_all (range2 entries) (fsm_kv f)\<rparr>)))"

section \<open>The abstract machine\<close>

text \<open>
  What the state machine promises: the set of idempotency keys that have been applied and the
  map. A put takes effect unless its key is in the set; the empty key opts out.
\<close>

type_synonym spec_state = "string set \<times> (string \<rightharpoonup> string)"

definition takes :: "Command \<Rightarrow> string set \<Rightarrow> bool" where
  "takes cmd A \<longleftrightarrow> cmd_Op cmd = ''put'' \<and> (cmd_IdempotencyKey cmd = [] \<or> cmd_IdempotencyKey cmd \<notin> A)"

definition spec_step :: "Command \<Rightarrow> spec_state \<Rightarrow> spec_state" where
  "spec_step cmd s =
     (if takes cmd (fst s) then
        (if cmd_IdempotencyKey cmd = [] then fst s else insert (cmd_IdempotencyKey cmd) (fst s),
         (snd s)(cmd_Key cmd \<mapsto> cmd_Value cmd))
      else s)"

definition spec_log :: "unmarshal \<Rightarrow> raft_Log \<Rightarrow> spec_state \<Rightarrow> spec_state" where
  "spec_log unm l s = (case unm (log_Data l) of Inl _ \<Rightarrow> s | Inr cmd \<Rightarrow> spec_step cmd s)"

definition spec_kv :: "unmarshal \<Rightarrow> raft_Log list \<Rightarrow> string \<rightharpoonup> string" where
  "spec_kv unm ls = snd (fold (spec_log unm) ls ({}, Map.empty))"

text \<open>The commands of a log that take effect, in order: the puts with a key not met before.\<close>

fun first_puts :: "string set \<Rightarrow> Command list \<Rightarrow> Command list" where
  "first_puts A [] = []"
| "first_puts A (c # cs) =
     (if takes c A then c # first_puts (fst (spec_step c (A, Map.empty))) cs else first_puts A cs)"

definition decoded :: "unmarshal \<Rightarrow> raft_Log list \<Rightarrow> Command list" where
  "decoded unm ls = concat (map (\<lambda>l. case unm (log_Data l) of Inl _ \<Rightarrow> [] | Inr c \<Rightarrow> [c]) ls)"

definition cmd_kv :: "Command \<Rightarrow> string \<times> string" where
  "cmd_kv c = (cmd_Key c, cmd_Value c)"

definition abs_fsm :: "FSM \<Rightarrow> spec_state" where
  "abs_fsm f = (dom (map_of (seen (fsm_dedup f))), kv_data (fsm_kv f))"

lemma spec_log_decoded: "fold (spec_log unm) ls s = fold spec_step (decoded unm ls) s"
  by (induction ls arbitrary: s) (auto simp: decoded_def spec_log_def split: sum.splits)

lemma spec_step_fst: "fst (spec_step c (A, m)) = fst (spec_step c (A, m'))"
  by (simp add: spec_step_def)

lemma spec_fold_writes:
  "snd (fold spec_step cs (A, m)) = writes (map cmd_kv (first_puts A cs)) m"
proof (induction cs arbitrary: A m)
  case (Cons c cs)
  show ?case
  proof (cases "takes c A")
    case True
    obtain A' where A': "spec_step c (A, m) = (A', m(cmd_Key c \<mapsto> cmd_Value c))"
      using True by (simp add: spec_step_def)
    then have "fst (spec_step c (A, Map.empty)) = A'"
      using spec_step_fst [of c A m Map.empty] by simp
    then show ?thesis
      using True Cons [of A'] A' by (simp add: cmd_kv_def del: fun_upd_apply)
  next
    case False
    then have "spec_step c (A, m) = (A, m)"
      by (simp add: spec_step_def)
    then show ?thesis using False Cons by simp
  qed
qed simp

lemma spec_fold_fst: "fst (fold spec_step cs (A, m)) = fst (fold spec_step cs (A, m'))"
proof (induction cs arbitrary: A m m')
  case (Cons c cs)
  then show ?case
    by (cases "takes c A") (simp_all add: spec_step_def)
qed simp

lemma first_puts_append:
  "first_puts A (xs @ ys) = first_puts A xs @ first_puts (fst (fold spec_step xs (A, Map.empty))) ys"
proof (induction xs arbitrary: A)
  case (Cons c xs)
  show ?case
  proof (cases "takes c A")
    case True
    let ?s = "spec_step c (A, Map.empty)"
    have "fst (fold spec_step xs ?s) = fst (fold spec_step xs (fst ?s, Map.empty))"
      using spec_fold_fst [of xs "fst ?s" "snd ?s" Map.empty] by simp
    then show ?thesis using True Cons by simp
  next
    case False
    then show ?thesis using Cons by (simp add: spec_step_def)
  qed
qed simp

lemma spec_kv_writes: "spec_kv unm ls = writes (map cmd_kv (first_puts {} (decoded unm ls))) Map.empty"
  by (simp add: spec_kv_def spec_log_decoded spec_fold_writes)

lemma dom_spec_kv: "dom (spec_kv unm ls) = cmd_Key ` set (first_puts {} (decoded unm ls))"
  by (simp add: spec_kv_writes dom_writes image_image cmd_kv_def)

lemma decoded_append: "decoded unm (xs @ ys) = decoded unm xs @ decoded unm ys"
  by (simp add: decoded_def)

lemma dom_spec_kv_append: "dom (spec_kv unm xs) \<subseteq> dom (spec_kv unm (xs @ ys))"
  by (auto simp: dom_spec_kv decoded_append first_puts_append)

section \<open>Apply refines the abstract machine\<close>

lemma fsm_more_eq:
  assumes "bwsys.more s' = bwsys.more (s :: FSM)"
  shows "fsm_kv s' = fsm_kv s" "fsm_dedup s' = fsm_dedup s" "fsm_nodeID s' = fsm_nodeID s"
  using assms by (cases s; cases s'; simp)+

lemma fsm_Send [frame_simps, simp]:
  fixes f :: FSM
  shows "fsm_kv (Send sched d e f) = fsm_kv f"
  "fsm_dedup (Send sched d e f) = fsm_dedup f"
  "fsm_nodeID (Send sched d e f) = fsm_nodeID f"
  using fsm_more_eq [of "Send sched d e f" f] Send_frame [of sched d e f] by auto

lemma fsm_pump [frame_simps, simp]:
  fixes f :: FSM
  shows "fsm_kv (pump_worker w f) = fsm_kv f" "fsm_dedup (pump_worker w f) = fsm_dedup f"
proof -
  have "bwsys.more (pump_worker w f) = bwsys.more f"
    using worker_frame_more [of "fst w" "snd w" f]
    by (auto simp: pump_worker_def split: option.splits)
  then show "fsm_kv (pump_worker w f) = fsm_kv f" "fsm_dedup (pump_worker w f) = fsm_dedup f"
    by (rule fsm_more_eq)+
qed

text \<open>The four ways through \<^verbatim>\<open>Apply\<close>.\<close>

lemma Apply_decode: "unm (log_Data l) = Inl err \<Longrightarrow> Apply unm env l f = (f, \<lparr>ar_Error = ''decode: '' @ err\<rparr>)"
  by (simp add: Apply_def)

lemma Apply_dup:
  "unm (log_Data l) = Inr cmd \<Longrightarrow> IsDuplicate (cmd_IdempotencyKey cmd) (fsm_dedup f) \<Longrightarrow>
     Apply unm env l f = (f\<lparr>mets := RecordDuplicate (mets f)\<rparr>, \<lparr>ar_Error = []\<rparr>)"
  by (simp add: Apply_def)

lemma Apply_unknown:
  "unm (log_Data l) = Inr cmd \<Longrightarrow> \<not> IsDuplicate (cmd_IdempotencyKey cmd) (fsm_dedup f) \<Longrightarrow>
   cmd_Op cmd \<noteq> ''put'' \<Longrightarrow> Apply unm env l f = (f, \<lparr>ar_Error = ''unknown op: '' @ cmd_Op cmd\<rparr>)"
  by (simp add: Apply_def)

definition after_put :: "apply_env \<Rightarrow> uint64 \<Rightarrow> Command \<Rightarrow> FSM \<Rightarrow> FSM" where
  "after_put env i cmd f =
     (let f2 = Send (a_sched env) (a_driver env) (entry_for i cmd)
                 (f\<lparr>fsm_kv := kv_Set (cmd_Key cmd) (cmd_Value cmd) (fsm_kv f)\<rparr>)
      in f2\<lparr>fsm_dedup := MarkSeen (a_now env) (cmd_IdempotencyKey cmd) (fsm_dedup f2),
            mets := RecordWrite (mets f2)\<rparr>)"

lemma Apply_put:
  "unm (log_Data l) = Inr cmd \<Longrightarrow> \<not> IsDuplicate (cmd_IdempotencyKey cmd) (fsm_dedup f) \<Longrightarrow>
   cmd_Op cmd = ''put'' \<Longrightarrow> Apply unm env l f = (after_put env (log_Index l) cmd f, \<lparr>ar_Error = []\<rparr>)"
  by (simp add: Apply_def after_put_def Let_def)

lemma Apply_cases [case_names decode dup unknown put]:
  obtains (decode) err where "unm (log_Data l) = Inl err"
      "Apply unm env l f = (f, \<lparr>ar_Error = ''decode: '' @ err\<rparr>)"
  | (dup) cmd where "unm (log_Data l) = Inr cmd"
      "IsDuplicate (cmd_IdempotencyKey cmd) (fsm_dedup f)"
      "Apply unm env l f = (f\<lparr>mets := RecordDuplicate (mets f)\<rparr>, \<lparr>ar_Error = []\<rparr>)"
  | (unknown) cmd where "unm (log_Data l) = Inr cmd"
      "\<not> IsDuplicate (cmd_IdempotencyKey cmd) (fsm_dedup f)" "cmd_Op cmd \<noteq> ''put''"
      "Apply unm env l f = (f, \<lparr>ar_Error = ''unknown op: '' @ cmd_Op cmd\<rparr>)"
  | (put) cmd where "unm (log_Data l) = Inr cmd"
      "\<not> IsDuplicate (cmd_IdempotencyKey cmd) (fsm_dedup f)" "cmd_Op cmd = ''put''"
      "Apply unm env l f = (after_put env (log_Index l) cmd f, \<lparr>ar_Error = []\<rparr>)"
proof (cases "unm (log_Data l)")
  case (Inl err)
  then show thesis by (intro decode) (simp_all add: Apply_decode)
next
  case (Inr cmd)
  consider "IsDuplicate (cmd_IdempotencyKey cmd) (fsm_dedup f)"
    | "\<not> IsDuplicate (cmd_IdempotencyKey cmd) (fsm_dedup f)" "cmd_Op cmd \<noteq> ''put''"
    | "\<not> IsDuplicate (cmd_IdempotencyKey cmd) (fsm_dedup f)" "cmd_Op cmd = ''put''"
    by blast
  then show thesis
    by cases (rule dup unknown put; simp add: Inr Apply_dup Apply_unknown Apply_put)+
qed

lemma after_put_simps [simp]:
  "fsm_kv (after_put env i cmd f) = kv_Set (cmd_Key cmd) (cmd_Value cmd) (fsm_kv f)"
  "fsm_dedup (after_put env i cmd f) = MarkSeen (a_now env) (cmd_IdempotencyKey cmd) (fsm_dedup f)"
  by (simp_all add: after_put_def Let_def)

text \<open>A key in the store is one the abstract machine has applied, and conversely.\<close>

definition fsm_wf :: "FSM \<Rightarrow> bool" where
  "fsm_wf f \<longleftrightarrow> dd_wf (fsm_dedup f)"

lemma IsDuplicate_abs:
  "fsm_wf f \<Longrightarrow> IsDuplicate k (fsm_dedup f) \<longleftrightarrow> k \<in> fst (abs_fsm f)"
  by (force simp: IsDuplicate_def abs_fsm_def fsm_wf_def dd_wf_def dom_map_of_conv_image_fst
      map_of_eq_None_iff)

lemma abs_after_put:
  assumes "takes cmd (fst (abs_fsm f))"
  shows "abs_fsm (after_put env i cmd f) = spec_step cmd (abs_fsm f)"
  using assms by (auto simp: abs_fsm_def spec_step_def dd.mark_seen)

lemma Apply_wf: "fsm_wf f \<Longrightarrow> fsm_wf (fst (Apply unm env l f))"
  by (cases rule: Apply_cases [of unm l env f]) (simp_all add: fsm_wf_def dd.mark_wf)

lemma Apply_sim:
  assumes "fsm_wf f"
  shows "abs_fsm (fst (Apply unm env l f)) = spec_log unm l (abs_fsm f)"
proof (cases rule: Apply_cases [of unm l env f])
  case (dup cmd)
  have "cmd_IdempotencyKey cmd \<noteq> []"
    using dup(2) by (auto simp: IsDuplicate_def)
  with dup(2) have "\<not> takes cmd (fst (abs_fsm f))"
    using IsDuplicate_abs [OF assms] by (simp add: takes_def)
  with dup show ?thesis
    by (simp add: spec_log_def spec_step_def) (simp add: abs_fsm_def)
next
  case (unknown cmd)
  then show ?thesis by (simp add: spec_log_def spec_step_def takes_def)
next
  case (put cmd)
  then have "takes cmd (fst (abs_fsm f))"
    using IsDuplicate_abs [OF assms] by (auto simp: takes_def)
  with put show ?thesis by (simp add: spec_log_def abs_after_put)
qed (simp add: spec_log_def)

definition apply_step :: "unmarshal \<Rightarrow> apply_env \<times> raft_Log \<Rightarrow> FSM \<Rightarrow> FSM" where
  "apply_step unm el f = fst (Apply unm (fst el) (snd el) f)"

interpretation fsm_sim: simulation fsm_wf "apply_step unm" abs_fsm "\<lambda>el. spec_log unm (snd el)" for unm
  by unfold_locales (simp_all add: apply_step_def Apply_wf Apply_sim)

section \<open>The map and the durable log\<close>

text \<open>
  The in-memory map is what a replay of the settled table would rebuild. This is what makes the
  restart of a node that has flushed safe, and what a snapshot needs.
\<close>

definition coherent :: "FSM \<Rightarrow> bool" where
  "coherent f \<longleftrightarrow> kv_data (fsm_kv f) = replay_map (settled f)"

definition index_above :: "uint64 \<Rightarrow> 'a bwsys_scheme \<Rightarrow> bool" where
  "index_above i f \<longleftrightarrow> (\<forall>r \<in> set (settled f). r_idx r < uint i)"

definition env_healthy :: "apply_env \<Rightarrow> bool" where
  "env_healthy env \<longleftrightarrow> send_env (a_sched env, a_driver env)"

lemma settled_fsm [settle_simps, simp]:
  "settled (f\<lparr>fsm_kv := k\<rparr>) = settled f"
  "settled (f\<lparr>fsm_dedup := s\<rparr>) = settled f"
  "settled ((f :: FSM)\<lparr>mets := m\<rparr>) = settled f"
  by (simp_all add: settled_def)

lemma bw_good_fsm [simp]:
  "bw_good (f\<lparr>fsm_kv := k\<rparr>) = bw_good f"
  "bw_good (f\<lparr>fsm_dedup := s\<rparr>) = bw_good f"
  "bw_good ((f :: FSM)\<lparr>mets := m\<rparr>) = bw_good f"
  by (simp_all add: bw_good_def)

lemma settled_after_put:
  "settled (after_put env i cmd f) =
     settled (Send (a_sched env) (a_driver env) (entry_for i cmd)
       (f\<lparr>fsm_kv := kv_Set (cmd_Key cmd) (cmd_Value cmd) (fsm_kv f)\<rparr>))"
  by (simp add: after_put_def Let_def settled_def)

lemma row_entry_for [simp]:
  "row_of (entry_for i cmd) = \<lparr>r_idx = uint i, r_idem = cmd_IdempotencyKey cmd,
     r_key = cmd_Key cmd, r_value = cmd_Value cmd\<rparr>"
  "le_Index (entry_for i cmd) = i"
  by (simp_all add: entry_for_def row_of_def)

lemma after_put_stored:
  assumes "bw_good f" and "env_healthy env"
    and "stored f (uint i) = None \<or> stored f (uint i) = Some (row_of (entry_for i cmd))"
  shows "bw_good (after_put env i cmd f)
         \<and> stored (after_put env i cmd f) = (stored f)(uint i \<mapsto> row_of (entry_for i cmd))"
proof -
  let ?f1 = "f\<lparr>fsm_kv := kv_Set (cmd_Key cmd) (cmd_Value cmd) (fsm_kv f)\<rparr>"
  have "bw_good (Send (a_sched env) (a_driver env) (entry_for i cmd) ?f1)
        \<and> stored (Send (a_sched env) (a_driver env) (entry_for i cmd) ?f1)
            = (stored ?f1)(uint i \<mapsto> row_of (entry_for i cmd))"
    using Send_stored [of ?f1 "a_sched env" "a_driver env" "entry_for i cmd"] assms
    by (simp add: env_healthy_def stored_def)
  then show ?thesis
    by (simp add: stored_def settled_after_put) (simp add: after_put_def Let_def bw_good_def)
qed

lemma stored_above: "index_above i f \<Longrightarrow> stored f (uint i) = None"
  by (force simp: stored_def tmap_None index_above_def)

lemma replay_map_of_stored:
  assumes "bw_good f" and "bw_good g" and "index_above i f"
    and "stored g = (stored f)(uint i \<mapsto> r)" and "r_idx r = uint i"
  shows "replay_map (settled g) = (replay_map (settled f))(r_key r \<mapsto> r_value r)"
proof -
  have pk: "pk_ok (settled f)" "pk_ok (settled g)"
    using assms(1,2) by (simp_all add: bw_good_def)
  have "tmap (insert_or_ignore r (settled f)) = (tmap (settled f))(uint i \<mapsto> r)"
    using stored_above [OF assms(3)] by (simp add: sql.rows_ins assms(5) stored_def)
  then have "tmap (settled g) = tmap (insert_or_ignore r (settled f))"
    using assms(4) by (simp add: stored_def)
  then have "replay_map (settled g) = replay_map (insert_or_ignore r (settled f))"
    using pk by (intro replay_map_cong) simp_all
  also have "\<dots> = (replay_map (settled f))(r_key r \<mapsto> r_value r)"
    using assms(3,5) by (intro replay_map_insert_max) (auto simp: index_above_def)
  finally show ?thesis .
qed

lemma index_above_stored: "index_above i f \<longleftrightarrow> (\<forall>j \<in> dom (stored f). j < uint i)"
  by (auto simp: index_above_def stored_def dom_tmap)

lemma Apply_coherent:
  assumes "bw_good f" and "env_healthy env" and "coherent f" and "index_above (log_Index l) f"
  shows "bw_good (fst (Apply unm env l f)) \<and> coherent (fst (Apply unm env l f))
         \<and> (\<forall>j. log_Index l < j \<longrightarrow> index_above j (fst (Apply unm env l f)))"
proof -
  have up: "index_above j f" if "log_Index l < j" for j
    using assms(4) that by (force simp: index_above_def word_less_def)
  show ?thesis
  proof (cases rule: Apply_cases [of unm l env f])
    case (dup cmd)
    then show ?thesis
      using assms up by (simp add: coherent_def index_above_def)
  next
    case (put cmd)
    let ?g = "after_put env (log_Index l) cmd f"
    have g: "bw_good ?g" "stored ?g = (stored f)(uint (log_Index l) \<mapsto> row_of (entry_for (log_Index l) cmd))"
      using after_put_stored [OF assms(1,2), of "log_Index l" cmd] stored_above [OF assms(4)]
      by auto
    have "replay_map (settled ?g) = (replay_map (settled f))(cmd_Key cmd \<mapsto> cmd_Value cmd)"
      using replay_map_of_stored [OF assms(1) g(1) assms(4) g(2)] by simp
    moreover have "index_above j ?g" if "log_Index l < j" for j
      using up [OF that] that by (auto simp: index_above_stored g(2) word_less_def)
    ultimately show ?thesis
      using put g(1) assms(3) by (simp add: coherent_def)
  qed (use assms up in simp_all)
qed

section \<open>Snapshots\<close>

lemma replay_rows_snap:
  "replay_rows d snap_entry i rs m = (None, m') \<Longrightarrow> m' = writes (map row_kv rs) m"
  by (induction rs arbitrary: i m) (auto simp: snap_entry_def row_kv_def split: if_splits option.splits)

lemma replay_rows_snap_ok:
  "replay_rows no_fault snap_entry i rs m = (None, writes (map row_kv rs) m)"
  by (induction rs arbitrary: i m) (simp_all add: snap_entry_def row_kv_def del: fun_upd_apply)

lemma Snapshot_Inr: "Snapshot d f = Inr m \<Longrightarrow> m = replay_map (tbl (db f))"
  using replay_rows_snap
  by (fastforce simp: Snapshot_def Replay_def replay_map_def split: if_splits option.splits prod.splits)

lemma Snapshot_no_fault: "db_open (db f) \<Longrightarrow> Snapshot no_fault f = Inr (replay_map (tbl (db f)))"
  by (simp add: Snapshot_def Replay_def replay_rows_snap_ok replay_map_def)

lemma set_all_put_all: "set_all es k = kvs.put_all es k"
  by (simp add: set_all_def kvs.put_all_def)

lemma kv_data_set_all: "kv_data (set_all es k) = writes es (kv_data k)"
  by (simp add: set_all_put_all kv_data_put_all)

lemma Restore_Inr:
  assumes "dec rc = Inr m" and "enumerates (r1 m) m" and "enumerates (r2 m) m"
  shows "(case Restore dec r1 r2 d rc f of
            (None, g) \<Rightarrow> kv_data (fsm_kv g) = kv_data (fsm_kv f) ++ m
                         \<and> tbl (db g) = snap_rows 0 (r1 m) \<and> replay_map (tbl (db g)) = m
          | (Some err, g) \<Rightarrow> g = f)"
proof -
  obtain err db' where R: "ReplaceAll d (r1 m) (db f) = (err, db')"
    by (cases "ReplaceAll d (r1 m) (db f)")
  then show ?thesis
    using ReplaceAll_result [OF R] writes_enumerates [OF assms(3), of "kv_data (fsm_kv f)"]
      writes_enumerates [OF assms(2), of Map.empty]
    by (auto simp: Restore_def assms(1) kv_data_set_all replay_map_snap_rows split: option.splits)
qed

section \<open>Properties\<close>

text \<open>
  A state machine over the writer of two slots, and a decoder that knows two commands, for the
  instances below.
\<close>

definition ex_fsm :: FSM where
  "ex_fsm = fsm_New NewKV \<lparr>seen = [], ttl = 10, cleanInterval = 10, dd_stopped = False\<rparr> ex_writer ''node1''"

definition ex_decode :: unmarshal where
  "ex_decode s =
     (if s = ''p'' then Inr \<lparr>cmd_Op = ''put'', cmd_Key = ''k'', cmd_Value = ''v'', cmd_IdempotencyKey = ''a''\<rparr>
      else if s = ''d'' then Inr \<lparr>cmd_Op = ''del'', cmd_Key = ''k'', cmd_Value = [], cmd_IdempotencyKey = ''b''\<rparr>
      else Inl ''unexpected end of JSON input'')"

definition ex_env :: apply_env where
  "ex_env = \<lparr>a_now = 7, a_sched = [], a_driver = no_fault\<rparr>"

lemma ex_fsm_simps [simp]:
  "fsm_dedup ex_fsm = \<lparr>seen = [], ttl = 10, cleanInterval = 10, dd_stopped = False\<rparr>"
  "fsm_kv ex_fsm = NewKV" "ch ex_fsm = []" "chan_cap ex_fsm = 1" "batch ex_fsm = []"
  "db ex_fsm = \<lparr>tbl = [], db_open = True\<rparr>" "fsm_wf ex_fsm"
  by (simp_all add: ex_fsm_def fsm_New_def bwsys.defs ex_writer_def fsm_wf_def dd_wf_def)

text \<open>
  C18: Applying a log refines the abstract machine. For every state with a well-formed dedup
  store and every sequence of entries, each applied at its own time, with its own scheduling of
  the worker and its own database faults, the set of marked keys and the map are those of the
  abstract machine, in which a put takes effect when its key has not been applied before.
\<close>

theorem apply_log_refines:
  assumes "fsm_wf f"
  shows "abs_fsm (fold (apply_step unm) els f) = fold (\<lambda>el. spec_log unm (snd el)) els (abs_fsm f)"
  using fsm_sim.sim_run [OF assms] by simp

theorem apply_log_refines_witness:
  "snd (abs_fsm (fold (apply_step ex_decode)
      [(ex_env, \<lparr>log_Index = 1, log_Data = ''p''\<rparr>), (ex_env, \<lparr>log_Index = 2, log_Data = ''p''\<rparr>)] ex_fsm))
   = [''k'' \<mapsto> ''v'']"
  using apply_log_refines [of ex_fsm ex_decode
      "[(ex_env, \<lparr>log_Index = 1, log_Data = ''p''\<rparr>), (ex_env, \<lparr>log_Index = 2, log_Data = ''p''\<rparr>)]"]
  by (simp add: spec_log_def ex_decode_def spec_step_def takes_def abs_fsm_def NewKV_def)

text \<open>
  \<^verbatim>\<open>Apply\<close> reports an error exactly when the entry does not decode, or is not a duplicate and
  names another operation than put; it then leaves the whole state machine as it was.
\<close>

lemma apply_error_iff:
  "(ar_Error (snd (Apply unm env l f)) \<noteq> [] \<longleftrightarrow>
      (case unm (log_Data l) of
         Inl err \<Rightarrow> True
       | Inr c \<Rightarrow> \<not> IsDuplicate (cmd_IdempotencyKey c) (fsm_dedup f) \<and> cmd_Op c \<noteq> ''put''))
   \<and> (ar_Error (snd (Apply unm env l f)) \<noteq> [] \<longrightarrow> fst (Apply unm env l f) = f)"
  by (cases rule: Apply_cases [of unm l env f]) simp_all

text \<open>
  A retry is a no-op. Once a put with an idempotency key has gone through \<^verbatim>\<open>Apply\<close>, applying
  any entry with the same key, whatever its operation, key and value, succeeds and changes
  nothing but the counter of duplicates.
\<close>

lemma retry_is_noop:
  assumes "unm (log_Data l1) = Inr c1" and "cmd_Op c1 = ''put''" and "cmd_IdempotencyKey c1 \<noteq> []"
    and "unm (log_Data l2) = Inr c2" and "cmd_IdempotencyKey c2 = cmd_IdempotencyKey c1"
    and "g = fst (Apply unm env1 l1 f)"
  shows "Apply unm env2 l2 g = (g\<lparr>mets := RecordDuplicate (mets g)\<rparr>, \<lparr>ar_Error = []\<rparr>)"
proof -
  have "IsDuplicate (cmd_IdempotencyKey c1) (fsm_dedup g)"
    using assms(6)
    by (cases rule: Apply_cases [of unm l1 env1 f]) (use assms(1-3) in \<open>auto intro: dd.mark_dup\<close>)
  then show ?thesis
    by (simp add: Apply_dup assms(4,5))
qed

text \<open>
  A snapshot travels. What \<^verbatim>\<open>Snapshot\<close> reads from one node and \<^verbatim>\<open>Persist\<close> writes to the sink,
  \<^verbatim>\<open>Restore\<close> installs on a node with an empty map: both its map and a replay of its new table
  are what a replay of the first node's table gives, provided the decoder reads back what the
  encoder wrote. The synthetic indices of the table stay below the number of keys.
\<close>

lemma snapshot_transfer:
  assumes "Snapshot d f = Inr m" and "Persist enc close_err m = (None, SinkClosed bytes)"
    and "\<And>m b. enc m = Inr b \<Longrightarrow> dec b = Inr m"
    and "enumerates (r1 m) m" and "enumerates (r2 m) m"
    and "kv_data (fsm_kv g) = Map.empty" and "Restore dec r1 r2 d' bytes g = (None, g')"
  shows "kv_data (fsm_kv g') = replay_map (tbl (db f)) \<and> replay_map (tbl (db g')) = replay_map (tbl (db f))
    \<and> (\<forall>r \<in> set (tbl (db g')). r_idx r < int (card (dom m)))"
proof -
  have "dec bytes = Inr m"
    using assms(2) by (auto simp: Persist_def intro: assms(3) split: sum.splits)
  note dec = this
  have g': "kv_data (fsm_kv g') = m \<and> tbl (db g') = snap_rows 0 (r1 m) \<and> replay_map (tbl (db g')) = m"
    using Restore_Inr [where dec = dec and rc = bytes and m = m and ?r1.0 = r1 and ?r2.0 = r2
        and f = g and d = d', OF dec assms(4,5)]
    unfolding assms(6,7) prod.case option.case empty_map_add .
  have "\<forall>r \<in> set (tbl (db g')). r_idx r < int (card (dom m))"
    using g' snap_rows_idx_bound [of _ "r1 m"] enumerates_card [OF assms(4)] by simp
  then show ?thesis
    using g' Snapshot_Inr [OF assms(1)] by metis
qed

text \<open>A codec for maps that hold at most the key \<^verbatim>\<open>k\<close>.\<close>

definition ex_enc :: "(string \<rightharpoonup> string) \<Rightarrow> string + string" where
  "ex_enc m = (if m = Map.empty then Inr [] else if m = [''k'' \<mapsto> the (m ''k'')] then Inr (CHR ''='' # the (m ''k''))
     else Inl ''unsupported'')"

definition ex_unenc :: "string \<Rightarrow> string + (string \<rightharpoonup> string)" where
  "ex_unenc b = (if b = [] then Inr Map.empty else Inr [''k'' \<mapsto> tl b])"

definition ex_enum :: map_range where
  "ex_enum m = (if m = Map.empty then [] else [(''k'', the (m ''k''))])"

lemma ex_codec: "ex_enc m = Inr b \<Longrightarrow> ex_unenc b = Inr m"
  by (auto simp: ex_enc_def ex_unenc_def split: if_splits)

definition ex_full :: FSM where
  "ex_full = ex_fsm\<lparr>db := \<lparr>tbl = [\<lparr>r_idx = 5, r_idem = ''a'', r_key = ''k'', r_value = ''v''\<rparr>], db_open = True\<rparr>\<rparr>"

end
