(* ===== verification/Node.thy ===== *)
theory Node
  imports Prelude FSM
begin

text \<open>
  One node of the cluster over time: the start-up of \<^verbatim>\<open>main.go\<close>, and the interleaving of what
  then runs concurrently on the state machine: raft's calls of \<^verbatim>\<open>Apply\<close>, the batch worker and
  the dedup cleaner. A run is the list of these steps in the order in which they happen.
\<close>

section \<open>Start-up\<close>

datatype boot = Panicked | Fatal string | Up FSM

text \<open>
  \<^verbatim>\<open>main\<close>, from opening the database to the state machine. The table is the one found on disk.
\<close>

definition boot_state :: "environment \<Rightarrow> driver \<Rightarrow> row list option \<Rightarrow> string \<Rightarrow> boot" where
  "boot_state getenv d disk nid =
     (case NewSQLiteLog d disk of
        Inl err \<Rightarrow> Fatal (''open sqlite: '' @ err)
      | Inr sqliteLog \<Rightarrow>
          (case NewBatchWriter getenv sqliteLog init_metrics of
             None \<Rightarrow> Panicked
           | Some bw \<Rightarrow>
               (case Replay d set_entry sqliteLog NewKV of
                  (Some err, _) \<Rightarrow> Fatal (''replay sqlite: '' @ err)
                | (None, kv) \<Rightarrow> Up (fsm_New kv (dedup_New getenv) bw nid))))"

text \<open>
  The batch writer's worker and the dedup cleaner are started on the way. A node is up when the first
  statements of both are possible. When they are not, the process panics at the moment the
  goroutine is scheduled, during the rest of \<^verbatim>\<open>main\<close> or after it; nothing is said about a node until then.
\<close>

definition goroutines_ok :: "FSM \<Rightarrow> bool" where
  "goroutines_ok f \<longleftrightarrow> run_start f \<noteq> None \<and> cleaner_start (fsm_dedup f) \<noteq> None"

definition startup :: "environment \<Rightarrow> driver \<Rightarrow> row list option \<Rightarrow> string \<Rightarrow> boot" where
  "startup getenv d disk nid =
     (case boot_state getenv d disk nid of
        Up f \<Rightarrow> if goroutines_ok f then Up f else Panicked
      | r \<Rightarrow> r)"

lemma startup_Up_iff: "startup getenv d disk nid = Up f \<longleftrightarrow> boot_state getenv d disk nid = Up f \<and> goroutines_ok f"
  by (auto simp: startup_def split: boot.split)

lemma boot_state_Up:
  assumes "boot_state getenv d disk nid = Up f"
  obtains q kv where "NewSQLiteLog d disk = Inr q" "Replay d set_entry q NewKV = (None, kv)"
    "NewBatchWriter getenv q init_metrics = Some (writer_of getenv q init_metrics)"
    "f = fsm_New kv (dedup_New getenv) (writer_of getenv q init_metrics) nid"
  using assms
  by (auto simp: boot_state_def dest: NewBatchWriter_Some split: sum.splits option.splits prod.splits)

section \<open>Steps of a node\<close>

datatype node_event =
    NApply raft_Log apply_env
  | NWork driver wchoice
  | NEvict instant

fun node_step :: "unmarshal \<Rightarrow> node_event \<Rightarrow> FSM \<Rightarrow> FSM" where
  "node_step unm (NApply l env) f = fst (Apply unm env l f)"
| "node_step unm (NWork d c) f = pump_worker (d, c) f"
| "node_step unm (NEvict now) f =
     (let sm = evict now (fsm_dedup f, mets f) in f\<lparr>fsm_dedup := fst sm, mets := snd sm\<rparr>)"

definition node_run :: "unmarshal \<Rightarrow> node_event list \<Rightarrow> FSM \<Rightarrow> FSM" where
  "node_run unm evs f = fold (node_step unm) evs f"

text \<open>The entries raft has delivered, and the instants read from the clock, in order.\<close>

fun applied :: "node_event list \<Rightarrow> raft_Log list" where
  "applied [] = []"
| "applied (NApply l env # evs) = l # applied evs"
| "applied (_ # evs) = applied evs"

fun event_times :: "node_event list \<Rightarrow> instant list" where
  "event_times [] = []"
| "event_times (NApply l env # evs) = a_now env # event_times evs"
| "event_times (NEvict now # evs) = now # event_times evs"
| "event_times (NWork d c # evs) = event_times evs"

text \<open>When a given idempotency key is applied in a run.\<close>

fun times_of :: "unmarshal \<Rightarrow> string \<Rightarrow> node_event list \<Rightarrow> instant list" where
  "times_of unm k [] = []"
| "times_of unm k (NApply l env # evs) =
     (case unm (log_Data l) of
        Inr c \<Rightarrow> if cmd_IdempotencyKey c = k then a_now env # times_of unm k evs else times_of unm k evs
      | Inl _ \<Rightarrow> times_of unm k evs)"
| "times_of unm k (_ # evs) = times_of unm k evs"

text \<open>
  The assumption the comment of \<^verbatim>\<open>dedup.go\<close> makes about clients: a key comes again within the
  retention time of its application, or not at all.
\<close>

fun retry_within :: "unmarshal \<Rightarrow> int \<Rightarrow> node_event list \<Rightarrow> bool" where
  "retry_within unm w [] = True"
| "retry_within unm w (NApply l env # evs) =
     ((case unm (log_Data l) of
         Inl _ \<Rightarrow> True
       | Inr c \<Rightarrow> cmd_IdempotencyKey c = []
                  \<or> list_all (\<lambda>t. t \<le> a_now env + w) (times_of unm (cmd_IdempotencyKey c) evs))
      \<and> retry_within unm w evs)"
| "retry_within unm w (_ # evs) = retry_within unm w evs"

definition retention :: "dedup_Store \<Rightarrow> int" where
  "retention s = - sint (- ttl s)"

lemma node_run_simps [simp]:
  "node_run unm [] f = f"
  "node_run unm (ev # evs) f = node_run unm evs (node_step unm ev f)"
  "node_run unm (evs @ evs') f = node_run unm evs' (node_run unm evs f)"
  by (simp_all add: node_run_def)

lemma applied_append [simp]: "applied (xs @ ys) = applied xs @ applied ys"
  by (induction xs rule: applied.induct) simp_all

lemma event_times_append: "event_times (xs @ ys) = event_times xs @ event_times ys"
  by (induction xs rule: event_times.induct) simp_all

lemma times_of_append: "times_of unm k (xs @ ys) = times_of unm k xs @ times_of unm k ys"
  by (induction unm k xs rule: times_of.induct) (simp_all split: sum.split)

lemma retry_within_prefix: "retry_within unm w (xs @ ys) \<Longrightarrow> retry_within unm w xs"
  by (induction unm w xs rule: retry_within.induct) (auto simp: times_of_append split: sum.splits)

lemma times_of_event_times: "t \<in> set (times_of unm k evs) \<Longrightarrow> t \<in> set (event_times evs)"
  by (induction unm k evs rule: times_of.induct)
    (auto split: sum.splits if_splits elim: event_times.elims)

lemma node_step_evict:
  "fsm_dedup (node_step unm (NEvict now) f) = purge_store now (fsm_dedup f)"
  "fsm_kv (node_step unm (NEvict now) f) = fsm_kv f"
  "settled (node_step unm (NEvict now) f) = settled f"
  "holds_rows (node_step unm (NEvict now) f) = holds_rows f"
  "bw_good (node_step unm (NEvict now) f) = bw_good f"
  by (simp_all add: evict_purge Let_def holds_rows_def bw_good_def settled_def)

lemma holds_rows_Send: "holds_rows (Send sched d e s) \<subseteq> insert (row_of e) (holds_rows s)"
proof (rule Send_induct [where P = "\<lambda>u. holds_rows u \<subseteq> holds_rows s"])
  fix u :: "'a bwsys_scheme" assume "holds_rows u \<subseteq> holds_rows s"
  then show "holds_rows (enqueue e u) \<subseteq> insert (row_of e) (holds_rows s)"
    by (auto simp: holds_rows_def enqueue_def)
next
  fix u :: "'a bwsys_scheme" assume "holds_rows u \<subseteq> holds_rows s"
  then show "holds_rows (sync_write d e u) \<subseteq> insert (row_of e) (holds_rows s)"
    using insertOne_result [of d e "db u"] set_insert_or_ignore [of "row_of e" "tbl (db u)"]
    by (cases "insertOne d e (db u)"; cases "fst (insertOne d e (db u))")
      (auto simp: holds_rows_def sync_write_def)
next
  fix u u' :: "'a bwsys_scheme" and dw c
  assume "holds_rows u \<subseteq> holds_rows s" "worker_step dw c u = Some u'"
  then show "holds_rows u' \<subseteq> holds_rows s"
    using worker_step_holds_rows by blast
qed simp

lemma holds_rows_pump: "holds_rows (pump_worker w f) \<subseteq> holds_rows f"
  using worker_step_holds_rows [of "fst w" "snd w" f]
  by (cases "worker_step (fst w) (snd w) f") (simp_all add: pump_worker_def)

lemma holds_rows_after_put:
  "holds_rows (after_put env i cmd f) \<subseteq> insert (row_of (entry_for i cmd)) (holds_rows f)"
  using holds_rows_Send [of "a_sched env" "a_driver env" "entry_for i cmd"
      "f\<lparr>fsm_kv := kv_Set (cmd_Key cmd) (cmd_Value cmd) (fsm_kv f)\<rparr>"]
  by (simp add: after_put_def Let_def holds_rows_def)

section \<open>Exactly once, with eviction and time\<close>

text \<open>
  The set \<open>A\<close> of keys the abstract machine has applied is followed by the store: it never holds
  a key outside \<open>A\<close>, and it holds each key of \<open>A\<close> that will come again, marked recently enough.
\<close>

definition tracks :: "unmarshal \<Rightarrow> node_event list \<Rightarrow> FSM \<Rightarrow> string set \<Rightarrow> bool" where
  "tracks unm evs f A \<longleftrightarrow>
     dom (map_of (seen (fsm_dedup f))) \<subseteq> A
     \<and> (\<forall>k \<in> A. k \<noteq> [] \<longrightarrow> (\<forall>t \<in> set (times_of unm k evs).
          \<exists>u. map_of (seen (fsm_dedup f)) k = Some u \<and> t \<le> u + retention (fsm_dedup f)))"

lemma tracks_empty: "seen (fsm_dedup f) = [] \<Longrightarrow> tracks unm evs f {}"
  by (simp add: tracks_def)

lemma tracksD:
  assumes "tracks unm evs f A" and "k \<in> A" and "k \<noteq> []" and "t \<in> set (times_of unm k evs)"
  obtains u where "map_of (seen (fsm_dedup f)) k = Some u" "t \<le> u + retention (fsm_dedup f)"
  using assms unfolding tracks_def by blast

lemma tracks_skip:
  assumes "tracks unm (ev # evs) f A" and "fsm_dedup g = fsm_dedup f"
  shows "tracks unm evs g A"
proof -
  have "set (times_of unm k evs) \<subseteq> set (times_of unm k (ev # evs))" for k
    by (cases ev) (auto split: sum.splits)
  then show ?thesis
    using assms unfolding tracks_def by (metis subsetD)
qed

lemma tracks_evict:
  assumes "tracks unm (NEvict now # evs) f A" and "fsm_wf f" and "sorted (event_times (NEvict now # evs))"
  shows "tracks unm evs (node_step unm (NEvict now) f) A"
proof -
  let ?s = "fsm_dedup f"
  have wf: "dd_wf ?s" using assms(2) by (simp add: fsm_wf_def)
  have seen': "map_of (seen (purge_store now ?s)) k =
      (case map_of (seen ?s) k of Some u \<Rightarrow> if now - retention ?s \<le> u then Some u else None | None \<Rightarrow> None)" for k
    unfolding retention_def by (rule dd.purge_seen [OF wf])
  have ret: "retention (purge_store now ?s) = retention ?s"
    using dd.purge_retention [of now ?s] by (simp add: retention_def)
  have "\<exists>u. map_of (seen (purge_store now ?s)) k = Some u \<and> t \<le> u + retention ?s"
    if k: "k \<in> A" "k \<noteq> []" and t: "t \<in> set (times_of unm k evs)" for k t
  proof -
    obtain u where u: "map_of (seen ?s) k = Some u" "t \<le> u + retention ?s"
      using tracksD [OF assms(1) k] t by auto
    have "now \<le> t"
      using assms(3) times_of_event_times [OF t] by simp
    then show ?thesis using u by (simp add: seen')
  qed
  moreover have "dom (map_of (seen (purge_store now ?s))) \<subseteq> dom (map_of (seen ?s))"
    by (auto simp: seen' domIff split: option.splits if_splits)
  moreover have "dom (map_of (seen ?s)) \<subseteq> A"
    using assms(1) by (simp add: tracks_def)
  ultimately show ?thesis
    unfolding tracks_def node_step_evict ret by blast
qed

text \<open>A put the store lets through is one the abstract machine takes.\<close>

lemma tracks_put:
  assumes tr: "tracks unm (NApply l env # evs) f A" and "fsm_wf f"
    and dec: "unm (log_Data l) = Inr c" and nd: "\<not> IsDuplicate (cmd_IdempotencyKey c) (fsm_dedup f)"
    and op: "cmd_Op c = ''put''" and rw: "retry_within unm (retention (fsm_dedup f)) (NApply l env # evs)"
  shows "takes c A"
    and "tracks unm evs (after_put env (log_Index l) c f) (fst (spec_step c (A, m)))"
proof -
  let ?k = "cmd_IdempotencyKey c" and ?s = "fsm_dedup f"
  show tk: "takes c A"
  proof (rule ccontr)
    assume "\<not> takes c A"
    then have k: "?k \<in> A" "?k \<noteq> []"
      using op by (auto simp: takes_def)
    obtain u where "map_of (seen ?s) ?k = Some u"
      using tracksD [OF tr k, of "a_now env"] dec by auto
    then show False
      using nd k by (simp add: IsDuplicate_def)
  qed
  have A': "fst (spec_step c (A, m)) = (if ?k = [] then A else insert ?k A)"
    using tk by (simp add: spec_step_def)
  have ret: "retention (MarkSeen t k ?s) = retention ?s" for t k
    using dd.mark_retention [of t k ?s] by (simp add: retention_def)
  have sub: "set (times_of unm k evs) \<subseteq> set (times_of unm k (NApply l env # evs))" for k
    by (auto split: sum.splits)
  show "tracks unm evs (after_put env (log_Index l) c f) (fst (spec_step c (A, m)))"
    unfolding tracks_def after_put_simps A' dd.mark_seen ret
  proof (intro conjI ballI impI)
    show "dom (if ?k = [] then map_of (seen ?s) else (map_of (seen ?s))(?k \<mapsto> a_now env))
            \<subseteq> (if ?k = [] then A else insert ?k A)"
      using tr by (auto simp: tracks_def)
  next
    fix k t
    assume k: "k \<in> (if ?k = [] then A else insert ?k A)" "k \<noteq> []"
      and t: "t \<in> set (times_of unm k evs)"
    show "\<exists>u. (if ?k = [] then map_of (seen ?s) else (map_of (seen ?s))(?k \<mapsto> a_now env)) k = Some u
              \<and> t \<le> u + retention ?s"
    proof (cases "k = ?k")
      case True
      then show ?thesis
        using rw dec k(2) t by (auto simp: list_all_iff)
    next
      case False
      then have "k \<in> A" using k(1) by (simp split: if_splits)
      then obtain u where "map_of (seen ?s) k = Some u" "t \<le> u + retention ?s"
        using tracksD [OF tr _ k(2) subsetD [OF sub t]] by blast
      then show ?thesis using False by simp
    qed
  qed
qed

text \<open>What one event does to the store's invariant and its retention time.\<close>

lemma node_step_wf:
  assumes "fsm_wf f"
  shows "fsm_wf (node_step unm ev f)"
    and "retention (fsm_dedup (node_step unm ev f)) = retention (fsm_dedup f)"
proof -
  have "fsm_wf (node_step unm ev f)
        \<and> retention (fsm_dedup (node_step unm ev f)) = retention (fsm_dedup f)"
  proof (cases ev)
    case (NApply l env)
    then show ?thesis
      using assms dd.mark_retention
      by (cases rule: Apply_cases [of unm l env f]) (simp_all add: Apply_wf fsm_wf_def dd.mark_wf retention_def)
  next
    case (NEvict now)
    then show ?thesis
      using assms dd.purge_wf dd.purge_retention
      by (simp add: node_step_evict fsm_wf_def retention_def del: node_step.simps)
  qed (simp add: assms fsm_wf_def [symmetric], use assms in \<open>simp add: fsm_wf_def\<close>)
  then show "fsm_wf (node_step unm ev f)"
    and "retention (fsm_dedup (node_step unm ev f)) = retention (fsm_dedup f)"
    by simp_all
qed

lemma holds_rows_mets [simp]: "holds_rows ((f :: FSM)\<lparr>mets := m\<rparr>) = holds_rows f"
  by (simp add: holds_rows_def)

text \<open>One event: the puts it brings for the first time are what it writes.\<close>

lemma node_step_tracks:
  fixes unm ev
  defines "fresh A \<equiv> first_puts A (decoded unm (applied [ev]))"
  assumes "fsm_wf f" and "tracks unm (ev # evs) f A" and "sorted (event_times (ev # evs))"
    and "retry_within unm (retention (fsm_dedup f)) (ev # evs)"
  obtains B where "B = fst (fold spec_step (decoded unm (applied [ev])) (A, Map.empty))" "tracks unm evs (node_step unm ev f) B"
    "kv_data (fsm_kv (node_step unm ev f)) = writes (map cmd_kv (fresh A)) (kv_data (fsm_kv f))"
    "r_key ` holds_rows (node_step unm ev f) \<subseteq> r_key ` holds_rows f \<union> cmd_Key ` set (fresh A)"
    "first_puts A (decoded unm (applied (ev # evs))) = fresh A @ first_puts B (decoded unm (applied evs))"
proof -
  let ?g = "node_step unm ev f"
  note step = that
  have split: "first_puts A (decoded unm (applied (ev # evs))) =
      fresh A @ first_puts (fst (fold spec_step (decoded unm (applied [ev])) (A, Map.empty))) (decoded unm (applied evs))"
    using applied_append [of "[ev]" evs] by (simp add: fresh_def decoded_append first_puts_append)
  have skip: thesis if "fsm_kv ?g = fsm_kv f" "tracks unm evs ?g A" "holds_rows ?g \<subseteq> holds_rows f"
      and none: "fresh A = []" "fst (fold spec_step (decoded unm (applied [ev])) (A, Map.empty)) = A"
    using that(1-3) split by (intro step [of A]) (auto simp: none)
  have same: "tracks unm evs ?g A" if "fsm_dedup ?g = fsm_dedup f"
    using tracks_skip [OF assms(3) that] .
  show thesis
  proof (cases ev)
    case (NWork d c)
    then show thesis
      using holds_rows_pump [of "(d, c)" f] by (intro skip same) (simp_all add: fresh_def decoded_def)
  next
    case (NEvict now)
    then show thesis
      using assms(2-) tracks_evict [of unm now evs f A]
      by (intro skip) (simp_all add: node_step_evict fresh_def decoded_def del: node_step.simps)
  next
    case (NApply l env)
    show thesis
    proof (cases rule: Apply_cases [of unm l env f])
      case (decode err)
      then show thesis
        using NApply by (intro skip same) (simp_all add: fresh_def decoded_def)
    next
      case (dup c)
      have "cmd_IdempotencyKey c \<noteq> []" "cmd_IdempotencyKey c \<in> dom (map_of (seen (fsm_dedup f)))"
        using dup(2) by (auto simp: IsDuplicate_def split: if_splits)
      then have "\<not> takes c A"
        using assms(3) by (auto simp: takes_def tracks_def)
      with dup show thesis
        using NApply by (intro skip same) (simp_all add: fresh_def decoded_def spec_step_def)
    next
      case (unknown c)
      then have "\<not> takes c A"
        by (simp add: takes_def)
      with unknown show thesis
        using NApply by (intro skip same) (simp_all add: fresh_def decoded_def spec_step_def)
    next
      case (put c)
      have g: "?g = after_put env (log_Index l) c f"
        using put NApply by simp
      have tk: "takes c A" and tr: "tracks unm evs ?g (fst (spec_step c (A, Map.empty)))"
        using tracks_put [of unm l env evs f A c] put(1,2,3) assms(2-) NApply g by simp_all
      have one: "fresh A = [c]" "decoded unm (applied [ev]) = [c]"
        using tk put(1) NApply by (simp_all add: fresh_def decoded_def)
      show thesis
      proof (rule step [OF _ tr])
        show "fst (spec_step c (A, Map.empty)) = fst (fold spec_step (decoded unm (applied [ev])) (A, Map.empty))"
          by (simp add: one(2))
        show "kv_data (fsm_kv ?g) = writes (map cmd_kv (fresh A)) (kv_data (fsm_kv f))"
          by (simp add: g one(1) cmd_kv_def del: fun_upd_apply)
        show "r_key ` holds_rows ?g \<subseteq> r_key ` holds_rows f \<union> cmd_Key ` set (fresh A)"
          using holds_rows_after_put [of env "log_Index l" c f] unfolding g one(1) by auto
        show "first_puts A (decoded unm (applied (ev # evs))) =
            fresh A @ first_puts (fst (spec_step c (A, Map.empty))) (decoded unm (applied evs))"
          using split by (simp add: one(2))
      qed
    qed
  qed
qed

text \<open>So the store follows the abstract machine over a run, whose last event may be still to come.\<close>

lemma tracks_run:
  assumes "fsm_wf f" and "tracks unm (xs @ ys) f A"
    and "sorted (event_times (xs @ ys))" and "retry_within unm (retention (fsm_dedup f)) (xs @ ys)"
  shows "tracks unm ys (node_run unm xs f) (fst (fold spec_step (decoded unm (applied xs)) (A, Map.empty)))"
  using assms
proof (induction xs arbitrary: f A)
  case Nil
  then show ?case by (simp add: decoded_def)
next
  case (Cons ev xs)
  let ?g = "node_step unm ev f" and ?s = "fold spec_step (decoded unm (applied [ev])) (A, Map.empty)"
  have wf: "fsm_wf ?g" and ret: "retention (fsm_dedup ?g) = retention (fsm_dedup f)"
    using node_step_wf Cons.prems(1) by simp_all
  have rest: "sorted (event_times (xs @ ys))" "retry_within unm (retention (fsm_dedup f)) (xs @ ys)"
    using Cons.prems(3,4) by (cases ev; simp)+
  have "tracks unm (xs @ ys) ?g (fst ?s)"
    by (rule node_step_tracks [OF Cons.prems [unfolded append_Cons]]) (simp only:)
  from Cons.IH [OF wf this rest(1), unfolded ret, OF rest(2)] have "tracks unm ys (node_run unm xs ?g)
      (fst (fold spec_step (decoded unm (applied xs)) (fst ?s, Map.empty)))" .
  moreover have "decoded unm (applied (ev # xs)) = decoded unm (applied [ev]) @ decoded unm (applied xs)"
    using applied_append [of "[ev]" xs] by (simp add: decoded_append)
  ultimately show ?case
    using spec_fold_fst [of "decoded unm (applied xs)" "fst ?s" Map.empty "snd ?s"] by simp
qed

text \<open>
  Along any run, whatever the database answers and however the worker is scheduled, the map
  gets the writes of the puts that come for the first time, and only those reach the table.
\<close>

lemma node_run_tracks:
  assumes "fsm_wf f" and "tracks unm evs f A"
    and "sorted (event_times evs)" and "retry_within unm (retention (fsm_dedup f)) evs"
  shows "kv_data (fsm_kv (node_run unm evs f)) =
           writes (map cmd_kv (first_puts A (decoded unm (applied evs)))) (kv_data (fsm_kv f))
         \<and> r_key ` holds_rows (node_run unm evs f) \<subseteq>
           r_key ` holds_rows f \<union> cmd_Key ` set (first_puts A (decoded unm (applied evs)))"
  using assms
proof (induction evs arbitrary: f A)
  case Nil
  then show ?case by (simp add: decoded_def)
next
  case (Cons ev evs)
  let ?g = "node_step unm ev f"
  have wf: "fsm_wf ?g" and ret: "retention (fsm_dedup ?g) = retention (fsm_dedup f)"
    using node_step_wf Cons.prems(1) by simp_all
  have sorted: "sorted (event_times evs)" and rw: "retry_within unm (retention (fsm_dedup f)) evs"
    using Cons.prems(3,4) by (cases ev; simp)+
  obtain B where B: "tracks unm evs ?g B"
      "kv_data (fsm_kv ?g) = writes (map cmd_kv (first_puts A (decoded unm (applied [ev])))) (kv_data (fsm_kv f))"
      "r_key ` holds_rows ?g \<subseteq> r_key ` holds_rows f \<union> cmd_Key ` set (first_puts A (decoded unm (applied [ev])))"
      "first_puts A (decoded unm (applied (ev # evs))) =
        first_puts A (decoded unm (applied [ev])) @ first_puts B (decoded unm (applied evs))"
    by (rule node_step_tracks [OF Cons.prems])
  show ?case
    using Cons.IH [OF wf B(1) sorted, unfolded ret, OF rw] B(2,3) unfolding B(4) node_run_simps
    by (simp add: writes_append image_Un) blast
qed

section \<open>What a start-up gives\<close>

lemma replay_rows_set_None:
  "replay_rows d set_entry i rs k = (None, k') \<Longrightarrow> kv_data k' = writes (map row_kv rs) (kv_data k)"
  by (induction rs arbitrary: i k)
    (auto simp: set_entry_def row_kv_def simp del: fun_upd_apply split: if_splits option.splits)

lemma startup_Up:
  assumes "startup getenv d disk nid = Up f"
  shows "tbl (db f) = createSchema disk" "db_open (db f)" "ch f = []" "batch f = []"
    "fsm_dedup f = dedup_New getenv" "kv_data (fsm_kv f) = replay_map (createSchema disk)"
    "fsm_wf f" "seen (fsm_dedup f) = []" "wpc f = Running" "settled f = createSchema disk"
    "holds_rows f = set (createSchema disk)" "bw_inv f" "\<not> stop_closed f"
proof -
  let ?db = "\<lparr>tbl = createSchema disk, db_open = True\<rparr>"
  let ?bw = "writer_of getenv ?db init_metrics"
  obtain kv where rp: "Replay d set_entry ?db NewKV = (None, kv)"
      and f: "f = fsm_New kv (dedup_New getenv) ?bw nid"
    using assms unfolding startup_Up_iff
    by (auto simp: NewSQLiteLog_def elim!: boot_state_Up split: option.splits if_splits)
  show "tbl (db f) = createSchema disk" "db_open (db f)" "ch f = []" "batch f = []"
    "fsm_dedup f = dedup_New getenv" "seen (fsm_dedup f) = []" "wpc f = Running" "\<not> stop_closed f"
    by (simp_all add: f fsm_New_def bwsys.defs writer_of_def dedup_New_def Let_def)
  then show "fsm_wf f" "settled f = createSchema disk" "holds_rows f = set (createSchema disk)"
    by (simp_all add: fsm_wf_def settled_def holds_rows_def)
  have "kv_data kv = writes (map row_kv (sort_key r_idx (createSchema disk))) Map.empty"
    using rp replay_rows_set_None
    by (fastforce simp: Replay_def split: option.splits)
  then show "kv_data (fsm_kv f) = replay_map (createSchema disk)"
    by (simp add: f fsm_New_def bwsys.defs replay_map_def)
  show "bw_inv f"
    using bw_inv_New [of getenv ?db init_metrics]
    by (simp add: f fsm_New_def bwsys.defs bw_inv_def)
qed

section \<open>Runs keep the map and the log in step\<close>

fun event_healthy :: "node_event \<Rightarrow> bool" where
  "event_healthy (NApply l env) = env_healthy env"
| "event_healthy (NWork d c) = healthy d"
| "event_healthy (NEvict now) = True"

definition indices_ok :: "node_event list \<Rightarrow> 'a bwsys_scheme \<Rightarrow> bool" where
  "indices_ok evs f \<longleftrightarrow> sorted_wrt (<) (map log_Index (applied evs))
     \<and> (\<forall>l \<in> set (applied evs). index_above (log_Index l) f)"

lemma stored_settled_eq: "index_above i f \<Longrightarrow> stored g = stored f \<Longrightarrow> index_above i g"
  by (simp add: index_above_stored)

lemma pump_coherent:
  assumes "bw_good (f :: FSM)" and "coherent f" and "healthy d"
  shows "bw_good (pump_worker (d, c) f)" "coherent (pump_worker (d, c) f)"
    "stored (pump_worker (d, c) f) = stored f"
proof -
  have st: "settled (pump_worker (d, c) f) = settled f"
    using worker_step_healthy [of d c f] assms
    by (auto simp: pump_worker_def bw_good_def split: option.splits)
  show "bw_good (pump_worker (d, c) f)"
    using worker_step_stored [of d c f] assms by (auto simp: pump_worker_def split: option.splits)
  show "coherent (pump_worker (d, c) f)" "stored (pump_worker (d, c) f) = stored f"
    using assms(2) st by (simp_all add: coherent_def stored_def)
qed

lemma node_run_coherent:
  assumes "bw_good f" and "coherent f" and "indices_ok evs f" and "list_all event_healthy evs"
  shows "bw_good (node_run unm evs f) \<and> coherent (node_run unm evs f)"
  using assms
proof (induction evs arbitrary: f)
  case (Cons ev evs)
  let ?g = "node_step unm ev f"
  have "bw_good ?g \<and> coherent ?g \<and> indices_ok evs ?g"
  proof (cases ev)
    case (NApply l env)
    then have "bw_good ?g \<and> coherent ?g \<and> (\<forall>j. log_Index l < j \<longrightarrow> index_above j ?g)"
      using Cons.prems Apply_coherent [of f env l unm] by (simp add: indices_ok_def)
    then show ?thesis
      using Cons.prems(3) NApply by (auto simp: indices_ok_def)
  next
    case (NWork d c)
    then show ?thesis
      using pump_coherent [of f d c] Cons.prems
      by (auto simp: indices_ok_def intro: stored_settled_eq)
  next
    case (NEvict now)
    then show ?thesis
      using Cons.prems
      by (simp add: node_step_evict coherent_def indices_ok_def index_above_def del: node_step.simps)
  qed
  then show ?case
    using Cons.IH [of ?g] Cons.prems(4) by simp
qed simp

section \<open>Properties\<close>

lemma retention_New: "startup getenv d disk nid = Up f \<Longrightarrow> tracks unm evs f {}"
  by (rule tracks_empty) (rule startup_Up(8))

lemma node_run_spec:
  assumes "startup getenv d disk nid = Up f0"
    and "sorted (event_times evs)" and "retry_within unm (retention (fsm_dedup f0)) evs"
  shows "kv_data (fsm_kv (node_run unm evs f0)) =
           writes (map cmd_kv (first_puts {} (decoded unm (applied evs)))) (replay_map (createSchema disk))"
    and "r_key ` holds_rows (node_run unm evs f0) \<subseteq>
           r_key ` set (createSchema disk) \<union> cmd_Key ` set (first_puts {} (decoded unm (applied evs)))"
  using node_run_tracks [OF startup_Up(7) [OF assms(1)] retention_New [OF assms(1)] assms(2,3)]
    startup_Up(6,11) [OF assms(1)] by auto

lemma createSchema_simps [simp]: "createSchema None = []" "createSchema (Some t) = t"
  by (simp_all add: createSchema_def)

text \<open>
  C3: Exactly once. A node that starts on an empty disk and applies a log, with any scheduling
  of the batch worker, any evictions and any answers of the database, holds the map in which
  each put took effect the first time its idempotency key occurred, as long as clients retry
  within the retention time of the dedup store (C36 shows what happens otherwise).
\<close>

theorem node_exactly_once:
  assumes "startup getenv d None nid = Up f0"
    and "sorted (event_times evs)" and "retry_within unm (retention (fsm_dedup f0)) evs"
  shows "kv_data (fsm_kv (node_run unm evs f0)) = spec_kv unm (applied evs)"
  using node_run_spec(1) [OF assms] by (simp add: spec_kv_writes)

text \<open>
  Crash safety. A node runs from an empty disk and crashes at any point, whatever the worker
  had flushed, whatever the database had refused, and even if the disk lost some of the
  committed transactions. It restarts on what is left, and raft delivers the log again from its
  first entry and then goes on. The map is then the one the whole log determines.
\<close>

lemma crash_recovery:
  assumes boot1: "startup getenv d1 None nid = Up f0"
    and run1: "sorted (event_times evs1)" "retry_within unm (retention (fsm_dedup f0)) evs1"
    and disk: "set disk \<subseteq> set (tbl (db (node_run unm evs1 f0)))"
    and boot2: "startup getenv' d2 (Some disk) nid = Up g0"
    and run2: "sorted (event_times evs2)" "retry_within unm (retention (fsm_dedup g0)) evs2"
    and redelivery: "applied evs2 = applied evs1 @ ls"
  shows "kv_data (fsm_kv (node_run unm evs2 g0)) = spec_kv unm (applied evs2)"
proof -
  let ?P1 = "first_puts {} (decoded unm (applied evs1))"
  let ?P2 = "first_puts {} (decoded unm (applied evs2))"
  have "set disk \<subseteq> holds_rows (node_run unm evs1 f0)"
    using disk by (auto simp: holds_rows_def)
  then have "r_key ` set disk \<subseteq> cmd_Key ` set ?P1"
    using node_run_spec(2) [OF boot1 run1] by fastforce
  moreover have "set ?P1 \<subseteq> set ?P2"
    by (simp add: redelivery decoded_append first_puts_append)
  ultimately have "dom (replay_map disk) \<subseteq> fst ` set (map cmd_kv ?P2)"
    by (auto simp: dom_replay_map cmd_kv_def image_image)
  then have "writes (map cmd_kv ?P2) (replay_map disk) = writes (map cmd_kv ?P2) Map.empty"
    by (rule writes_cover)
  then show ?thesis
    using node_run_spec(1) [OF boot2 run2] by (simp add: spec_kv_writes)
qed

text \<open>
  Replicas agree. Two nodes that have applied the same log hold the same map, however
  differently their workers, clocks, cleaners and databases behaved, under the same assumption
  on retries.
\<close>

lemma replicas_agree:
  assumes "startup getenvA dA None nidA = Up a0" and "startup getenvB dB None nidB = Up b0"
    and "sorted (event_times evsA)" "retry_within unm (retention (fsm_dedup a0)) evsA"
    and "sorted (event_times evsB)" "retry_within unm (retention (fsm_dedup b0)) evsB"
    and "applied evsA = applied evsB"
  shows "fsm_kv (node_run unm evsA a0) = fsm_kv (node_run unm evsB b0)"
proof (rule KV_eqI)
  show "kv_data (fsm_kv (node_run unm evsA a0)) = kv_data (fsm_kv (node_run unm evsB b0))"
    using node_run_spec(1) [OF assms(1,3,4)] node_run_spec(1) [OF assms(2,5,6)] assms(7) by simp
qed

text \<open>
  C36: Without that assumption replicas diverge. Eviction is driven by each node's own clock and
  is not part of the log. Of two nodes in the same state that apply the same three entries (a
  put, an overwrite of its key, a retry of the put), the one whose cleaner runs after the
  retention time and before the retry ends with the retried value, the other one with the
  overwrite.
\<close>

theorem eviction_divergence:
  assumes up: "startup getenv d None nid = Up f0"
    and l1: "unm (log_Data l1) = Inr \<lparr>cmd_Op = ''put'', cmd_Key = k, cmd_Value = v1, cmd_IdempotencyKey = i1\<rparr>"
    and l2: "unm (log_Data l2) = Inr \<lparr>cmd_Op = ''put'', cmd_Key = k, cmd_Value = v2, cmd_IdempotencyKey = i2\<rparr>"
    and l3: "unm (log_Data l3) = unm (log_Data l1)"
    and ids: "i1 \<noteq> []" "i2 \<noteq> i1" and late: "a_now e1 + retention (fsm_dedup f0) < now"
  shows "kv_Get k (fsm_kv (node_run unm [NApply l1 e1, NApply l2 e2, NApply l3 e3] f0)) = (v2, True)
    \<and> kv_Get k (fsm_kv (node_run unm [NApply l1 e1, NApply l2 e2, NEvict now, NApply l3 e3] f0)) = (v1, True)"
proof -
  let ?c1 = "\<lparr>cmd_Op = ''put'', cmd_Key = k, cmd_Value = v1, cmd_IdempotencyKey = i1\<rparr>"
  let ?c2 = "\<lparr>cmd_Op = ''put'', cmd_Key = k, cmd_Value = v2, cmd_IdempotencyKey = i2\<rparr>"
  let ?s1 = "MarkSeen (a_now e1) i1 (fsm_dedup f0)"
  let ?s2 = "MarkSeen (a_now e2) i2 ?s1"
  let ?f2 = "after_put e2 (log_Index l2) ?c2 (after_put e1 (log_Index l1) ?c1 f0)"
  have fresh: "seen (fsm_dedup f0) = []" and wf0: "dd_wf (fsm_dedup f0)"
    using startup_Up(7,8) [OF up] by (simp_all add: fsm_wf_def)
  have s1: "map_of (seen ?s1) = [i1 \<mapsto> a_now e1]"
    using ids by (simp add: dd.mark_seen fresh)
  have s2: "map_of (seen ?s2) i1 = Some (a_now e1)"
    using ids by (simp add: dd.mark_seen fresh)
  have wf2: "dd_wf ?s2" and ret: "retention ?s2 = retention (fsm_dedup f0)"
    using wf0 dd.mark_retention by (simp_all add: dd.mark_wf retention_def)
  have run12: "node_run unm [NApply l1 e1, NApply l2 e2] f0 = ?f2"
    using ids s1 by (simp add: Apply_put l1 l2 IsDuplicate_def fresh)
  have "\<not> IsDuplicate i1 (purge_store now ?s2)"
    using late ret by (intro dd.forgotten [OF wf2 s2]) (simp add: retention_def)
  then have evicted: "fsm_kv (node_step unm (NApply l3 e3) (node_step unm (NEvict now) ?f2)) =
      kv_Set k v1 (fsm_kv ?f2)"
    by (simp add: Apply_put l3 l1 evict_purge Let_def)
  have kept: "fsm_kv (node_step unm (NApply l3 e3) ?f2) = fsm_kv ?f2"
    using ids s2 by (simp add: Apply_dup l3 l1 IsDuplicate_def)
  have split: "node_run unm [NApply l1 e1, NApply l2 e2, NApply l3 e3] f0 =
        node_step unm (NApply l3 e3) (node_run unm [NApply l1 e1, NApply l2 e2] f0)"
      "node_run unm [NApply l1 e1, NApply l2 e2, NEvict now, NApply l3 e3] f0 =
        node_step unm (NApply l3 e3) (node_step unm (NEvict now) (node_run unm [NApply l1 e1, NApply l2 e2] f0))"
    by simp_all
  show ?thesis
    unfolding split run12 kept evicted by (simp add: kv_Get_def)
qed

lemma startup_coherent:
  assumes "startup getenv d None nid = Up f0"
  shows "bw_good f0" "coherent f0"
    "sorted_wrt (<) (map log_Index (applied evs)) \<Longrightarrow> indices_ok evs f0"
  using startup_Up [OF assms]
  by (simp_all add: bw_good_def pk_ok_def coherent_def indices_ok_def index_above_def)

lemma healthy_run:
  assumes "startup getenv d None nid = Up f0"
    and "sorted_wrt (<) (map log_Index (applied evs))" and "list_all event_healthy evs"
  shows "bw_good (node_run unm evs f0)" "coherent (node_run unm evs f0)"
  using node_run_coherent startup_coherent [OF assms(1)] assms(2,3) by blast+

text \<open>
  Clean restart. While the database answers and raft delivers increasing indices, a node
  whose batch and channel are empty restarts on its table with the map it had.
\<close>

lemma restart_after_flush:
  assumes "startup getenv d None nid = Up f0"
    and "sorted_wrt (<) (map log_Index (applied evs))" and "list_all event_healthy evs"
    and "batch (node_run unm evs f0) = []" and "ch (node_run unm evs f0) = []"
    and "startup getenv' d' (Some (tbl (db (node_run unm evs f0)))) nid = Up g0"
  shows "fsm_kv g0 = fsm_kv (node_run unm evs f0)"
proof (rule KV_eqI)
  have "kv_data (fsm_kv (node_run unm evs f0)) = replay_map (tbl (db (node_run unm evs f0)))"
    using healthy_run(2) [OF assms(1-3), of unm] settled_idle [OF assms(4,5)] by (simp add: coherent_def)
  then show "kv_data (fsm_kv g0) = kv_data (fsm_kv (node_run unm evs f0))"
    using startup_Up(6) [OF assms(6)] by simp
qed

text \<open>
  A snapshot is complete when nothing is queued: it then holds the whole map, along any run
  in which the database answers.
\<close>

lemma snapshot_complete_when_idle:
  assumes "startup getenv d None nid = Up f0"
    and "sorted_wrt (<) (map log_Index (applied evs))" and "list_all event_healthy evs"
    and "batch (node_run unm evs f0) = []" and "ch (node_run unm evs f0) = []"
  shows "Snapshot no_fault (node_run unm evs f0) = Inr (kv_data (fsm_kv (node_run unm evs f0)))"
  using healthy_run [OF assms(1-3), of unm] settled_idle [OF assms(4,5)]
  by (simp add: Snapshot_no_fault coherent_def bw_good_def)

text \<open>
  C35: A snapshot misses what is queued. When the channel has room, an applied put is visible to
  readers at once, and the snapshot that raft takes next is the same as before the put: the
  entry is not in it, although raft will drop it from the log as covered by the snapshot.
\<close>

theorem snapshot_misses_queued:
  assumes "length (ch f) < chan_cap f"
    and "unm (log_Data l) = Inr c" and "cmd_Op c = ''put''"
    and "\<not> IsDuplicate (cmd_IdempotencyKey c) (fsm_dedup f)"
  shows "ar_Error (snd (Apply unm env l f)) = []
    \<and> kv_Get (cmd_Key c) (fsm_kv (fst (Apply unm env l f))) = (cmd_Value c, True)
    \<and> Snapshot d (fst (Apply unm env l f)) = Snapshot d f"
proof -
  have "db (after_put env (log_Index l) c f) = db f"
    using assms(1) by (simp add: after_put_def Let_def Send_room enqueue_def)
  then show ?thesis
    using Apply_put [of unm l c f env] assms(2-4) by (simp add: kv_Get_def Snapshot_def)
qed

text \<open>
  Installing a snapshot. A successful \<^verbatim>\<open>Restore\<close> makes the table replay to exactly the
  snapshot and overlays the snapshot on the map, in whatever order the two loops range over
  the decoded entries; a failing one changes nothing.
\<close>

lemma restore_installs:
  assumes "dec rc = Inr m" and "enumerates (r1 m) m" and "enumerates (r2 m) m"
  shows "(case Restore dec r1 r2 d rc f of
            (None, g) \<Rightarrow> kv_data (fsm_kv g) = kv_data (fsm_kv f) ++ m \<and> replay_map (tbl (db g)) = m
          | (Some err, g) \<Rightarrow> g = f)"
  using Restore_Inr [where dec = dec and rc = rc and m = m and ?r1.0 = r1 and ?r2.0 = r2
      and f = f and d = d] assms by (auto split: prod.splits option.splits)

text \<open>Entries in order, over rows with the indices below \<open>n\<close>: those from \<open>n\<close> on win, the others are ignored.\<close>

lemma replay_map_late_entries:
  assumes "sorted_wrt (<) (map le_Index es)"
    and "\<And>e. e \<in> set es \<Longrightarrow> uint (le_Index e) < n \<Longrightarrow> uint (le_Index e) \<in> r_idx ` set t"
    and "\<And>e r. e \<in> set es \<Longrightarrow> r \<in> set t \<Longrightarrow> r_idx r < n \<or> r_idx r < uint (le_Index e)"
  shows "replay_map (fold insert_or_ignore (map row_of es) t) =
    writes (map (\<lambda>e. (le_Key e, le_Value e)) (filter (\<lambda>e. n \<le> uint (le_Index e)) es)) (replay_map t)"
  using assms
proof (induction es arbitrary: t)
  case (Cons e es)
  let ?t = "insert_or_ignore (row_of e) t"
  have sorted: "sorted_wrt (<) (map le_Index es)" "\<And>x. x \<in> set es \<Longrightarrow> le_Index e < le_Index x"
    using Cons.prems(1) by auto
  have IH: "replay_map (fold insert_or_ignore (map row_of es) ?t) =
      writes (map (\<lambda>e. (le_Key e, le_Value e)) (filter (\<lambda>e. n \<le> uint (le_Index e)) es)) (replay_map ?t)"
  proof (rule Cons.IH [OF sorted(1)])
    fix x assume "x \<in> set es" "uint (le_Index x) < n"
    then show "uint (le_Index x) \<in> r_idx ` set ?t"
      using Cons.prems(2) [of x] by (auto simp: insert_or_ignore_def)
  next
    fix x r assume "x \<in> set es" "r \<in> set ?t"
    then show "r_idx r < n \<or> r_idx r < uint (le_Index x)"
      using Cons.prems(3) [of x r] sorted(2) [of x] by (auto simp: insert_or_ignore_def word_less_def split: if_splits)
  qed
  show ?case
  proof (cases "n \<le> uint (le_Index e)")
    case True
    then have "\<forall>r \<in> set t. r_idx r < r_idx (row_of e)"
      using Cons.prems(3) [of e] by fastforce
    then show ?thesis
      using IH True replay_map_insert_max [of t "row_of e"] by (simp del: fun_upd_apply)
  next
    case False
    then have "?t = t"
      using Cons.prems(2) [of e] by (auto simp: insert_or_ignore_def)
    then show ?thesis
      using IH False by simp
  qed
qed simp

text \<open>
  C39: \<^verbatim>\<open>Restore\<close> leaves the batch writer alone. After a snapshot of \<open>n\<close> keys has been installed, the next
  flush writes what the batch still held into the new table: its entries with an index of \<open>n\<close> or more,
  and only those, overwrite the snapshot, while \<^verbatim>\<open>INSERT OR IGNORE\<close> drops the others because of the
  synthetic indices. A replay then gives their old values for keys the snapshot has changed, although
  the node's memory has the snapshot's values.
\<close>

theorem restore_then_stale_flush:
  assumes "dec rc = Inr m" and "enumerates (r1 m) m" and "enumerates (r2 m) m"
    and "Restore dec r1 r2 no_fault rc f = (None, g)"
    and "wpc f = Running" and "db_open (db f)" and "sorted_wrt (<) (map le_Index (batch f))"
  shows "kv_data (fsm_kv g) = kv_data (fsm_kv f) ++ m
    \<and> replay_map (tbl (db (pump_worker (no_fault, WTick) g))) =
        writes (map (\<lambda>e. (le_Key e, le_Value e)) (filter (\<lambda>e. int (card (dom m)) \<le> uint (le_Index e)) (batch f))) m"
proof -
  let ?t = "snap_rows 0 (r1 m)" and ?n = "int (length (r1 m))"
  have g: "kv_data (fsm_kv g) = kv_data (fsm_kv f) ++ m" "tbl (db g) = ?t" and "replay_map (tbl (db g)) = m"
    using Restore_Inr [where dec = dec and rc = rc and m = m and ?r1.0 = r1 and ?r2.0 = r2
        and f = f and d = no_fault] assms(1-4) by auto
  then have rm: "replay_map ?t = m"
    by simp
  have frame: "wpc g = Running" "batch g = batch f" "db_open (db g)"
    using assms(1,4-6) ReplaceAll_no_fault [of "db f" "r1 m"]
    by (auto simp: Restore_def split: option.splits prod.splits)
  have "r_idx ` set ?t = int ` {0..<length (r1 m)}"
    using arg_cong [OF snap_rows_idx [of 0 "r1 m"], of set] by simp
  then have idx: "r_idx ` set ?t = {0..<?n}"
    using image_int_atLeastLessThan [of 0 "length (r1 m)"] by simp
  have "replay_map (fold insert_or_ignore (map row_of (batch f)) ?t) =
      writes (map (\<lambda>e. (le_Key e, le_Value e)) (filter (\<lambda>e. ?n \<le> uint (le_Index e)) (batch f))) (replay_map ?t)"
    by (rule replay_map_late_entries [OF assms(7)]) (use idx in auto)
  moreover have "tbl (db (pump_worker (no_fault, WTick) g)) = fold insert_or_ignore (map row_of (batch f)) ?t"
    using frame by (simp add: pump_worker_def flush_healthy g(2))
  ultimately show ?thesis
    using g(1) rm enumerates_card [OF assms(2)] by simp
qed

section \<open>A concrete node\<close>

text \<open>
  A node with no tuning variable set, and logs over two commands, on which the properties are
  instantiated.
\<close>

definition no_env :: environment where
  "no_env = (\<lambda>_. [])"

definition ex_node :: "row list \<Rightarrow> FSM" where
  "ex_node t =
     fsm_New \<lparr>kv_data = replay_map t\<rparr> (dedup_New no_env)
       (writer_of no_env \<lparr>tbl = t, db_open = True\<rparr> init_metrics) ''node1''"

definition ex_put :: "string \<Rightarrow> string \<Rightarrow> Command" where
  "ex_put v i = \<lparr>cmd_Op = ''put'', cmd_Key = ''k'', cmd_Value = v, cmd_IdempotencyKey = i\<rparr>"

definition ex_unm :: unmarshal where
  "ex_unm s =
     (if s = ''1'' then Inr (ex_put ''v1'' ''a'')
      else if s = ''2'' then Inr (ex_put ''v2'' ''b'')
      else Inl ''unexpected end of JSON input'')"

definition ex_log :: "uint64 \<Rightarrow> string \<Rightarrow> raft_Log" where
  "ex_log i s = \<lparr>log_Index = i, log_Data = s\<rparr>"

definition ex_at :: "instant \<Rightarrow> apply_env" where
  "ex_at t = \<lparr>a_now = t, a_sched = [], a_driver = no_fault\<rparr>"

text \<open>A put, the worker flushing it, and a retry of the put one second later.\<close>

definition ex_evs :: "node_event list" where
  "ex_evs = [NApply (ex_log 1 ''1'') (ex_at 0), NWork no_fault WRecv, NWork no_fault WTick,
             NEvict 5, NApply (ex_log 2 ''1'') (ex_at 1000000000)]"

lemma no_env_values [simp]:
  "store_envInt no_env n v = v" "dedup_envInt no_env n v = v"
  by (simp_all add: no_env_def envInt_unset)

lemma ex_node_simps [simp]:
  "ch (ex_node t) = []" "batch (ex_node t) = []" "chan_cap (ex_node t) = 4096" "flushSize (ex_node t) = 200"
  "wpc (ex_node t) = Running" "db (ex_node t) = \<lparr>tbl = t, db_open = True\<rparr>"
  "fsm_kv (ex_node t) = \<lparr>kv_data = replay_map t\<rparr>" "fsm_dedup (ex_node t) = dedup_New no_env"
  "mets (ex_node t) = init_metrics" "stop_closed (ex_node t) = False"
  by (simp_all add: ex_node_def fsm_New_def bwsys.defs writer_of_def Let_def)

lemma retention_no_env [simp]: "retention (dedup_New no_env) = 600000000000"
  using retention_of_minutes(2) [of 10] by (simp add: retention_def dedup_New_def int64_max_def)

lemma tickers_no_env:
  "ticker_ok (flushInterval (writer_of no_env q m))" "ticker_ok (cleanInterval (dedup_New no_env))"
  using sint_times_unit [of 10 1000000] retention_of_minutes(1) [of 1]
  by (simp_all add: ticker_ok_def writer_of_def dedup_New_def millisecond_word int64_max_def)

lemma sizes_no_env: "NewBatchWriter no_env q m = Some (writer_of no_env q m)" "make_slice_ok (flushSize (writer_of no_env q m))"
  by (simp_all add: NewBatchWriter_def make_chan_ok_def make_slice_ok_def writer_of_def LogEntry_size_def maxAlloc_def Let_def)

lemma ex_startup: "startup no_env no_fault disk ''node1'' = Up (ex_node (createSchema disk))"
proof -
  let ?db = "\<lparr>tbl = createSchema disk, db_open = True\<rparr>"
  have "kv_data (snd (Replay no_fault set_entry ?db NewKV)) = replay_map (createSchema disk)"
    by (simp add: Replay_kv)
  then have "Replay no_fault set_entry ?db NewKV = (None, \<lparr>kv_data = replay_map (createSchema disk)\<rparr>)"
    by (simp add: Replay_set KV_eqI)
  then show ?thesis
    using tickers_no_env(1) [of ?db init_metrics] tickers_no_env(2) sizes_no_env [of ?db init_metrics]
    by (simp add: startup_def boot_state_def goroutines_ok_def NewSQLiteLog_no_fault run_start_def cleaner_start_def
        ex_node_def fsm_New_def bwsys.defs)
qed

lemma ex_runs:
  "sorted (event_times ex_evs)" "retry_within ex_unm 600000000000 ex_evs"
  "applied ex_evs = [ex_log 1 ''1'', ex_log 2 ''1'']"
  by (simp_all add: ex_evs_def ex_at_def ex_log_def ex_unm_def ex_put_def)

lemma ex_evs_kv: "spec_kv ex_unm (applied ex_evs) ''k'' = Some ''v1''"
  by (simp add: ex_runs spec_kv_def spec_log_def spec_step_def takes_def ex_log_def ex_unm_def ex_put_def)

theorem node_exactly_once_witness:
  "startup no_env no_fault None ''node1'' = Up (ex_node []) \<and> sorted (event_times ex_evs)
   \<and> retry_within ex_unm (retention (fsm_dedup (ex_node []))) ex_evs
   \<and> kv_data (fsm_kv (node_run ex_unm ex_evs (ex_node []))) = spec_kv ex_unm (applied ex_evs)
   \<and> spec_kv ex_unm (applied ex_evs) ''k'' = Some ''v1''"
proof -
  have up: "startup no_env no_fault None ''node1'' = Up (ex_node [])"
    by (simp add: ex_startup)
  show ?thesis
    using node_exactly_once [OF up ex_runs(1), of ex_unm] ex_runs up ex_evs_kv by simp
qed

definition ex_row :: row where
  "ex_row = \<lparr>r_idx = 1, r_idem = ''a'', r_key = ''k'', r_value = ''v1''\<rparr>"

lemmas ex_defs = ex_log_def ex_at_def ex_unm_def ex_put_def
lemmas run_defs = Let_def Send_room enqueue_def pump_worker_def flush_def insertBatch_def
  insert_or_ignore_def IsDuplicate_def MarkSeen_def evict_def

text \<open>The states the concrete run goes through, event by event.\<close>

lemma ex_run:
  "db (node_run ex_unm ex_evs (ex_node [])) = \<lparr>tbl = [ex_row], db_open = True\<rparr>"
  "batch (node_run ex_unm ex_evs (ex_node [])) = []" "ch (node_run ex_unm ex_evs (ex_node [])) = []"
  by (simp_all add: ex_evs_def Apply_def ex_defs run_defs ex_row_def dedup_New_def
      times_unit_def minute_def)

theorem eviction_divergence_witness:
  "kv_Get ''k'' (fsm_kv (node_run ex_unm [NApply (ex_log 1 ''1'') (ex_at 0),
       NApply (ex_log 2 ''2'') (ex_at 1), NApply (ex_log 3 ''1'') (ex_at 700000000000)] (ex_node []))) = (''v2'', True)
   \<and> kv_Get ''k'' (fsm_kv (node_run ex_unm [NApply (ex_log 1 ''1'') (ex_at 0),
       NApply (ex_log 2 ''2'') (ex_at 1), NEvict 660000000000,
       NApply (ex_log 3 ''1'') (ex_at 700000000000)] (ex_node []))) = (''v1'', True)"
proof -
  have up: "startup no_env no_fault None ''node1'' = Up (ex_node [])"
    by (simp add: ex_startup)
  show ?thesis
    using eviction_divergence [OF up, where ?l1.0 = "ex_log 1 ''1''" and ?l2.0 = "ex_log 2 ''2''"
        and ?l3.0 = "ex_log 3 ''1''" and unm = ex_unm and k = "''k''" and ?v1.0 = "''v1''"
        and ?v2.0 = "''v2''" and ?i1.0 = "''a''" and ?i2.0 = "''b''" and ?e1.0 = "ex_at 0"
        and ?e2.0 = "ex_at 1" and ?e3.0 = "ex_at 700000000000" and now = 660000000000]
    by (simp add: ex_defs del: node_run_simps)
qed

lemma ex_healthy: "sorted_wrt (<) (map log_Index (applied ex_evs))" "list_all event_healthy ex_evs"
  by (simp_all add: ex_runs, simp_all add: ex_evs_def ex_defs env_healthy_def send_env_def)

theorem snapshot_misses_queued_witness:
  "kv_Get ''k'' (fsm_kv (fst (Apply ex_unm (ex_at 0) (ex_log 1 ''1'') (ex_node [])))) = (''v1'', True)
   \<and> Snapshot no_fault (fst (Apply ex_unm (ex_at 0) (ex_log 1 ''1'') (ex_node []))) = Inr Map.empty"
proof -
  have "Snapshot no_fault (ex_node []) = Inr Map.empty"
    by (simp add: Snapshot_no_fault)
  then show ?thesis
    using snapshot_misses_queued [of "ex_node []" ex_unm "ex_log 1 ''1''" "ex_put ''v1'' ''a''" "ex_at 0" no_fault]
    by (simp add: ex_log_def ex_unm_def IsDuplicate_def dedup_New_def) (simp add: ex_put_def)
qed

text \<open>A snapshot of one key, in the coding of the examples.\<close>

definition ex_dec :: "string \<Rightarrow> string + (string \<rightharpoonup> string)" where
  "ex_dec s = (if s = ''snap'' then Inr [''k'' \<mapsto> ''new''] else Inl ''EOF'')"

definition ex_range :: map_range where
  "ex_range m = [(''k'', the (m ''k''))]"

lemma ex_range_ok: "enumerates (ex_range [''k'' \<mapsto> ''new'']) [''k'' \<mapsto> ''new'']"
  by (simp add: enumerates_def ex_range_def)

definition ex_stale :: FSM where
  "ex_stale = (ex_node [])\<lparr>batch := [entry_for 7 (ex_put ''old'' ''a'')]\<rparr>"

theorem restore_then_stale_flush_witness:
  "let g = snd (Restore ex_dec ex_range ex_range no_fault ''snap'' ex_stale)
   in kv_data (fsm_kv g) ''k'' = Some ''new''
      \<and> replay_map (tbl (db (pump_worker (no_fault, WTick) g))) ''k'' = Some ''old''"
proof -
  have "fst (Restore ex_dec ex_range ex_range no_fault ''snap'' ex_stale) = None"
    by (simp add: Restore_def ex_dec_def ReplaceAll_no_fault ex_stale_def)
  then have "Restore ex_dec ex_range ex_range no_fault ''snap'' ex_stale =
      (None, snd (Restore ex_dec ex_range ex_range no_fault ''snap'' ex_stale))"
    by (metis prod.collapse)
  then show ?thesis
    using restore_then_stale_flush [of ex_dec "''snap''" "[''k'' \<mapsto> ''new'']" ex_range ex_range ex_stale] ex_range_ok
    by (simp add: ex_dec_def ex_stale_def entry_for_def ex_put_def Let_def)
qed

end
