(* ===== verification/Recovery.thy ===== *)
theory Recovery
  imports Prelude Node
begin

text \<open>
  How a node comes back: what its memory amounts to at any moment of a run, and what a node that
  installs a snapshot does with the log entries that follow it.
\<close>

section \<open>Memory and the durable log\<close>

text \<open>
  C11: Memory equals the settled log. At every moment of a run that starts on an empty disk, in which every call
  of the database succeeds and raft delivers increasing indices, the map that readers see is the replay of the table the
  database will hold once the worker has flushed its batch and its channel.
\<close>

theorem memory_is_settled_log:
  assumes "startup getenv d None nid = Up f0"
    and "sorted_wrt (<) (map log_Index (applied evs))" and "list_all event_healthy evs"
  shows "kv_data (fsm_kv (node_run unm evs f0)) = replay_map (settled (node_run unm evs f0))"
  using healthy_run(2) [OF assms] by (simp add: coherent_def)

theorem memory_is_settled_log_witness:
  "kv_data (fsm_kv (node_run ex_unm ex_evs (ex_node []))) = replay_map [ex_row]"
proof -
  have up: "startup no_env no_fault None ''node1'' = Up (ex_node [])"
    by (simp add: ex_startup)
  show ?thesis
    using memory_is_settled_log [OF up ex_healthy, of ex_unm] settled_idle [OF ex_run(2,3)] ex_run(1)
    by simp
qed

section \<open>After a snapshot\<close>

text \<open>What a fresh node is after it has installed a snapshot.\<close>

lemma restored_fresh:
  assumes up: "startup getenv d None nid = Up f0" and dec: "dec rc = Inr m"
    and en: "enumerates (r1 m) m" "enumerates (r2 m) m"
    and R: "Restore dec r1 r2 d' rc f0 = (None, g)"
  shows "kv_data (fsm_kv g) = m" "settled g = snap_rows 0 (r1 m)" "bw_good g" "coherent g"
    "fsm_wf g" "fsm_dedup g = fsm_dedup f0" "seen (fsm_dedup g) = []"
proof -
  obtain db' where RA: "ReplaceAll d' (r1 m) (db f0) = (None, db')"
      and g: "g = f0\<lparr>db := db', fsm_kv := set_all (r2 m) (fsm_kv f0)\<rparr>"
    using R by (auto simp: Restore_def dec split: prod.splits option.splits)
  note f0 = startup_Up [OF up]
  have db': "tbl db' = snap_rows 0 (r1 m)" "db_open db'"
    using ReplaceAll_result [OF RA] RA f0(2) by (auto simp: ReplaceAll_def split: if_splits option.splits sum.splits)
  show kv: "kv_data (fsm_kv g) = m"
    using f0(6) writes_enumerates [OF en(2), of Map.empty]
    by (simp add: g kv_data_set_all)
  show st: "settled g = snap_rows 0 (r1 m)"
    using f0(3,4) db' by (simp add: g settled_def)
  show "bw_good g"
    using db' pk_ok_snap_rows [of 0 "r1 m"] by (simp add: g bw_good_def)
  show "coherent g"
    using kv st writes_enumerates [OF en(1), of Map.empty] by (simp add: coherent_def replay_map_snap_rows)
  show "fsm_wf g" "fsm_dedup g = fsm_dedup f0" "seen (fsm_dedup g) = []"
    using f0(5,7,8) by (simp_all add: g fsm_wf_def)
qed

text \<open>
  C19: A restored node continues the log. A node that starts on an empty disk, installs a
  snapshot of at most \<open>n\<close> keys and then applies entries with indices from \<open>n\<close> on, holds at every
  moment the snapshot overwritten by the first puts of those entries, and its settled table
  replays to the same map: no synthetic index of the snapshot hides a later entry. The indices increase, every
  call of the database succeeds, and each retry comes within the retention time, by a clock that does not go back.
\<close>

theorem restored_node_continues:
  assumes up: "startup getenv d None nid = Up f0" and dec: "dec rc = Inr m"
    and en: "enumerates (r1 m) m" "enumerates (r2 m) m"
    and R: "Restore dec r1 r2 d' rc f0 = (None, g)"
    and size: "card (dom m) \<le> n" and above: "\<forall>l \<in> set (applied evs). int n \<le> uint (log_Index l)"
    and order: "sorted_wrt (<) (map log_Index (applied evs))" and ok: "list_all event_healthy evs"
    and times: "sorted (event_times evs)" "retry_within unm (retention (fsm_dedup f0)) evs"
  shows "kv_data (fsm_kv (node_run unm evs g)) = writes (map cmd_kv (first_puts {} (decoded unm (applied evs)))) m
    \<and> replay_map (settled (node_run unm evs g)) = kv_data (fsm_kv (node_run unm evs g))"
proof
  note g = restored_fresh [OF up dec en R]
  have "index_above (log_Index l) g" if "l \<in> set (applied evs)" for l
  proof -
    have "int (length (r1 m)) \<le> uint (log_Index l)"
      using size above that enumerates_card [OF en(1)] by force
    then show ?thesis
      using snap_rows_idx_bound [of _ "r1 m"] by (force simp: index_above_def g(2))
  qed
  then have "indices_ok evs g"
    using order by (simp add: indices_ok_def)
  then have "coherent (node_run unm evs g)"
    using node_run_coherent [OF g(3,4) _ ok] by blast
  then show "replay_map (settled (node_run unm evs g)) = kv_data (fsm_kv (node_run unm evs g))"
    by (simp add: coherent_def)
  show "kv_data (fsm_kv (node_run unm evs g)) = writes (map cmd_kv (first_puts {} (decoded unm (applied evs)))) m"
    using node_run_tracks [OF g(5) tracks_empty [OF g(7)] times(1)] times(2) g(1,6) by simp
qed

lemma ex_restore:
  "Restore ex_dec ex_range ex_range no_fault ''snap'' (ex_node []) =
     (None, snd (Restore ex_dec ex_range ex_range no_fault ''snap'' (ex_node [])))"
  by (simp add: Restore_def ex_dec_def ReplaceAll_no_fault)

theorem restored_node_continues_witness:
  "kv_data (fsm_kv (node_run ex_unm ex_evs (snd (Restore ex_dec ex_range ex_range no_fault ''snap'' (ex_node [])))))
     = [''k'' \<mapsto> ''v1'']"
proof -
  have up: "startup no_env no_fault None ''node1'' = Up (ex_node [])"
    by (simp add: ex_startup)
  have "ex_dec ''snap'' = Inr [''k'' \<mapsto> ''new'']"
    by (simp add: ex_dec_def)
  from restored_node_continues [OF up this ex_range_ok ex_range_ok ex_restore, of 1 ex_evs ex_unm]
  show ?thesis
    using ex_runs ex_healthy ex_range_ok
    by (simp add: decoded_def ex_defs takes_def spec_step_def cmd_kv_def)
qed

text \<open>
  C34: A snapshot forgets the dedup store. Of two replicas of the log put, overwrite, retry of the
  put, the one that applied it entry by entry ends with the overwrite; the one that installed
  the snapshot of the first two entries applies the retry as new, whatever the time between
  them, and ends with the retried value.
\<close>

theorem snapshot_forgets_dedup:
  assumes up: "startup getenv d None nid = Up a0" "startup getenv' d' None nid' = Up b0"
    and l1: "unm (log_Data l1) = Inr \<lparr>cmd_Op = ''put'', cmd_Key = k, cmd_Value = v1, cmd_IdempotencyKey = i1\<rparr>"
    and l2: "unm (log_Data l2) = Inr \<lparr>cmd_Op = ''put'', cmd_Key = k, cmd_Value = v2, cmd_IdempotencyKey = i2\<rparr>"
    and l3: "unm (log_Data l3) = unm (log_Data l1)" and ids: "i1 \<noteq> []" "i2 \<noteq> i1"
    and snap: "dec rc = Inr (kv_data (fsm_kv (node_run unm [NApply l1 e1, NApply l2 e2] a0)))"
    and R: "Restore dec r1 r2 d'' rc b0 = (None, g)"
  shows "kv_Get k (fsm_kv (node_run unm [NApply l1 e1, NApply l2 e2, NApply l3 e3] a0)) = (v2, True)
    \<and> kv_Get k (fsm_kv (node_run unm [NApply l3 e3'] g)) = (v1, True)"
proof
  have dup: "seen (fsm_dedup a0) = []" "fsm_dedup g = fsm_dedup b0" "seen (fsm_dedup b0) = []"
    using startup_Up(8) up R by (auto simp: Restore_def snap split: prod.splits option.splits)
  let ?c1 = "\<lparr>cmd_Op = ''put'', cmd_Key = k, cmd_Value = v1, cmd_IdempotencyKey = i1\<rparr>"
  let ?c2 = "\<lparr>cmd_Op = ''put'', cmd_Key = k, cmd_Value = v2, cmd_IdempotencyKey = i2\<rparr>"
  let ?f2 = "after_put e2 (log_Index l2) ?c2 (after_put e1 (log_Index l1) ?c1 a0)"
  have "node_run unm [NApply l1 e1, NApply l2 e2, NApply l3 e3] a0 = fst (Apply unm e3 l3 ?f2)"
    using ids by (simp add: Apply_put l1 l2 IsDuplicate_def dd.mark_seen dup)
  moreover have "IsDuplicate i1 (fsm_dedup ?f2)"
    using ids by (simp add: IsDuplicate_def dd.mark_seen dup)
  ultimately show "kv_Get k (fsm_kv (node_run unm [NApply l1 e1, NApply l2 e2, NApply l3 e3] a0)) = (v2, True)"
    by (simp add: Apply_dup l3 l1 kv_Get_def)
  show "kv_Get k (fsm_kv (node_run unm [NApply l3 e3'] g)) = (v1, True)"
    by (simp add: Apply_put l3 l1 IsDuplicate_def dup kv_Get_def)
qed

definition ex_dec2 :: "string \<Rightarrow> string + (string \<rightharpoonup> string)" where
  "ex_dec2 s = (if s = ''snap2'' then Inr [''k'' \<mapsto> ''v2''] else Inl ''EOF'')"

theorem snapshot_forgets_dedup_witness:
  "kv_Get ''k'' (fsm_kv (node_run ex_unm [NApply (ex_log 1 ''1'') (ex_at 0), NApply (ex_log 2 ''2'') (ex_at 1),
       NApply (ex_log 3 ''1'') (ex_at 2)] (ex_node []))) = (''v2'', True)
   \<and> kv_Get ''k'' (fsm_kv (node_run ex_unm [NApply (ex_log 3 ''1'') (ex_at 2)]
       (snd (Restore ex_dec2 ex_range ex_range no_fault ''snap2'' (ex_node []))))) = (''v1'', True)"
proof -
  have up: "startup no_env no_fault None ''node1'' = Up (ex_node [])"
    by (simp add: ex_startup)
  have R: "Restore ex_dec2 ex_range ex_range no_fault ''snap2'' (ex_node []) =
      (None, snd (Restore ex_dec2 ex_range ex_range no_fault ''snap2'' (ex_node [])))"
    by (simp add: Restore_def ex_dec2_def ReplaceAll_no_fault)
  have m: "ex_dec2 ''snap2'' = Inr (kv_data (fsm_kv (node_run ex_unm
      [NApply (ex_log 1 ''1'') (ex_at 0), NApply (ex_log 2 ''2'') (ex_at 1)] (ex_node []))))"
    by (simp add: ex_dec2_def Apply_put ex_defs IsDuplicate_def dedup_New_def dd.mark_seen fun_eq_iff)
  show ?thesis
    using snapshot_forgets_dedup [OF up up _ _ _ _ _ m R, where ?l3.0 = "ex_log 3 ''1''" and k = "''k''"
        and ?v1.0 = "''v1''" and ?v2.0 = "''v2''" and ?i1.0 = "''a''" and ?i2.0 = "''b''"
        and ?e3.0 = "ex_at 2" and e3' = "ex_at 2"]
    by (simp add: ex_defs del: node_run_simps)
qed

end
