(* ===== verification/Shutdown.thy ===== *)
theory Shutdown
  imports Prelude Node
begin

text \<open>
  The graceful shutdown of \<^verbatim>\<open>main.go\<close>: the five calls \<^verbatim>\<open>main\<close> makes after the signal, one after
  the other, while raft, the batch worker and the dedup cleaner run on until each is stopped.
\<close>

section \<open>The machine\<close>

text \<open>How far \<^verbatim>\<open>main\<close> has come: the last thing it has stopped.\<close>

datatype main_pc = Serving | NoHTTP | NoDedup | NoWriter | NoRaft | Down

text \<open>The stages are ordered as \<^verbatim>\<open>main\<close> passes them.\<close>

primrec stage :: "main_pc \<Rightarrow> nat" where
  "stage Serving = 0"
| "stage NoHTTP = 1"
| "stage NoDedup = 2"
| "stage NoWriter = 3"
| "stage NoRaft = 4"
| "stage Down = 5"

lemma stage_inject: "stage p = stage q \<Longrightarrow> p = q"
  by (cases p; cases q) simp_all

instantiation main_pc :: linorder
begin

definition less_eq_main_pc :: "main_pc \<Rightarrow> main_pc \<Rightarrow> bool" where
  "less_eq_main_pc p q \<longleftrightarrow> stage p \<le> stage q"

definition less_main_pc :: "main_pc \<Rightarrow> main_pc \<Rightarrow> bool" where
  "less_main_pc p q \<longleftrightarrow> stage p < stage q"

instance
  by standard (auto simp: less_eq_main_pc_def less_main_pc_def intro: stage_inject)

end

lemmas stage_defs = less_eq_main_pc_def less_main_pc_def

record machine =
  m_fsm :: FSM
  m_pc :: main_pc
  m_cleaner :: bool

text \<open>
  The next call of \<^verbatim>\<open>main\<close>; \<open>None\<close> is a panic of the process. The two \<^verbatim>\<open>Stop\<close> calls close a channel
  and return at once; \<^verbatim>\<open>Shutdown\<close> of raft returns when the state machine is no longer called.
\<close>

fun main_step :: "machine \<Rightarrow> machine option" where
  "main_step m =
     (case m_pc m of
        Serving \<Rightarrow> Some (m\<lparr>m_pc := NoHTTP\<rparr>)
      | NoHTTP \<Rightarrow>
          (case dedup_Stop (fsm_dedup (m_fsm m)) of
             None \<Rightarrow> None
           | Some s \<Rightarrow> Some (m\<lparr>m_fsm := (m_fsm m)\<lparr>fsm_dedup := s\<rparr>, m_pc := NoDedup\<rparr>))
      | NoDedup \<Rightarrow>
          (case Stop (m_fsm m) of
             None \<Rightarrow> None
           | Some f \<Rightarrow> Some (m\<lparr>m_fsm := f, m_pc := NoWriter\<rparr>))
      | NoWriter \<Rightarrow> Some (m\<lparr>m_pc := NoRaft\<rparr>)
      | NoRaft \<Rightarrow> Some (m\<lparr>m_fsm := (m_fsm m)\<lparr>db := Close (db (m_fsm m))\<rparr>, m_pc := Down\<rparr>)
      | Down \<Rightarrow> Some m)"

declare main_step.simps [simp del]

datatype sys_event = EMain | ENode node_event | ECleanerStops

text \<open>
  One event of the process. Raft applies entries until its shutdown, and the cleaner evicts
  until it takes the \<^verbatim>\<open>stop\<close> case.
\<close>

fun sys_step :: "unmarshal \<Rightarrow> sys_event \<Rightarrow> machine \<Rightarrow> machine option" where
  "sys_step unm EMain m = main_step m"
| "sys_step unm ECleanerStops m =
     Some (if dd_stopped (fsm_dedup (m_fsm m)) then m\<lparr>m_cleaner := False\<rparr> else m)"
| "sys_step unm (ENode (NApply l env)) m =
     Some (if m_pc m = NoRaft \<or> m_pc m = Down then m
           else m\<lparr>m_fsm := node_step unm (NApply l env) (m_fsm m)\<rparr>)"
| "sys_step unm (ENode (NWork d c)) m = Some (m\<lparr>m_fsm := node_step unm (NWork d c) (m_fsm m)\<rparr>)"
| "sys_step unm (ENode (NEvict now)) m =
     Some (if m_cleaner m then m\<lparr>m_fsm := node_step unm (NEvict now) (m_fsm m)\<rparr> else m)"

fun sys_run :: "unmarshal \<Rightarrow> sys_event list \<Rightarrow> machine \<Rightarrow> machine option" where
  "sys_run unm [] m = Some m"
| "sys_run unm (e # es) m = (case sys_step unm e m of None \<Rightarrow> None | Some m' \<Rightarrow> sys_run unm es m')"

lemma sys_run_append:
  "sys_run unm (xs @ ys) m = (case sys_run unm xs m of None \<Rightarrow> None | Some m' \<Rightarrow> sys_run unm ys m')"
  by (induction unm xs m rule: sys_run.induct) (auto split: option.splits)

section \<open>What the steps keep\<close>

lemma Send_frame_fsm:
  "stop_closed (Send sched d e s) = stop_closed s \<and> db_open (db (Send sched d e s)) = db_open (db s)"
proof (rule Send_induct [where P = "\<lambda>u. stop_closed u = stop_closed s \<and> db_open (db u) = db_open (db s)"])
  fix u :: "'a bwsys_scheme"
  assume "stop_closed u = stop_closed s \<and> db_open (db u) = db_open (db s)"
  then show "stop_closed (sync_write d e u) = stop_closed s \<and> db_open (db (sync_write d e u)) = db_open (db s)"
    using insertOne_result [of d e "db u"]
    by (cases "insertOne d e (db u)"; cases "fst (insertOne d e (db u))") (auto simp: sync_write_def)
next
  fix u u' :: "'a bwsys_scheme" and dw c
  assume "stop_closed u = stop_closed s \<and> db_open (db u) = db_open (db s)" "worker_step dw c u = Some u'"
  then show "stop_closed u' = stop_closed s \<and> db_open (db u') = db_open (db s)"
    using worker_step_frame by metis
qed (simp_all add: enqueue_def)

lemma after_put_frame:
  "stop_closed (after_put env i c f) = stop_closed f" "db_open (db (after_put env i c f)) = db_open (db f)"
  using Send_frame_fsm [of "a_sched env" "a_driver env" "entry_for i c"
      "f\<lparr>fsm_kv := kv_Set (cmd_Key c) (cmd_Value c) (fsm_kv f)\<rparr>"]
  by (simp_all add: after_put_def Let_def)

lemma MarkSeen_stopped [simp]: "dd_stopped (MarkSeen t k s) = dd_stopped s"
  by (simp add: MarkSeen_def)

lemma pump_frame:
  "stop_closed (pump_worker w f) = stop_closed f" "db_open (db (pump_worker w f)) = db_open (db f)"
  using worker_step_frame [of "fst w" "snd w" f] by (auto simp: pump_worker_def split: option.splits)

lemma node_step_frame:
  "stop_closed (node_step unm ev f) = stop_closed f \<and> db_open (db (node_step unm ev f)) = db_open (db f)
   \<and> dd_stopped (fsm_dedup (node_step unm ev f)) = dd_stopped (fsm_dedup f)"
proof (cases ev)
  case (NApply l env)
  then show ?thesis
    by (cases rule: Apply_cases [of unm l env f]) (simp_all add: after_put_frame)
next
  case (NWork d c)
  then show ?thesis by (simp add: pump_frame)
next
  case (NEvict now)
  then show ?thesis by (simp add: evict_def Let_def)
qed

text \<open>Each of the three things \<^verbatim>\<open>main\<close> closes is open exactly until its turn.\<close>

definition machine_inv :: "machine \<Rightarrow> bool" where
  "machine_inv m \<longleftrightarrow>
     (dd_stopped (fsm_dedup (m_fsm m)) \<longleftrightarrow> NoDedup \<le> m_pc m)
     \<and> (stop_closed (m_fsm m) \<longleftrightarrow> NoWriter \<le> m_pc m)
     \<and> (db_open (db (m_fsm m)) \<longleftrightarrow> m_pc m < Down)"

lemma main_step_inv:
  assumes "machine_inv m"
  shows "\<exists>m'. main_step m = Some m' \<and> machine_inv m'"
  using assms
  by (cases "m_pc m") (auto simp: main_step.simps machine_inv_def dedup_Stop_def Stop_def Close_def stage_defs)

lemma sys_step_inv:
  assumes "machine_inv m"
  shows "\<exists>m'. sys_step unm e m = Some m' \<and> machine_inv m'"
proof (cases e)
  case EMain
  then show ?thesis using main_step_inv [OF assms] by simp
next
  case ECleanerStops
  then show ?thesis using assms by (auto simp: machine_inv_def)
next
  case (ENode ev)
  have "machine_inv (m\<lparr>m_fsm := node_step unm ev (m_fsm m)\<rparr>)"
    using assms node_step_frame [of unm ev "m_fsm m"] by (simp add: machine_inv_def)
  then show ?thesis
    using ENode assms by (cases ev) simp_all
qed

lemma sys_run_inv: "machine_inv m \<Longrightarrow> \<exists>m'. sys_run unm es m = Some m' \<and> machine_inv m'"
proof (induction es arbitrary: m)
  case (Cons e es)
  then obtain m1 where "sys_step unm e m = Some m1" "machine_inv m1"
    using sys_step_inv by blast
  then show ?case using Cons.IH by simp
qed simp

definition booted :: "FSM \<Rightarrow> machine" where
  "booted f = \<lparr>m_fsm = f, m_pc = Serving, m_cleaner = True\<rparr>"

lemma booted_inv: "startup getenv d disk nid = Up f \<Longrightarrow> machine_inv (booted f)"
  using startup_Up [of getenv d disk nid f] by (simp add: machine_inv_def booted_def dedup_New_def stage_defs)

text \<open>With the database closed no event changes the table.\<close>

lemma worker_step_closed:
  assumes "worker_step d c s = Some s'" and "\<not> db_open (db s)"
  shows "tbl (db s') = tbl (db s)"
proof -
  have "db (flush d u) = db u" if "\<not> db_open (db u)" for u :: "'a bwsys_scheme"
    using that by (simp add: flush_def insertBatch_def)
  with assms show ?thesis
    by (cases rule: worker_step_cases) simp_all
qed

lemma pump_closed: "\<not> db_open (db f) \<Longrightarrow> tbl (db (pump_worker w f)) = tbl (db f)"
  using worker_step_closed [of "fst w" "snd w" f] by (auto simp: pump_worker_def split: option.splits)

lemma sys_step_down:
  assumes "machine_inv m" and "m_pc m = Down" and "sys_step unm e m = Some m'"
  shows "m_pc m' = Down \<and> tbl (db (m_fsm m')) = tbl (db (m_fsm m))"
  using assms pump_closed [of "m_fsm m"]
  by (cases "(unm, e, m)" rule: sys_step.cases)
    (auto simp: main_step.simps machine_inv_def stage_defs evict_def Let_def split: if_splits)

lemma sys_run_down:
  assumes "machine_inv m" and "m_pc m = Down" and "sys_run unm es m = Some m'"
  shows "m_pc m' = Down \<and> tbl (db (m_fsm m')) = tbl (db (m_fsm m))"
  using assms
proof (induction es arbitrary: m)
  case (Cons e es)
  obtain m1 where m1: "sys_step unm e m = Some m1" "machine_inv m1"
    using sys_step_inv [OF Cons.prems(1)] by blast
  then show ?case
    using Cons.IH [OF m1(2)] sys_step_down [OF Cons.prems(1,2) m1(1)] Cons.prems(3) by simp
qed simp

text \<open>A worker that has left has left nothing behind.\<close>

lemma worker_run_exited:
  assumes "wpc s = Exited \<Longrightarrow> ch s = [] \<and> batch s = []"
    and "wpc (worker_run ws s) = Exited"
  shows "ch (worker_run ws s) = [] \<and> batch (worker_run ws s) = []"
  using assms
proof (induction ws s rule: worker_run.induct)
  case (2 d c ws s)
  have "ch s' = [] \<and> batch s' = []" if "worker_step d c s = Some s'" "wpc s' = Exited" for s'
    using that(1) by (cases rule: worker_step_cases) (use that(2) in auto)
  then show ?case
    using 2 by (cases "worker_step d c s") simp_all
qed simp

lemma worker_run_settled:
  assumes "list_all (\<lambda>w. healthy (fst w)) ws" and "db_open (db s)"
  shows "settled (worker_run ws s) = settled s \<and> bwsys.more (worker_run ws s) = bwsys.more s
    \<and> db_open (db (worker_run ws s))"
  using assms
proof (induction ws s rule: worker_run.induct)
  case (2 d c ws s)
  show ?case
  proof (cases "worker_step d c s")
    case (Some s')
    then show ?thesis
      using 2 worker_step_healthy [OF Some] worker_step_frame [OF Some] by simp
  qed (use 2 in simp)
qed simp

section \<open>Properties\<close>

text \<open>
  The process never panics on its way down. From a start-up on, whatever the interleaving of
  \<^verbatim>\<open>main\<close>, raft, the worker and the cleaner, no channel is closed twice, the stop channels are
  closed exactly when \<^verbatim>\<open>main\<close> has passed their call, and the database exactly at the end.
\<close>

lemma shutdown_never_panics:
  assumes "startup getenv d disk nid = Up f"
  shows "\<exists>m. sys_run unm es (booted f) = Some m
    \<and> (dd_stopped (fsm_dedup (m_fsm m)) \<longleftrightarrow> NoDedup \<le> m_pc m)
    \<and> (stop_closed (m_fsm m) \<longleftrightarrow> NoWriter \<le> m_pc m)
    \<and> (db_open (db (m_fsm m)) \<longleftrightarrow> m_pc m < Down)"
  using sys_run_inv [OF booted_inv [OF assms]] by (simp add: machine_inv_def)

text \<open>
  C29: A shutdown that waits loses nothing. After any run that starts on an empty disk, with increasing
  indices, if every call of the database succeeds, before the writer's \<^verbatim>\<open>Stop\<close> and after it, no
  entry is applied after the \<^verbatim>\<open>Stop\<close>, and the worker leaves before the database is
  closed, then a restart on the table that is left gives the map readers last saw.
\<close>

theorem orderly_shutdown_persists:
  assumes up: "startup getenv d None nid = Up f0"
    and run: "sorted_wrt (<) (map log_Index (applied evs))" "list_all event_healthy evs"
    and stop: "Stop (node_run unm evs f0) = Some f1"
    and work: "list_all (\<lambda>w. healthy (fst w)) ws" "wpc (worker_run ws f1) = Exited"
    and alive: "wpc (node_run unm evs f0) \<noteq> Exited"
    and boot: "startup getenv' d' (Some (tbl (Close (db (worker_run ws f1))))) nid = Up g0"
  shows "fsm_kv g0 = fsm_kv (worker_run ws f1)"
proof (rule KV_eqI)
  let ?f = "node_run unm evs f0" and ?z = "worker_run ws f1"
  have f1: "f1 = ?f\<lparr>stop_closed := True\<rparr>"
    using stop by (auto simp: Stop_def split: if_splits)
  note co = healthy_run [OF up run, of unm]
  have open1: "db_open (db f1)"
    using co(1) by (simp add: f1 bw_good_def)
  note z = worker_run_settled [OF work(1) open1]
  have "settled ?z = settled ?f"
    using z by (simp add: f1)
  moreover have "fsm_kv ?z = fsm_kv ?f"
    using z fsm_more_eq(1) [of ?z f1] by (simp add: f1)
  moreover have "tbl (db ?z) = settled ?z"
    using worker_run_exited [OF _ work(2)] alive settled_idle [of ?z] by (simp add: f1)
  ultimately have "kv_data (fsm_kv ?z) = replay_map (tbl (db ?z))"
    using co(2) by (simp add: coherent_def)
  then show "kv_data (fsm_kv g0) = kv_data (fsm_kv ?z)"
    using startup_Up(6) [OF boot] by (simp add: Close_def)
qed

text \<open>The first entry of the examples is still queued when the signal comes.\<close>

definition ex_busy :: "node_event list" where
  "ex_busy = [NApply (ex_log 1 ''1'') (ex_at 0)]"

lemma ex_busy_run:
  "node_run ex_unm ex_busy (ex_node []) = after_put (ex_at 0) 1 (ex_put ''v1'' ''a'') (ex_node [])"
  by (simp add: ex_busy_def Apply_put ex_unm_def ex_log_def IsDuplicate_def dedup_New_def ex_put_def)

lemma ex_busy_state:
  "ch (after_put (ex_at 0) 1 (ex_put ''v1'' ''a'') (ex_node [])) = [entry_for 1 (ex_put ''v1'' ''a'')]"
  "batch (after_put (ex_at 0) 1 (ex_put ''v1'' ''a'') (ex_node [])) = []"
  "db (after_put (ex_at 0) 1 (ex_put ''v1'' ''a'') (ex_node [])) = \<lparr>tbl = [], db_open = True\<rparr>"
  "wpc (after_put (ex_at 0) 1 (ex_put ''v1'' ''a'') (ex_node [])) = Running"
  "\<not> stop_closed (after_put (ex_at 0) 1 (ex_put ''v1'' ''a'') (ex_node []))"
  by (simp_all add: after_put_def Send_room enqueue_def Let_def ex_at_def)

lemma ex_busy_ok: "sorted_wrt (<) (map log_Index (applied ex_busy))" "list_all event_healthy ex_busy"
  by (simp_all add: ex_busy_def ex_defs env_healthy_def send_env_def)

theorem orderly_shutdown_persists_witness:
  "let f1 = (node_run ex_unm ex_busy (ex_node []))\<lparr>stop_closed := True\<rparr>;
       z = worker_run [(no_fault, WStop), (no_fault, WDrain), (no_fault, WDrain)] f1
   in fsm_kv (ex_node [ex_row]) = fsm_kv z"
proof -
  let ?f = "node_run ex_unm ex_busy (ex_node [])"
  let ?ws = "[(no_fault, WStop), (no_fault, WDrain), (no_fault, WDrain)]"
  let ?z = "worker_run ?ws (?f\<lparr>stop_closed := True\<rparr>)"
  have z: "wpc ?z = Exited" "tbl (db ?z) = [ex_row]"
    by (simp_all add: ex_busy_run ex_busy_state flush_healthy insert_or_ignore_def ex_row_def)
      (simp add: ex_put_def)
  have up: "startup no_env no_fault None ''node1'' = Up (ex_node [])"
      "startup no_env no_fault (Some (tbl (Close (db ?z)))) ''node1'' = Up (ex_node [ex_row])"
    using z by (simp_all add: ex_startup Close_def)
  have s: "Stop ?f = Some (?f\<lparr>stop_closed := True\<rparr>)"
    by (simp add: Stop_def ex_busy_run ex_busy_state)
  show ?thesis
    using orderly_shutdown_persists [OF up(1) ex_busy_ok s _ z(1) _ up(2)]
    by (simp add: ex_busy_run ex_busy_state Let_def)
qed

text \<open>
  C38: The shutdown of the code does not wait. \<^verbatim>\<open>Stop\<close> returns at once, so \<^verbatim>\<open>main\<close> can shut raft
  down and close the database before the worker takes another step: the process then ends
  cleanly with the table as it was at the \<^verbatim>\<open>Stop\<close>, and nothing that was queued is ever written.
\<close>

theorem shutdown_can_strand:
  assumes "machine_inv m" and "m_pc m = NoDedup"
  shows "\<exists>m'. sys_run unm ([EMain, EMain, EMain] @ es) m = Some m' \<and> m_pc m' = Down
    \<and> tbl (db (m_fsm m')) = tbl (db (m_fsm m))"
proof -
  let ?m3 = "m\<lparr>m_fsm := (m_fsm m)\<lparr>stop_closed := True, db := Close (db (m_fsm m))\<rparr>, m_pc := Down\<rparr>"
  have run3: "sys_run unm [EMain, EMain, EMain] m = Some ?m3"
    using assms by (simp add: main_step.simps Stop_def machine_inv_def stage_defs)
  then have inv: "machine_inv ?m3"
    using sys_run_inv [OF assms(1), of unm "[EMain, EMain, EMain]"] by simp
  obtain m' where m': "sys_run unm es ?m3 = Some m'"
    using sys_run_inv [OF inv] by blast
  have "m_pc m' = Down \<and> tbl (db (m_fsm m')) = tbl (db (m_fsm m))"
    using sys_run_down [OF inv _ m'] by (simp add: Close_def)
  then show ?thesis
    using run3 m' unfolding sys_run_append by simp
qed

theorem shutdown_can_strand_witness:
  "\<exists>m'. sys_run ex_unm ([EMain, EMain, EMain] @ [ENode (NWork no_fault WStop), ENode (NWork no_fault WDrain)])
     \<lparr>m_fsm = (ex_node [])\<lparr>ch := [entry_for 1 (ex_put ''v1'' ''a'')],
        fsm_dedup := (dedup_New no_env)\<lparr>dd_stopped := True\<rparr>\<rparr>, m_pc = NoDedup, m_cleaner = True\<rparr> = Some m'
   \<and> m_pc m' = Down \<and> tbl (db (m_fsm m')) = []"
  using shutdown_can_strand [of "\<lparr>m_fsm = (ex_node [])\<lparr>ch := [entry_for 1 (ex_put ''v1'' ''a'')],
        fsm_dedup := (dedup_New no_env)\<lparr>dd_stopped := True\<rparr>\<rparr>, m_pc = NoDedup, m_cleaner = True\<rparr>" ex_unm
      "[ENode (NWork no_fault WStop), ENode (NWork no_fault WDrain)]"]
  by (simp add: machine_inv_def stage_defs del: sys_run.simps append.simps)

text \<open>
  Raft outlives the writer. An entry applied after the worker has left, while the channel has
  room, is acknowledged and visible to readers, and no later step of the worker writes it.
\<close>

lemma apply_after_writer_exit:
  assumes "wpc f = Exited" and "length (ch f) < chan_cap f"
    and "unm (log_Data l) = Inr c" and "cmd_Op c = ''put''"
    and "\<not> IsDuplicate (cmd_IdempotencyKey c) (fsm_dedup f)"
  shows "snd (Apply unm env l f) = \<lparr>ar_Error = []\<rparr>
    \<and> kv_Get (cmd_Key c) (fsm_kv (fst (Apply unm env l f))) = (cmd_Value c, True)
    \<and> tbl (db (worker_run ws (fst (Apply unm env l f)))) = tbl (db f)"
proof -
  let ?g = "after_put env (log_Index l) c f"
  have g: "db ?g = db f" "wpc ?g = Exited"
    using assms(1,2) by (simp_all add: after_put_def Let_def Send_room enqueue_def)
  have "worker_run ws s = s" if "wpc s = Exited" for s :: FSM
    using that
  proof (induction ws s rule: worker_run.induct)
    case (2 d w ws s)
    then show ?case by (cases w) simp_all
  qed simp
  then show ?thesis
    using assms(3-5) g by (simp add: Apply_put kv_Get_def)
qed

end
