(* ===== verification/Cluster.thy ===== *)
theory Cluster
  imports Prelude Env
begin

text \<open>
  \<^verbatim>\<open>config/config.go\<close> and \<^verbatim>\<open>cluster/raft.go\<close>: the configuration of a node, the construction of
  its raft instance, and the questions the HTTP server asks it.

  \<^verbatim>\<open>hashicorp/raft\<close> and the file system are parameters. A construction step is a value of
  \<open>setup_call\<close>, with the arguments the code passes; \<open>outcome\<close> says for each call whether it
  fails. Afterwards, \<open>LeaderWithID\<close> is the pair the library reports at the moment it is asked.
\<close>

section \<open>Configuration\<close>

record Peer =
  peer_ID :: string
  peer_RaftAddr :: string

record NodeConfig =
  nc_NodeID :: string
  nc_RaftAddr :: string
  nc_HTTPAddr :: string
  nc_DataDir :: string
  nc_Peers :: "Peer list"
  nc_Bootstrap :: bool

definition DefaultClusterPeers :: "Peer list" where
  "DefaultClusterPeers =
     [\<lparr>peer_ID = ''node1'', peer_RaftAddr = ''127.0.0.1:7001''\<rparr>,
      \<lparr>peer_ID = ''node2'', peer_RaftAddr = ''127.0.0.1:7002''\<rparr>,
      \<lparr>peer_ID = ''node3'', peer_RaftAddr = ''127.0.0.1:7003''\<rparr>]"

text \<open>The fields of \<^verbatim>\<open>raft.Config\<close> the code sets; the rest keep the library's defaults.\<close>

record raft_Config =
  rc_LocalID :: string
  rc_HeartbeatTimeout :: duration
  rc_ElectionTimeout :: duration
  rc_LeaderLeaseTimeout :: duration
  rc_CommitTimeout :: duration
  rc_MaxAppendEntries :: int

definition raft_config :: "raft_Config \<Rightarrow> NodeConfig \<Rightarrow> raft_Config" where
  "raft_config dflt cfg =
     dflt\<lparr>rc_LocalID := nc_NodeID cfg,
             rc_HeartbeatTimeout := times_unit 500 millisecond,
             rc_ElectionTimeout := times_unit 1000 millisecond,
             rc_LeaderLeaseTimeout := times_unit 500 millisecond,
             rc_CommitTimeout := times_unit 50 millisecond,
             rc_MaxAppendEntries := 256\<rparr>"

text \<open>
  The configuration \<^verbatim>\<open>main\<close> reads: a flag that is given, else the environment variable, else the
  default. \<open>None\<close> is the fatal exit for a node without a name.
\<close>

record flags =
  fl_id :: "string option"
  fl_raft :: "string option"
  fl_http :: "string option"
  fl_data :: "string option"
  fl_bootstrap :: "bool option"

definition flag_value :: "'a option \<Rightarrow> 'a \<Rightarrow> 'a" where
  "flag_value fl dflt = (case fl of Some v \<Rightarrow> v | None \<Rightarrow> dflt)"

definition main_config :: "environment \<Rightarrow> flags \<Rightarrow> NodeConfig option" where
  "main_config getenv fl =
     (let nodeID = flag_value (fl_id fl) (envOr getenv ''NODE_ID'' []);
          raftAddr = flag_value (fl_raft fl) (envOr getenv ''RAFT_ADDR'' ''127.0.0.1:7001'');
          httpAddr = flag_value (fl_http fl) (envOr getenv ''HTTP_ADDR'' ''127.0.0.1:8001'');
          dataDir = flag_value (fl_data fl) (envOr getenv ''DATA_DIR'' ''./data/node1'');
          bootstrap = flag_value (fl_bootstrap fl) (getenv ''BOOTSTRAP'' = ''true'')
      in if nodeID = [] then None
         else Some \<lparr>nc_NodeID = nodeID, nc_RaftAddr = raftAddr, nc_HTTPAddr = httpAddr,
                    nc_DataDir = dataDir, nc_Peers = DefaultClusterPeers, nc_Bootstrap = bootstrap\<rparr>)"

section \<open>Paths\<close>

text \<open>\<^verbatim>\<open>filepath.Clean\<close> and \<^verbatim>\<open>filepath.Join\<close> of two elements, with the separator of Unix.\<close>

fun split_slash :: "string \<Rightarrow> string \<Rightarrow> string list" where
  "split_slash acc [] = [rev acc]"
| "split_slash acc (c # cs) =
     (if c = CHR ''/'' then rev acc # split_slash [] cs else split_slash (c # acc) cs)"

fun clean_step :: "bool \<Rightarrow> string \<Rightarrow> string list \<Rightarrow> string list" where
  "clean_step rooted e out =
     (if e = [] \<or> e = ''.'' then out
      else if e = ''..'' then
        (case out of
           [] \<Rightarrow> if rooted then [] else [e]
         | x # xs \<Rightarrow> if x = ''..'' then e # out else xs)
      else e # out)"

fun join_slash :: "string list \<Rightarrow> string" where
  "join_slash [] = []"
| "join_slash [x] = x"
| "join_slash (x # xs) = x @ ''/'' @ join_slash xs"

definition path_Clean :: "string \<Rightarrow> string" where
  "path_Clean p =
     (let rooted = (p \<noteq> [] \<and> hd p = CHR ''/'');
          body = join_slash (rev (fold (clean_step rooted) (split_slash [] p) []))
      in if rooted then ''/'' @ body else if body = [] then ''.'' else body)"

definition path_Join :: "string \<Rightarrow> string \<Rightarrow> string" where
  "path_Join a b =
     (if a = [] \<and> b = [] then []
      else if a = [] then path_Clean b
      else if b = [] then path_Clean a
      else path_Clean (a @ ''/'' @ b))"

section \<open>Construction\<close>

text \<open>The errors of the library that the code tells apart by identity, and all others.\<close>

datatype raft_err = ErrNotLeader | ErrCantBootstrap | OtherErr string

definition err_text :: "raft_err \<Rightarrow> string" where
  "err_text e =
     (case e of
        ErrNotLeader \<Rightarrow> ''node is not the leader''
      | ErrCantBootstrap \<Rightarrow> ''bootstrap only works on new clusters''
      | OtherErr s \<Rightarrow> s)"

datatype setup_call =
    ResolveTCPAddr string
  | NewTCPTransport string nat duration
  | MkdirAll string
  | NewBoltStore string
  | NewFileSnapshotStore string nat
  | NewRaft raft_Config
  | BootstrapCluster "(string \<times> string) list"

record RaftNode =
  rn_NodeID :: string
  rn_HTTPAddr :: string

type_synonym outcome = "setup_call \<Rightarrow> raft_err option"

text \<open>One call: its failure ends the construction with the wrapped error.\<close>

definition try_call ::
    "outcome \<Rightarrow> setup_call \<Rightarrow> string \<Rightarrow> setup_call list \<times> (string + 'a)
       \<Rightarrow> setup_call list \<times> (string + 'a)" where
  "try_call oc c msg rest =
     (case oc c of
        Some e \<Rightarrow> ([c], Inl (msg @ '': '' @ err_text e))
      | None \<Rightarrow> (c # fst rest, snd rest))"

definition cluster_New ::
    "raft_Config \<Rightarrow> outcome \<Rightarrow> NodeConfig \<Rightarrow> setup_call list \<times> (string + RaftNode)" where
  "cluster_New dflt oc cfg =
     (let rn = \<lparr>rn_NodeID = nc_NodeID cfg, rn_HTTPAddr = nc_HTTPAddr cfg\<rparr>;
          servers = map (\<lambda>p. (peer_ID p, peer_RaftAddr p)) (nc_Peers cfg);
          bootstrap =
            (if nc_Bootstrap cfg then
               (case oc (BootstrapCluster servers) of
                  Some e \<Rightarrow>
                    (if e \<noteq> ErrCantBootstrap then
                       ([BootstrapCluster servers], Inl (''bootstrap cluster: '' @ err_text e))
                     else ([BootstrapCluster servers], Inr rn))
                | None \<Rightarrow> ([BootstrapCluster servers], Inr rn))
             else ([], Inr rn))
      in try_call oc (ResolveTCPAddr (nc_RaftAddr cfg)) (''resolve raft addr '' @ nc_RaftAddr cfg)
        (try_call oc (NewTCPTransport (nc_RaftAddr cfg) 3 (times_unit 10 second)) ''create TCP transport''
        (try_call oc (MkdirAll (nc_DataDir cfg)) ''create data dir''
        (try_call oc (NewBoltStore (path_Join (nc_DataDir cfg) ''raft.db'')) ''create boltdb store''
        (try_call oc (NewFileSnapshotStore (nc_DataDir cfg) 2) ''create snapshot store''
        (try_call oc (NewRaft (raft_config dflt cfg)) ''create raft'' bootstrap))))))"

section \<open>A running node\<close>

type_synonym leader_id = "string \<times> string"

definition IsLeader :: "leader_id \<Rightarrow> RaftNode \<Rightarrow> bool" where
  "IsLeader ld rn \<longleftrightarrow> snd ld = rn_NodeID rn"

text \<open>A lookup in a Go map gives the empty string for a key that is absent.\<close>

definition go_lookup :: "(string \<rightharpoonup> string) \<Rightarrow> string \<Rightarrow> string" where
  "go_lookup m k = (case m k of Some v \<Rightarrow> v | None \<Rightarrow> [])"

definition LeaderHTTPAddr :: "leader_id \<Rightarrow> Peer list \<Rightarrow> (string \<rightharpoonup> string) \<Rightarrow> string" where
  "LeaderHTTPAddr ld peers httpAddrs =
     (if fst ld = [] then [] else go_lookup httpAddrs (snd ld))"

text \<open>\<open>fut\<close> is the error of the future that \<^verbatim>\<open>raft.Apply\<close> returns.\<close>

definition cluster_Apply :: "raft_err option \<Rightarrow> bool \<times> go_error" where
  "cluster_Apply fut =
     (case fut of
        Some e \<Rightarrow> (if e = ErrNotLeader then (False, None) else (False, Some (''raft apply: '' @ err_text e)))
      | None \<Rightarrow> (True, None))"

text \<open>The three answers are told apart.\<close>

lemma cluster_Apply_cases:
  "(fst (cluster_Apply fut) \<longleftrightarrow> fut = None)
   \<and> (cluster_Apply fut = (False, None) \<longleftrightarrow> fut = Some ErrNotLeader)
   \<and> (snd (cluster_Apply fut) \<noteq> None \<longleftrightarrow> fut \<noteq> None \<and> fut \<noteq> Some ErrNotLeader)"
  by (auto simp: cluster_Apply_def split: option.splits)

text \<open>The map from node to HTTP address that \<^verbatim>\<open>main.go\<close> builds.\<close>

definition main_httpAddrs :: "string \<rightharpoonup> string" where
  "main_httpAddrs =
     [''node1'' \<mapsto> ''127.0.0.1:8001'', ''node2'' \<mapsto> ''127.0.0.1:8002'', ''node3'' \<mapsto> ''127.0.0.1:8003'']"

section \<open>Properties\<close>

text \<open>The calls of a construction in which nothing fails, in order.\<close>

definition setup_calls :: "raft_Config \<Rightarrow> NodeConfig \<Rightarrow> setup_call list" where
  "setup_calls dflt cfg =
     [ResolveTCPAddr (nc_RaftAddr cfg), NewTCPTransport (nc_RaftAddr cfg) 3 (times_unit 10 second),
      MkdirAll (nc_DataDir cfg), NewBoltStore (path_Join (nc_DataDir cfg) ''raft.db''),
      NewFileSnapshotStore (nc_DataDir cfg) 2, NewRaft (raft_config dflt cfg)]
     @ (if nc_Bootstrap cfg then [BootstrapCluster (map (\<lambda>p. (peer_ID p, peer_RaftAddr p)) (nc_Peers cfg))]
        else [])"

text \<open>A call ends the construction when it fails, except a bootstrap of a known cluster.\<close>

definition fatal :: "outcome \<Rightarrow> setup_call \<Rightarrow> bool" where
  "fatal oc c \<longleftrightarrow>
     (case c of
        BootstrapCluster ss \<Rightarrow> oc c \<noteq> None \<and> oc c \<noteq> Some ErrCantBootstrap
      | _ \<Rightarrow> oc c \<noteq> None)"

fun upto_fatal :: "outcome \<Rightarrow> setup_call list \<Rightarrow> setup_call list" where
  "upto_fatal oc [] = []"
| "upto_fatal oc (c # cs) = (if fatal oc c then [c] else c # upto_fatal oc cs)"

text \<open>A construction described by the list of its calls and the node it would give.\<close>

definition describes ::
    "outcome \<Rightarrow> setup_call list \<Rightarrow> RaftNode \<Rightarrow> setup_call list \<times> (string + RaftNode) \<Rightarrow> bool" where
  "describes oc cs rn r \<longleftrightarrow>
     fst r = upto_fatal oc cs
     \<and> (if list_all (\<lambda>c. \<not> fatal oc c) cs then snd r = Inr rn else \<exists>msg. snd r = Inl msg)"

lemma describes_try:
  assumes "fatal oc c \<longleftrightarrow> oc c \<noteq> None" and "describes oc cs rn rest"
  shows "describes oc (c # cs) rn (try_call oc c msg rest)"
  using assms by (cases "oc c") (simp_all add: describes_def try_call_def)

lemma cluster_New_describes:
  "describes oc (setup_calls dflt cfg) \<lparr>rn_NodeID = nc_NodeID cfg, rn_HTTPAddr = nc_HTTPAddr cfg\<rparr>
     (cluster_New dflt oc cfg)"
  unfolding cluster_New_def setup_calls_def Let_def append_Cons append_Nil
  by (intro describes_try) (simp_all add: fatal_def, auto simp: describes_def fatal_def split: option.splits)

text \<open>
  Construction of a node makes its calls in one order and stops at the first that fails; it
  gives a node exactly when none fails. Only the answer that the cluster was bootstrapped before
  is tolerated, so that a node restarted with the bootstrap flag comes up.
\<close>

lemma cluster_New_outcome:
  "fst (cluster_New dflt oc cfg) = upto_fatal oc (setup_calls dflt cfg)
   \<and> ((\<exists>rn. snd (cluster_New dflt oc cfg) = Inr rn) \<longleftrightarrow> list_all (\<lambda>c. \<not> fatal oc c) (setup_calls dflt cfg))
   \<and> (\<forall>rn. snd (cluster_New dflt oc cfg) = Inr rn \<longrightarrow> rn_NodeID rn = nc_NodeID cfg \<and> rn_HTTPAddr rn = nc_HTTPAddr cfg)"
  using cluster_New_describes [of oc dflt cfg] by (auto simp: describes_def split: if_splits)

text \<open>A restart of the first node, on which the bootstrap is refused as done.\<close>

definition ex_cfg :: NodeConfig where
  "ex_cfg =
     \<lparr>nc_NodeID = ''node1'', nc_RaftAddr = ''127.0.0.1:7001'', nc_HTTPAddr = ''127.0.0.1:8001'',
      nc_DataDir = ''./data/node1'', nc_Peers = DefaultClusterPeers, nc_Bootstrap = True\<rparr>"

definition ex_default :: raft_Config where
  "ex_default =
     \<lparr>rc_LocalID = [], rc_HeartbeatTimeout = second, rc_ElectionTimeout = second,
      rc_LeaderLeaseTimeout = times_unit 500 millisecond, rc_CommitTimeout = times_unit 50 millisecond,
      rc_MaxAppendEntries = 64\<rparr>"

definition ex_outcome :: outcome where
  "ex_outcome c = (case c of BootstrapCluster ss \<Rightarrow> Some ErrCantBootstrap | _ \<Rightarrow> None)"

text \<open>What \<^verbatim>\<open>raft.ValidateConfig\<close> documents about the fields the code sets.\<close>

definition valid_raft_config :: "raft_Config \<Rightarrow> bool" where
  "valid_raft_config c \<longleftrightarrow>
     rc_LocalID c \<noteq> [] \<and> 5000000 \<le> sint (rc_HeartbeatTimeout c) \<and> 5000000 \<le> sint (rc_ElectionTimeout c)
     \<and> 1000000 \<le> sint (rc_CommitTimeout c) \<and> 0 < rc_MaxAppendEntries c \<and> rc_MaxAppendEntries c \<le> 1024
     \<and> 5000000 \<le> sint (rc_LeaderLeaseTimeout c)
     \<and> sint (rc_LeaderLeaseTimeout c) \<le> sint (rc_HeartbeatTimeout c)
     \<and> sint (rc_HeartbeatTimeout c) \<le> sint (rc_ElectionTimeout c)"

text \<open>
  The raft configuration respects the constraints of the library, whatever its defaults: the
  leader's lease ends no later than a heartbeat timeout, and that no later than an election. The
  timeouts are 500 and 1000 milliseconds, and a node without a name is the only one refused.
\<close>

lemma raft_config_valid:
  "(valid_raft_config (raft_config dflt cfg) \<longleftrightarrow> nc_NodeID cfg \<noteq> [])
   \<and> sint (rc_HeartbeatTimeout (raft_config dflt cfg)) = 500 * 1000000
   \<and> sint (rc_ElectionTimeout (raft_config dflt cfg)) = 1000 * 1000000"
  by (simp add: valid_raft_config_def raft_config_def times_unit_def millisecond_def)

text \<open>So every configuration \<^verbatim>\<open>main\<close> accepts is accepted by raft, and names a node.\<close>

lemma main_config_valid:
  "main_config getenv fl = Some cfg \<Longrightarrow> valid_raft_config (raft_config dflt cfg) \<and> nc_Peers cfg = DefaultClusterPeers"
  by (auto simp: main_config_def raft_config_valid Let_def split: if_splits)

text \<open>
  Leader resolution. Whichever peer of the default cluster the library names as leader, that
  node and no other takes itself for the leader, and every node resolves it to an address that
  belongs to no other peer; while there is no leader no named node is one, and none resolves.
\<close>

lemma leader_resolution:
  assumes "p \<in> set DefaultClusterPeers" and "q \<in> set DefaultClusterPeers" and "addr \<noteq> []"
  shows "LeaderHTTPAddr (addr, peer_ID p) DefaultClusterPeers main_httpAddrs \<noteq> []
    \<and> (LeaderHTTPAddr (addr, peer_ID p) DefaultClusterPeers main_httpAddrs
         = LeaderHTTPAddr (addr, peer_ID q) DefaultClusterPeers main_httpAddrs \<longleftrightarrow> p = q)
    \<and> (IsLeader (addr, peer_ID p) \<lparr>rn_NodeID = peer_ID q, rn_HTTPAddr = h\<rparr> \<longleftrightarrow> p = q)
    \<and> \<not> IsLeader ([], []) \<lparr>rn_NodeID = peer_ID q, rn_HTTPAddr = h\<rparr>
    \<and> LeaderHTTPAddr ([], []) DefaultClusterPeers main_httpAddrs = []"
  using assms by (auto simp: DefaultClusterPeers_def LeaderHTTPAddr_def go_lookup_def main_httpAddrs_def IsLeader_def)

end
