(* ===== verification/Server.thy ===== *)
theory Server
  imports Prelude Env KV Metrics Report Cluster FSM
begin

text \<open>
  \<^verbatim>\<open>server/http.go\<close> and \<^verbatim>\<open>server/forward.go\<close>: the HTTP handlers of a node and the forwarding of
  writes to the leader.

  A handler is a function of the request, of what its surroundings answer while it runs (the
  leader raft reports at each question, the future of \<^verbatim>\<open>raft.Apply\<close>, the answers of the HTTP
  client), and of the effects so far. The JSON codec is a parameter, with \<open>Inl\<close> its error; the
  theory \<^verbatim>\<open>Codec\<close> has the instance the program uses.
\<close>

section \<open>Data\<close>

record PutRequest =
  pr_Key :: string
  pr_Value :: string
  pr_IdempotencyKey :: string

record Request =
  rq_Method :: string
  rq_QueryKey :: string
  rq_Body :: string

record Response =
  rs_Status :: nat
  rs_ContentType :: string
  rs_Body :: string

record Server =
  sv_node :: RaftNode
  sv_kv :: KV
  sv_peers :: "Peer list"
  sv_httpAddrs :: "string \<rightharpoonup> string"

definition maxConcurrent :: nat where "maxConcurrent = 256"

record codec =
  cd_dec_put :: "string \<Rightarrow> string + PutRequest"
  cd_enc_put :: "PutRequest \<Rightarrow> string + string"
  cd_enc_cmd :: "Command \<Rightarrow> string + string"

text \<open>An answer of the HTTP client: no connection, or a status and a body.\<close>

datatype http_answer = ConnErr string | Answer nat string

text \<open>
  What one request meets: the answer to its \<open>n\<close>-th question for the leader and to its \<open>n\<close>-th
  POST, the future of its proposal, whether a slot of the semaphore comes free within five
  seconds, and the nanoseconds it took.
\<close>

record surroundings =
  sr_leader :: "nat \<Rightarrow> leader_id"
  sr_post :: "nat \<Rightarrow> http_answer"
  sr_future :: "raft_err option"
  sr_slot :: bool
  sr_nanos :: int64

record effects =
  fx_asked :: nat
  fx_posts :: "(string \<times> string) list"
  fx_slept :: "duration list"
  fx_proposed :: "string list"
  fx_sem :: nat
  fx_mets :: metrics

text \<open>\<^verbatim>\<open>http.Error\<close>, \<^verbatim>\<open>w.WriteHeader(200)\<close> (also what a handler that writes nothing gives), a JSON answer.\<close>

definition http_Error :: "string \<Rightarrow> nat \<Rightarrow> Response" where
  "http_Error msg code =
     \<lparr>rs_Status = code, rs_ContentType = ''text/plain; charset=utf-8'', rs_Body = msg @ [CHR 0x0A]\<rparr>"

definition ok_empty :: Response where
  "ok_empty = \<lparr>rs_Status = 200, rs_ContentType = [], rs_Body = []\<rparr>"

definition ok_json :: "string \<Rightarrow> Response" where
  "ok_json b = \<lparr>rs_Status = 200, rs_ContentType = ''application/json'', rs_Body = b\<rparr>"

text \<open>The dash of the messages, in UTF-8.\<close>

definition em_dash :: string where
  "em_dash = [CHR 0xE2, CHR 0x80, CHR 0x94]"

section \<open>Effects\<close>

definition ask :: "surroundings \<Rightarrow> effects \<Rightarrow> leader_id \<times> effects" where
  "ask sr fx = (sr_leader sr (fx_asked fx), fx\<lparr>fx_asked := fx_asked fx + 1\<rparr>)"

definition go_sleep :: "duration \<Rightarrow> effects \<Rightarrow> effects" where
  "go_sleep d fx = fx\<lparr>fx_slept := fx_slept fx @ [d]\<rparr>"

definition post :: "surroundings \<Rightarrow> string \<Rightarrow> string \<Rightarrow> effects \<Rightarrow> http_answer \<times> effects" where
  "post sr url body fx =
     (sr_post sr (length (fx_posts fx)), fx\<lparr>fx_posts := fx_posts fx @ [(url, body)]\<rparr>)"

section \<open>Forwarding\<close>

text \<open>The client shared by all forwards; a POST that takes longer than its timeout fails.\<close>

record http_Client =
  hc_Timeout :: duration
  hc_MaxIdleConnsPerHost :: nat
  hc_IdleConnTimeout :: duration

definition forwardClient :: http_Client where
  "forwardClient =
     \<lparr>hc_Timeout = times_unit 10 second, hc_MaxIdleConnsPerHost = 8, hc_IdleConnTimeout = times_unit 90 second\<rparr>"

definition maxForwardRetries :: nat where "maxForwardRetries = 3"

definition put_url :: "string \<Rightarrow> string" where
  "put_url addr = ''http://'' @ addr @ ''/put''"

definition connect_error :: "nat \<Rightarrow> string \<Rightarrow> string \<Rightarrow> string" where
  "connect_error attempt addr e =
     ''attempt '' @ Itoa (attempt + 1) @ '': connect to leader '' @ addr @ '': '' @ e"

definition status_error :: "nat \<Rightarrow> nat \<Rightarrow> string \<Rightarrow> string" where
  "status_error attempt code b =
     ''attempt '' @ Itoa (attempt + 1) @ '': leader returned '' @ Itoa code @ '': '' @ b"

text \<open>The loop of \<^verbatim>\<open>forwardToLeader\<close>, over the attempts that are left, with \<^verbatim>\<open>lastErr\<close>.\<close>

fun post_attempts ::
    "surroundings \<Rightarrow> string \<Rightarrow> string \<Rightarrow> nat list \<Rightarrow> go_error \<Rightarrow> effects \<Rightarrow> go_error \<times> effects" where
  "post_attempts sr addr body [] lastErr fx = (lastErr, fx)"
| "post_attempts sr addr body (attempt # rest) lastErr fx =
     (let fx1 = (if 0 < attempt then go_sleep (times_unit (int attempt * 100) millisecond) fx else fx)
      in case post sr (put_url addr) body fx1 of
           (ConnErr e, fx2) \<Rightarrow>
             post_attempts sr addr body rest
               (Some (connect_error attempt addr e)) fx2
         | (Answer code b, fx2) \<Rightarrow>
             (if code = 200 then (None, fx2)
              else (Some (status_error attempt code b), fx2)))"

definition forwardToLeader ::
    "codec \<Rightarrow> surroundings \<Rightarrow> string \<Rightarrow> PutRequest \<Rightarrow> effects \<Rightarrow> go_error \<times> effects" where
  "forwardToLeader cd sr addr req fx =
     (if addr = [] then (Some (''no leader elected yet '' @ em_dash @ '' try again shortly''), fx)
      else case cd_enc_put cd req of
             Inl e \<Rightarrow> (Some (''marshal forward request: '' @ e), fx)
           | Inr body \<Rightarrow> post_attempts sr addr body [0..<maxForwardRetries] None fx)"

definition forward_tries :: nat where "forward_tries = 3"

text \<open>The loop of \<^verbatim>\<open>forwardWithRetry\<close>, over the values of \<^verbatim>\<open>i\<close> that are left.\<close>

fun forward_loop ::
    "codec \<Rightarrow> surroundings \<Rightarrow> Server \<Rightarrow> PutRequest \<Rightarrow> nat list \<Rightarrow> effects \<Rightarrow> Response \<times> effects" where
  "forward_loop cd sr s req [] fx = (ok_empty, fx)"
| "forward_loop cd sr s req (i # rest) fx =
     (let (ld, fx1) = ask sr fx;
          leaderHTTP = LeaderHTTPAddr ld (sv_peers s) (sv_httpAddrs s);
          (_, fx2) = ask sr fx1
      in if leaderHTTP = [] then
           (if i < forward_tries - 1 then
              forward_loop cd sr s req rest (go_sleep (times_unit 150 millisecond) fx2)
            else (http_Error (''no leader elected '' @ em_dash @ '' try again shortly'') 503, fx2))
         else
           (case forwardToLeader cd sr leaderHTTP req fx2 of
              (Some err, fx3) \<Rightarrow>
                (if i < forward_tries - 1 then
                   forward_loop cd sr s req rest (go_sleep (times_unit 100 millisecond) fx3)
                 else (http_Error (''forward error: '' @ err) 502, fx3))
            | (None, fx3) \<Rightarrow> (ok_empty, fx3)))"

definition forwardWithRetry ::
    "codec \<Rightarrow> surroundings \<Rightarrow> Server \<Rightarrow> PutRequest \<Rightarrow> effects \<Rightarrow> Response \<times> effects" where
  "forwardWithRetry cd sr s req fx = forward_loop cd sr s req [0..<forward_tries] fx"

section \<open>PUT\<close>

definition put_command :: "PutRequest \<Rightarrow> Command" where
  "put_command req =
     \<lparr>cmd_Op = ''put'', cmd_Key = pr_Key req, cmd_Value = pr_Value req,
      cmd_IdempotencyKey = pr_IdempotencyKey req\<rparr>"

definition applyAsLeader ::
    "codec \<Rightarrow> surroundings \<Rightarrow> Server \<Rightarrow> PutRequest \<Rightarrow> effects \<Rightarrow> Response \<times> effects" where
  "applyAsLeader cd sr s req fx =
     (case cd_enc_cmd cd (put_command req) of
        Inl e \<Rightarrow> (http_Error ''encode error'' 500, fx)
      | Inr data \<Rightarrow>
          (let fx1 = fx\<lparr>fx_proposed := fx_proposed fx @ [data]\<rparr>;
               (applied, err) = cluster_Apply (sr_future sr)
           in case err of
                Some e \<Rightarrow>
                  (http_Error (''raft apply: '' @ e) 500, fx1\<lparr>fx_mets := RecordError (fx_mets fx1)\<rparr>)
              | None \<Rightarrow>
                  (if \<not> applied then
                     let fx2 = snd (ask sr fx1);
                         fx3 = fx2\<lparr>fx_mets := RecordForward (fx_mets fx2)\<rparr>
                     in forwardWithRetry cd sr s req fx3
                   else (ok_empty, fx1))))"

text \<open>The part of \<^verbatim>\<open>handlePut\<close> that holds a slot.\<close>

definition put_body ::
    "codec \<Rightarrow> surroundings \<Rightarrow> Server \<Rightarrow> Request \<Rightarrow> effects \<Rightarrow> Response \<times> effects" where
  "put_body cd sr s rq fx =
     (case cd_dec_put cd (rq_Body rq) of
        Inl e \<Rightarrow> (http_Error (''bad request: '' @ e) 400, fx)
      | Inr req \<Rightarrow>
          (if pr_Key req = [] then (http_Error ''key is required'' 400, fx)
           else if pr_IdempotencyKey req = [] then (http_Error ''idempotency_key is required'' 400, fx)
           else
             let (ld, fx1) = ask sr fx
             in if \<not> IsLeader ld (sv_node s) then
                  forwardWithRetry cd sr s req (fx1\<lparr>fx_mets := RecordForward (fx_mets fx1)\<rparr>)
                else applyAsLeader cd sr s req fx1))"

text \<open>
  \<^verbatim>\<open>handlePut\<close> with its two deferred calls: the slot is given back, and then the latency is
  recorded, whatever the outcome. \<open>None\<close> is a panic of the recorder.
\<close>

definition handlePut ::
    "codec \<Rightarrow> surroundings \<Rightarrow> Server \<Rightarrow> Request \<Rightarrow> effects \<Rightarrow> (Response \<times> effects) option" where
  "handlePut cd sr s rq fx =
     (let (rs, fx') =
            (if rq_Method rq \<noteq> ''POST'' then (http_Error ''method not allowed'' 405, fx)
             else if \<not> sr_slot sr then (http_Error ''server overloaded, try again'' 503, fx)
             else
               let (rs, fx1) = put_body cd sr s rq (fx\<lparr>fx_sem := fx_sem fx + 1\<rparr>)
               in (rs, fx1\<lparr>fx_sem := fx_sem fx1 - 1\<rparr>))
      in case Record (sr_nanos sr) (Latency (fx_mets fx')) of
           None \<Rightarrow> None
         | Some t \<Rightarrow> Some (rs, fx'\<lparr>fx_mets := (fx_mets fx')\<lparr>Latency := t\<rparr>\<rparr>))"

section \<open>The other handlers\<close>

type_synonym enc_map = "(string \<rightharpoonup> string) \<Rightarrow> string"

definition handleGet :: "enc_map \<Rightarrow> Server \<Rightarrow> Request \<Rightarrow> Response" where
  "handleGet enc s rq =
     (if rq_Method rq \<noteq> ''GET'' then http_Error ''method not allowed'' 405
      else if rq_QueryKey rq = [] then http_Error ''key query param required'' 400
      else
        (let (value, ok) = kv_Get (rq_QueryKey rq) (sv_kv s)
         in if \<not> ok then http_Error ''key not found'' 404
            else ok_json (enc [''key'' \<mapsto> rq_QueryKey rq, ''value'' \<mapsto> value])))"

text \<open>\<^verbatim>\<open>handleStatus\<close> asks raft twice: \<open>ld1\<close> itself, \<open>ld2\<close> through \<^verbatim>\<open>IsLeader\<close>.\<close>

definition status_map :: "leader_id \<Rightarrow> leader_id \<Rightarrow> Server \<Rightarrow> string \<rightharpoonup> string" where
  "status_map ld1 ld2 s =
     [''node_id'' \<mapsto> rn_NodeID (sv_node s),
      ''role'' \<mapsto> (if IsLeader ld2 (sv_node s) then ''leader'' else ''follower''),
      ''leader_id'' \<mapsto> snd ld1,
      ''leader_raft'' \<mapsto> fst ld1,
      ''leader_http'' \<mapsto> go_lookup (sv_httpAddrs s) (snd ld1)]"

definition handleStatus :: "enc_map \<Rightarrow> leader_id \<Rightarrow> leader_id \<Rightarrow> Server \<Rightarrow> Response" where
  "handleStatus enc ld1 ld2 s = ok_json (enc (status_map ld1 ld2 s))"

definition handleHealth :: "enc_map \<Rightarrow> string \<Rightarrow> Server \<Rightarrow> Response" where
  "handleHealth enc state s =
     ok_json (enc [''status'' \<mapsto> ''ok'', ''node_id'' \<mapsto> rn_NodeID (sv_node s), ''role'' \<mapsto> state])"

definition handleMetrics ::
    "(Snapshot \<Rightarrow> string) \<Rightarrow> instant \<Rightarrow> metrics \<Rightarrow> (Response \<times> metrics) option" where
  "handleMetrics enc now m =
     (case metrics_Get now m of
        None \<Rightarrow> None
      | Some (snap, m') \<Rightarrow> Some (ok_json (enc snap), m'))"

section \<open>What forwarding does to the effects\<close>

text \<open>
  \<open>forwarded\<close> relates the effects before and after a stretch of forwarding: nothing is proposed
  and no counter moves; the POSTs added all carry \<open>body\<close>; at most \<open>np\<close> of them, at most \<open>na\<close>
  questions for the leader and at most \<open>ns\<close> nanoseconds of sleep.
\<close>

definition slept :: "effects \<Rightarrow> int" where
  "slept fx = sum_list (map sint (fx_slept fx))"

definition forwarded :: "codec \<Rightarrow> PutRequest \<Rightarrow> nat \<Rightarrow> nat \<Rightarrow> int \<Rightarrow> effects \<Rightarrow> effects \<Rightarrow> bool" where
  "forwarded cd req np na ns fx fx' \<longleftrightarrow>
     fx_proposed fx' = fx_proposed fx \<and> fx_mets fx' = fx_mets fx \<and> fx_sem fx' = fx_sem fx
     \<and> (\<exists>ps. fx_posts fx' = fx_posts fx @ ps \<and> length ps \<le> np \<and> (\<forall>p \<in> set ps. cd_enc_put cd req = Inr (snd p)))
     \<and> fx_asked fx' \<le> fx_asked fx + na \<and> slept fx' \<le> slept fx + ns"

text \<open>The last POST was answered 200.\<close>

definition acknowledged :: "surroundings \<Rightarrow> effects \<Rightarrow> effects \<Rightarrow> bool" where
  "acknowledged sr fx fx' \<longleftrightarrow>
     length (fx_posts fx) < length (fx_posts fx') \<and> (\<exists>b. sr_post sr (length (fx_posts fx') - 1) = Answer 200 b)"

lemma forwarded_refl: "0 \<le> ns \<Longrightarrow> forwarded cd req np na ns fx fx"
  by (simp add: forwarded_def)

lemma forwarded_trans:
  assumes "forwarded cd req np na ns fx fx1" and "forwarded cd req np' na' ns' fx1 fx2"
  shows "forwarded cd req (np + np') (na + na') (ns + ns') fx fx2"
proof -
  obtain ps where ps: "fx_posts fx1 = fx_posts fx @ ps" "length ps \<le> np"
      "\<forall>p \<in> set ps. cd_enc_put cd req = Inr (snd p)"
    using assms(1) by (auto simp: forwarded_def)
  obtain qs where qs: "fx_posts fx2 = fx_posts fx1 @ qs" "length qs \<le> np'"
      "\<forall>p \<in> set qs. cd_enc_put cd req = Inr (snd p)"
    using assms(2) by (auto simp: forwarded_def)
  have "fx_posts fx2 = fx_posts fx @ (ps @ qs)" "length (ps @ qs) \<le> np + np'"
      "\<forall>p \<in> set (ps @ qs). cd_enc_put cd req = Inr (snd p)"
    using ps qs by auto
  then show ?thesis
    using assms unfolding forwarded_def by fastforce
qed

lemma forwarded_mono:
  "forwarded cd req np na ns fx fx' \<Longrightarrow> np \<le> np' \<Longrightarrow> na \<le> na' \<Longrightarrow> ns \<le> ns' \<Longrightarrow> forwarded cd req np' na' ns' fx fx'"
  unfolding forwarded_def by (meson add_left_mono le_trans order.trans)

lemma forwarded_ask: "forwarded cd req 0 1 0 fx (snd (ask sr fx))"
  by (simp add: forwarded_def ask_def slept_def)

lemma forwarded_sleep: "sint d \<le> ns \<Longrightarrow> forwarded cd req 0 0 ns fx (go_sleep d fx)"
  by (simp add: forwarded_def go_sleep_def slept_def)

lemma forwarded_post:
  "cd_enc_put cd req = Inr body \<Longrightarrow> forwarded cd req 1 0 0 fx (snd (post sr url body fx))"
  by (simp add: forwarded_def post_def slept_def)

lemma acknowledged_mono:
  "acknowledged sr fx1 fx2 \<Longrightarrow> forwarded cd req np na ns fx fx1 \<Longrightarrow> acknowledged sr fx fx2"
  by (auto simp: acknowledged_def forwarded_def)

lemma sint_ms [simp]:
  "sint (times_unit 100 millisecond) = 100000000" "sint (times_unit 150 millisecond) = 150000000"
  "sint (times_unit 200 millisecond) = 200000000"
  by (simp_all add: times_unit_def millisecond_def)

lemma post_attempts_forwarded:
  assumes "cd_enc_put cd req = Inr body" and "list_all (\<lambda>a. a \<le> 2) as"
    and "post_attempts sr addr body as lastErr fx = (err, fx')"
  shows "forwarded cd req (length as) 0 (\<Sum>a \<leftarrow> as. int a * 100000000) fx fx'
    \<and> (err = None \<longrightarrow> as \<noteq> [] \<or> lastErr \<noteq> None \<longrightarrow> acknowledged sr fx fx')"
  using assms(2,3)
proof (induction as arbitrary: lastErr fx)
  case Nil
  then show ?case by (simp add: forwarded_refl)
next
  case (Cons a as)
  let ?fx1 = "if 0 < a then go_sleep (times_unit (int a * 100) millisecond) fx else fx"
  obtain ans fx2 where p: "post sr (put_url addr) body ?fx1 = (ans, fx2)"
    by (cases "post sr (put_url addr) body ?fx1")
  have a: "a = 0 \<or> a = 1 \<or> a = 2"
    using Cons.prems(1) by auto
  then have f1: "forwarded cd req 0 0 (int a * 100000000) fx ?fx1"
    by (auto simp: forwarded_refl intro!: forwarded_sleep)
  have f2: "forwarded cd req 1 0 (int a * 100000000) fx fx2"
    using forwarded_trans [OF f1 forwarded_post [OF assms(1)], of sr "put_url addr"] by (simp add: p)
  have sum: "0 \<le> (\<Sum>a \<leftarrow> as. int a * 100000000)"
    by (intro sum_list_nonneg) auto
  show ?case
  proof (cases ans)
    case (ConnErr e)
    have r: "post_attempts sr addr body as (Some (connect_error a addr e)) fx2 = (err, fx')"
      using Cons.prems(2) unfolding post_attempts.simps Let_def p ConnErr prod.case http_answer.case .
    have "acknowledged sr fx fx'" if "err = None"
      using Cons.IH [OF _ r] Cons.prems(1) that acknowledged_mono [OF _ f2] by auto
    then show ?thesis
      using Cons.IH [OF _ r] Cons.prems(1) forwarded_trans [OF f2] by fastforce
  next
    case (Answer code b)
    have r: "fx' = fx2" "err = None \<Longrightarrow> code = 200"
      using Cons.prems(2) unfolding post_attempts.simps Let_def p Answer prod.case http_answer.case
      by (auto split: if_splits)
    have "acknowledged sr fx fx'" if "err = None"
      using Answer r that p by (auto simp: acknowledged_def post_def go_sleep_def split: if_splits)
    then show ?thesis
      using forwarded_mono [OF f2, of "length (a # as)" 0] sum r by simp
  qed
qed

lemma forwardToLeader_forwarded:
  assumes "forwardToLeader cd sr addr req fx = (err, fx')"
  shows "forwarded cd req 3 0 300000000 fx fx'" and "err = None \<Longrightarrow> acknowledged sr fx fx'"
proof -
  have "forwarded cd req 3 0 300000000 fx fx' \<and> (err = None \<longrightarrow> acknowledged sr fx fx')"
  proof (cases "cd_enc_put cd req")
    case (Inl e)
    then show ?thesis
      using assms by (auto simp: forwardToLeader_def forwarded_refl split: if_splits)
  next
    case (Inr body)
    have as: "[0..<maxForwardRetries] = [0, 1, 2]"
      by (simp add: maxForwardRetries_def upt_rec)
    show ?thesis
      using assms post_attempts_forwarded [OF Inr, of "[0, 1, 2]" sr addr None fx err fx']
      by (auto simp: forwardToLeader_def as Inr forwarded_refl numeral_3_eq_3 split: if_splits
          simp del: post_attempts.simps)
  qed
  then show "forwarded cd req 3 0 300000000 fx fx'" and "err = None \<Longrightarrow> acknowledged sr fx fx'"
    by blast+
qed

text \<open>One turn of the loop: it goes on after a sleep, or it answers.\<close>

lemma forward_turn:
  assumes "forward_loop cd sr s req (i # rest) fx = (rs, fx')"
  obtains (again) fx4 where "i < forward_tries - 1" "forward_loop cd sr s req rest fx4 = (rs, fx')"
      "forwarded cd req 3 2 400000000 fx fx4"
  | (stop) "forwarded cd req 3 2 300000000 fx fx'" "rs_Status rs \<in> {200, 502, 503}"
      "rs_Status rs = 200 \<Longrightarrow> acknowledged sr fx fx'"
proof -
  let ?fx1 = "snd (ask sr fx)"
  let ?fx2 = "snd (ask sr ?fx1)"
  let ?addr = "LeaderHTTPAddr (fst (ask sr fx)) (sv_peers s) (sv_httpAddrs s)"
  have f2: "forwarded cd req 0 2 0 fx ?fx2"
    using forwarded_trans [OF forwarded_ask [of cd req fx sr] forwarded_ask [of cd req _ sr]]
    by (simp add: numeral_2_eq_2)
  have ok: "rs_Status ok_empty = 200" "rs_Status (http_Error m c) = c" for m c
    by (simp_all add: ok_empty_def http_Error_def)
  show thesis
  proof (cases "?addr = []")
    case True
    have "forwarded cd req 3 2 400000000 fx (go_sleep (times_unit 150 millisecond) ?fx2)"
      using forwarded_mono [OF forwarded_trans [OF f2 forwarded_sleep [of "times_unit 150 millisecond" 150000000]]]
      by simp
    then show thesis
      using True assms forwarded_mono [OF f2, of 3 2 300000000] again stop
      by (cases "i < forward_tries - 1") (auto simp: split_beta Let_def ok)
  next
    case False
    obtain err fx3 where F: "forwardToLeader cd sr ?addr req ?fx2 = (err, fx3)"
      by (cases "forwardToLeader cd sr ?addr req ?fx2")
    note ff = forwardToLeader_forwarded [OF F]
    have f3: "forwarded cd req 3 2 300000000 fx fx3"
      using forwarded_trans [OF f2 ff(1)] by simp
    show thesis
    proof (cases err)
      case None
      then show thesis
        using False F assms f3 acknowledged_mono [OF ff(2) f2] by (intro stop) (auto simp: split_beta Let_def ok)
    next
      case (Some e)
      have "forwarded cd req 3 2 400000000 fx (go_sleep (times_unit 100 millisecond) fx3)"
        using forwarded_trans [OF f3 forwarded_sleep [of "times_unit 100 millisecond" 100000000]] by simp
      then show thesis
        using False F Some assms f3 again stop
        by (cases "i < forward_tries - 1") (auto simp: split_beta Let_def ok)
    qed
  qed
qed

lemma forward_loop_forwarded:
  assumes "\<forall>i \<in> set (butlast is). i < forward_tries - 1" and "is \<noteq> []" and "\<not> last is < forward_tries - 1"
    and "forward_loop cd sr s req is fx = (rs, fx')"
  shows "forwarded cd req (3 * length is) (2 * length is) (int (length is) * 400000000 - 100000000) fx fx'
    \<and> rs_Status rs \<in> {200, 502, 503} \<and> (rs_Status rs = 200 \<longrightarrow> acknowledged sr fx fx')"
  using assms
proof (induction "is" arbitrary: fx)
  case (Cons i rest)
  from Cons.prems(4) show ?case
  proof (cases rule: forward_turn)
    case (again fx4)
    then have "rest \<noteq> []"
      using Cons.prems(3) by auto
    then have ih: "forwarded cd req (3 * length rest) (2 * length rest) (int (length rest) * 400000000 - 100000000) fx4 fx'"
        "rs_Status rs \<in> {200, 502, 503}" "rs_Status rs = 200 \<Longrightarrow> acknowledged sr fx4 fx'"
      using Cons.IH [OF _ _ _ again(2)] Cons.prems(1,3) by auto
    then show ?thesis
      using forwarded_trans [OF again(3) ih(1)] acknowledged_mono [OF ih(3) again(3)] by (simp add: algebra_simps)
  next
    case stop
    then show ?thesis
      using forwarded_mono [OF stop(1), of "3 * length (i # rest)" "2 * length (i # rest)"
          "int (length (i # rest)) * 400000000 - 100000000"] by simp
  qed
qed simp

lemma forwardWithRetry_forwarded:
  assumes "forwardWithRetry cd sr s req fx = (rs, fx')"
  shows "forwarded cd req 9 6 1100000000 fx fx'" "rs_Status rs \<in> {200, 502, 503}"
    "rs_Status rs = 200 \<Longrightarrow> acknowledged sr fx fx'"
proof -
  have "[0..<forward_tries] = [0, 1, 2]"
    by (simp add: forward_tries_def upt_rec)
  then show "forwarded cd req 9 6 1100000000 fx fx'" "rs_Status rs \<in> {200, 502, 503}"
    "rs_Status rs = 200 \<Longrightarrow> acknowledged sr fx fx'"
    using assms forward_loop_forwarded [of "[0, 1, 2]" cd sr s req fx rs fx']
    by (simp_all add: forwardWithRetry_def) (simp_all add: forward_tries_def)
qed

section \<open>The ways through a PUT\<close>

definition asked_once :: "surroundings \<Rightarrow> effects \<Rightarrow> effects" where
  "asked_once sr fx = snd (ask sr fx)"

definition proposed :: "string \<Rightarrow> effects \<Rightarrow> effects" where
  "proposed data fx = fx\<lparr>fx_proposed := fx_proposed fx @ [data]\<rparr>"

definition count_forward :: "effects \<Rightarrow> effects" where
  "count_forward fx = fx\<lparr>fx_mets := RecordForward (fx_mets fx)\<rparr>"

definition count_error :: "effects \<Rightarrow> effects" where
  "count_error fx = fx\<lparr>fx_mets := RecordError (fx_mets fx)\<rparr>"

lemma effects_simps [simp]:
  "fx_posts (asked_once sr fx) = fx_posts fx" "fx_slept (asked_once sr fx) = fx_slept fx"
  "fx_proposed (asked_once sr fx) = fx_proposed fx" "fx_mets (asked_once sr fx) = fx_mets fx"
  "fx_sem (asked_once sr fx) = fx_sem fx" "fx_asked (asked_once sr fx) = fx_asked fx + 1"
  "fx_posts (proposed data fx) = fx_posts fx" "fx_slept (proposed data fx) = fx_slept fx"
  "fx_proposed (proposed data fx) = fx_proposed fx @ [data]" "fx_mets (proposed data fx) = fx_mets fx"
  "fx_sem (proposed data fx) = fx_sem fx" "fx_asked (proposed data fx) = fx_asked fx"
  "fx_posts (count_forward fx) = fx_posts fx" "fx_slept (count_forward fx) = fx_slept fx"
  "fx_proposed (count_forward fx) = fx_proposed fx" "fx_mets (count_forward fx) = RecordForward (fx_mets fx)"
  "fx_sem (count_forward fx) = fx_sem fx" "fx_asked (count_forward fx) = fx_asked fx"
  "fx_posts (count_error fx) = fx_posts fx" "fx_slept (count_error fx) = fx_slept fx"
  "fx_proposed (count_error fx) = fx_proposed fx" "fx_mets (count_error fx) = RecordError (fx_mets fx)"
  "fx_sem (count_error fx) = fx_sem fx" "fx_asked (count_error fx) = fx_asked fx"
  by (simp_all add: asked_once_def ask_def proposed_def count_forward_def count_error_def)

definition valid_put :: "codec \<Rightarrow> Request \<Rightarrow> PutRequest \<Rightarrow> bool" where
  "valid_put cd rq req \<longleftrightarrow>
     cd_dec_put cd (rq_Body rq) = Inr req \<and> pr_Key req \<noteq> [] \<and> pr_IdempotencyKey req \<noteq> []"

lemma put_body_cases [consumes 1, case_names bad follower encode failed committed lost]:
  assumes "put_body cd sr s rq fx = (rs, fx')"
  obtains (bad) "rs_Status rs = 400" "fx' = fx" "\<nexists>req. valid_put cd rq req"
  | (follower) req where "valid_put cd rq req" "\<not> IsLeader (sr_leader sr (fx_asked fx)) (sv_node s)"
      "forwardWithRetry cd sr s req (count_forward (asked_once sr fx)) = (rs, fx')"
  | (encode) req e where "valid_put cd rq req" "IsLeader (sr_leader sr (fx_asked fx)) (sv_node s)"
      "cd_enc_cmd cd (put_command req) = Inl e" "rs_Status rs = 500" "fx' = asked_once sr fx"
  | (failed) req data where "valid_put cd rq req" "IsLeader (sr_leader sr (fx_asked fx)) (sv_node s)"
      "cd_enc_cmd cd (put_command req) = Inr data" "sr_future sr \<noteq> None" "sr_future sr \<noteq> Some ErrNotLeader"
      "rs_Status rs = 500" "fx' = count_error (proposed data (asked_once sr fx))"
  | (committed) req data where "valid_put cd rq req" "IsLeader (sr_leader sr (fx_asked fx)) (sv_node s)"
      "cd_enc_cmd cd (put_command req) = Inr data" "sr_future sr = None" "rs = ok_empty"
      "fx' = proposed data (asked_once sr fx)"
  | (lost) req data where "valid_put cd rq req" "IsLeader (sr_leader sr (fx_asked fx)) (sv_node s)"
      "cd_enc_cmd cd (put_command req) = Inr data" "sr_future sr = Some ErrNotLeader"
      "forwardWithRetry cd sr s req (count_forward (asked_once sr (proposed data (asked_once sr fx)))) = (rs, fx')"
proof (cases "\<exists>req. valid_put cd rq req")
  case False
  then show thesis
    using assms by (intro bad) (auto simp: put_body_def valid_put_def http_Error_def split: sum.splits if_splits)
next
  case True
  then obtain req where v: "valid_put cd rq req" by blast
  then have b: "put_body cd sr s rq fx =
      (if \<not> IsLeader (sr_leader sr (fx_asked fx)) (sv_node s)
       then forwardWithRetry cd sr s req (count_forward (asked_once sr fx))
       else applyAsLeader cd sr s req (asked_once sr fx))"
    by (simp add: put_body_def valid_put_def asked_once_def count_forward_def ask_def)
  show thesis
  proof (cases "IsLeader (sr_leader sr (fx_asked fx)) (sv_node s)")
    case False
    then show thesis
      using assms b v by (intro follower) simp_all
  next
    case ld: True
    note r = assms [unfolded b applyAsLeader_def, folded asked_once_def]
    show thesis
    proof (cases "cd_enc_cmd cd (put_command req)")
      case (Inl e)
      then show thesis
        using r ld v by (intro encode) (auto simp: http_Error_def)
    next
      case (Inr data)
      consider (a) "sr_future sr = None" | (b) "sr_future sr = Some ErrNotLeader"
        | (c) e where "sr_future sr = Some e" "e \<noteq> ErrNotLeader"
        by (cases "sr_future sr") auto
      then show thesis
      proof cases
        case a
        then show thesis
          using r ld v Inr by (intro committed) (auto simp: cluster_Apply_def proposed_def)
      next
        case b
        then show thesis
          using r ld v Inr
          by (intro lost) (auto simp: cluster_Apply_def proposed_def count_forward_def asked_once_def Let_def)
      next
        case c
        then show thesis
          using r ld v Inr
          by (intro failed [of req data]) (auto simp: cluster_Apply_def proposed_def count_error_def http_Error_def)
      qed
    qed
  qed
qed

lemma forwardWithRetry_frame:
  assumes "forwardWithRetry cd sr s req fx = (rs, fx')"
  shows "fx_proposed fx' = fx_proposed fx" "fx_mets fx' = fx_mets fx" "fx_sem fx' = fx_sem fx"
    "length (fx_posts fx') \<le> length (fx_posts fx) + 9" "fx_asked fx' \<le> fx_asked fx + 6"
    "slept fx' \<le> slept fx + 1100000000"
    "\<exists>ps. fx_posts fx' = fx_posts fx @ ps \<and> (\<forall>p \<in> set ps. cd_enc_put cd req = Inr (snd p))"
  using forwardWithRetry_forwarded(1) [OF assms] by (auto simp: forwarded_def)

text \<open>\<^verbatim>\<open>handlePut\<close> past its method check and the semaphore.\<close>

lemma handlePut_cases [consumes 1, case_names early body]:
  assumes "handlePut cd sr s rq fx = Some (rs, fx')"
  obtains (early) t where "rq_Method rq \<noteq> ''POST'' \<or> \<not> sr_slot sr" "rs_Status rs \<in> {405, 503}"
      "Record (sr_nanos sr) (Latency (fx_mets fx)) = Some t"
      "fx' = fx\<lparr>fx_mets := (fx_mets fx)\<lparr>Latency := t\<rparr>\<rparr>"
  | (body) fx1 t where "rq_Method rq = ''POST''" "sr_slot sr"
      "put_body cd sr s rq (fx\<lparr>fx_sem := fx_sem fx + 1\<rparr>) = (rs, fx1)"
      "Record (sr_nanos sr) (Latency (fx_mets fx1)) = Some t"
      "fx' = fx1\<lparr>fx_sem := fx_sem fx1 - 1, fx_mets := (fx_mets fx1)\<lparr>Latency := t\<rparr>\<rparr>"
proof (cases "rq_Method rq = ''POST'' \<and> sr_slot sr")
  case True
  obtain rs' fx1 where b: "put_body cd sr s rq (fx\<lparr>fx_sem := fx_sem fx + 1\<rparr>) = (rs', fx1)"
    by (cases "put_body cd sr s rq (fx\<lparr>fx_sem := fx_sem fx + 1\<rparr>)")
  obtain t where "Record (sr_nanos sr) (Latency (fx_mets fx1)) = Some t"
    using assms True b by (auto simp: handlePut_def split: option.splits)
  with b show thesis
    using assms True by (intro body [of fx1 t]) (auto simp: handlePut_def)
next
  case False
  then obtain t where "Record (sr_nanos sr) (Latency (fx_mets fx)) = Some t"
    using assms by (auto simp: handlePut_def Let_def split: option.splits if_splits)
  with False show thesis
    using assms by (intro early [of t]) (auto simp: handlePut_def http_Error_def Let_def split: if_splits)
qed

lemma slept_simps [simp]:
  "slept (fx\<lparr>fx_sem := n\<rparr>) = slept fx" "slept (fx\<lparr>fx_mets := m\<rparr>) = slept fx"
  "slept (asked_once sr fx) = slept fx" "slept (proposed data fx) = slept fx"
  "slept (count_forward fx) = slept fx" "slept (count_error fx) = slept fx"
  by (simp_all add: slept_def)

section \<open>The semaphore\<close>

text \<open>
  The PUT handlers of a node running concurrently: \<open>slots\<close> is the number of tokens in the channel
  \<^verbatim>\<open>s.sem\<close>, and each request is waiting in the \<^verbatim>\<open>select\<close>, holding a token, or answered. A send on
  the channel needs room; the deferred receive needs a token.
\<close>

datatype phase = Waiting | Holding | Answered

record pool =
  slots :: nat
  phase_of :: "nat \<rightharpoonup> phase"

inductive pool_step :: "pool \<Rightarrow> pool \<Rightarrow> bool" where
  arrive: "phase_of p r = None \<Longrightarrow> pool_step p (p\<lparr>phase_of := (phase_of p)(r \<mapsto> Waiting)\<rparr>)"
| acquire: "phase_of p r = Some Waiting \<Longrightarrow> slots p < maxConcurrent \<Longrightarrow>
    pool_step p (p\<lparr>slots := slots p + 1, phase_of := (phase_of p)(r \<mapsto> Holding)\<rparr>)"
| expire: "phase_of p r = Some Waiting \<Longrightarrow> pool_step p (p\<lparr>phase_of := (phase_of p)(r \<mapsto> Answered)\<rparr>)"
| release: "phase_of p r = Some Holding \<Longrightarrow> 0 < slots p \<Longrightarrow>
    pool_step p (p\<lparr>slots := slots p - 1, phase_of := (phase_of p)(r \<mapsto> Answered)\<rparr>)"

inductive pool_reach :: "pool \<Rightarrow> bool" where
  start: "pool_reach \<lparr>slots = 0, phase_of = Map.empty\<rparr>"
| step: "pool_reach p \<Longrightarrow> pool_step p p' \<Longrightarrow> pool_reach p'"

inductive_cases pool_stepE: "pool_step p p'"

definition holders :: "pool \<Rightarrow> nat set" where
  "holders p = {r. phase_of p r = Some Holding}"

definition pool_inv :: "pool \<Rightarrow> bool" where
  "pool_inv p \<longleftrightarrow> finite (holders p) \<and> slots p = card (holders p) \<and> slots p \<le> maxConcurrent"

lemma holders_upd:
  "holders (p\<lparr>phase_of := (phase_of p)(r \<mapsto> x)\<rparr>) = (if x = Holding then insert r (holders p) else holders p - {r})"
  by (auto simp: holders_def)

lemma pool_inv_step:
  assumes "pool_step p p'" and "pool_inv p"
  shows "pool_inv p'"
  using assms(1)
proof (cases rule: pool_step.cases)
  case (acquire r)
  then have "r \<notin> holders p"
    by (simp add: holders_def)
  then show ?thesis
    using assms(2) acquire holders_upd [of "p\<lparr>slots := slots p + 1\<rparr>" r Holding]
    by (simp add: pool_inv_def holders_def)
next
  case (release r)
  then have "r \<in> holders p" "holders p' = holders p - {r}" "slots p' = slots p - 1"
    by (auto simp: holders_def split: if_splits)
  then show ?thesis
    using assms(2) by (simp add: pool_inv_def le_diff_conv)
next
  case (arrive r)
  then have "holders p' = holders p" "slots p' = slots p"
    by (auto simp: holders_def split: if_splits)
  then show ?thesis
    using assms(2) by (simp add: pool_inv_def)
next
  case (expire r)
  then have "holders p' = holders p" "slots p' = slots p"
    by (auto simp: holders_def split: if_splits)
  then show ?thesis
    using assms(2) by (simp add: pool_inv_def)
qed

lemma pool_inv_reach: "pool_reach p \<Longrightarrow> pool_inv p"
  by (induction rule: pool_reach.induct)
    (simp add: pool_inv_def holders_def, blast intro: pool_inv_step)

section \<open>Properties\<close>

text \<open>
  A codec for one request, the servers of two nodes while the first one leads, a network whose
  first POST does not connect, and a request, on which the properties are instantiated.
\<close>

definition ex_req :: PutRequest where
  "ex_req = \<lparr>pr_Key = ''k'', pr_Value = ''v'', pr_IdempotencyKey = ''a''\<rparr>"

definition ex_json :: codec where
  "ex_json =
     \<lparr>cd_dec_put = (\<lambda>b. if b = ''{}'' then Inr \<lparr>pr_Key = [], pr_Value = [], pr_IdempotencyKey = []\<rparr>
                        else if b = ''req'' then Inr ex_req else Inl ''unexpected EOF''),
      cd_enc_put = (\<lambda>req. Inr ''req''), cd_enc_cmd = (\<lambda>c. Inr ''cmd'')\<rparr>"

definition ex_server :: "string \<Rightarrow> Server" where
  "ex_server nid =
     \<lparr>sv_node = \<lparr>rn_NodeID = nid, rn_HTTPAddr = []\<rparr>, sv_kv = \<lparr>kv_data = [''k'' \<mapsto> []]\<rparr>,
      sv_peers = DefaultClusterPeers, sv_httpAddrs = main_httpAddrs\<rparr>"

definition ex_net :: surroundings where
  "ex_net =
     \<lparr>sr_leader = (\<lambda>n. (''127.0.0.1:7001'', ''node1'')),
      sr_post = (\<lambda>n. if n = 0 then ConnErr ''refused'' else Answer 200 []),
      sr_future = None, sr_slot = True, sr_nanos = 5\<rparr>"

definition ex_rq :: "string \<Rightarrow> Request" where
  "ex_rq b = \<lparr>rq_Method = ''POST'', rq_QueryKey = [], rq_Body = b\<rparr>"

definition ex_fx :: effects where
  "ex_fx =
     \<lparr>fx_asked = 0, fx_posts = [], fx_slept = [], fx_proposed = [], fx_sem = 3,
      fx_mets = init_metrics\<lparr>Latency := NewLatencyTracker 2\<rparr>\<rparr>"

lemmas ex_http = ex_req_def ex_json_def ex_server_def ex_net_def ex_rq_def ex_fx_def

lemma ex_lat: "lt_wf (Latency (fx_mets ex_fx))" "window (Latency (fx_mets ex_fx)) = []"
    "lt_cap (Latency (fx_mets ex_fx)) = 2"
  by (simp_all add: ex_fx_def lt_wf_New, simp add: NewLatencyTracker_def)

lemma ex_forwarded:
  "\<exists>fx'. handlePut ex_json ex_net (ex_server ''node2'') (ex_rq ''req'') ex_fx = Some (ok_empty, fx')
     \<and> length (fx_posts fx') = 2"
  by (simp add: handlePut_def put_body_def ex_http ask_def IsLeader_def forwardWithRetry_def forward_tries_def
      upt_rec LeaderHTTPAddr_def go_lookup_def main_httpAddrs_def forwardToLeader_def maxForwardRetries_def
      post_def go_sleep_def RecordForward_def Record_def NewLatencyTracker_def Let_def)

lemma put_ok_committed:
  assumes "handlePut cd sr s rq fx = Some (rs, fx')" and "rs_Status rs = 200"
  shows "\<exists>req. valid_put cd rq req
    \<and> ((\<exists>data. cd_enc_cmd cd (put_command req) = Inr data \<and> sr_future sr = None
               \<and> fx_proposed fx' = fx_proposed fx @ [data])
       \<or> acknowledged sr fx fx')"
  using assms(1)
proof (cases rule: handlePut_cases)
  case (body fx1 t)
  from body(3) show ?thesis
  proof (cases rule: put_body_cases)
    case (follower req)
    then show ?thesis
      using forwardWithRetry_forwarded(3) [OF follower(3) assms(2)] body(5)
      by (auto simp: acknowledged_def)
  next
    case (lost req data)
    then show ?thesis
      using forwardWithRetry_forwarded(3) [OF lost(5) assms(2)] body(5)
      by (auto simp: acknowledged_def)
  qed (use assms(2) body in \<open>auto\<close>)
qed (use assms(2) in auto)

text \<open>
  C17: An acknowledged PUT is committed. If a PUT is answered 200, its body decoded to a request with
  a key and an idempotency key, and either this node proposed the encoded command and raft's
  future reported no error, or the last POST of the request to a leader was itself answered 200.
\<close>

theorem put_ok_means_committed:
  assumes "handlePut cd sr s rq fx = Some (rs, fx')" and "rs_Status rs = 200"
  shows "\<exists>req. valid_put cd rq req
    \<and> ((\<exists>data. cd_enc_cmd cd (put_command req) = Inr data \<and> sr_future sr = None
               \<and> fx_proposed fx' = fx_proposed fx @ [data])
       \<or> acknowledged sr fx fx')"
  using assms by (rule put_ok_committed)

theorem put_ok_means_committed_witness:
  "\<exists>fx' req. handlePut ex_json ex_net (ex_server ''node2'') (ex_rq ''req'') ex_fx = Some (ok_empty, fx')
     \<and> valid_put ex_json (ex_rq ''req'') req \<and> (fx_proposed fx' \<noteq> [] \<or> acknowledged ex_net ex_fx fx')"
proof -
  obtain fx' where h: "handlePut ex_json ex_net (ex_server ''node2'') (ex_rq ''req'') ex_fx = Some (ok_empty, fx')"
    using ex_forwarded by blast
  show ?thesis
    using put_ok_means_committed [OF h] h by (auto simp: ok_empty_def)
qed

text \<open>
  A rejected PUT leaves no trace. A request with the wrong method, one that finds no slot, and
  one whose body does not decode to a key and an idempotency key are answered 405, 503 and 400;
  nothing is proposed, no other node is contacted, and raft is not asked for its leader.
\<close>

lemma put_rejects_early:
  assumes "handlePut cd sr s rq fx = Some (rs, fx')"
    and "rq_Method rq \<noteq> ''POST'' \<or> \<not> sr_slot sr \<or> (\<nexists>req. valid_put cd rq req)"
  shows "rs_Status rs = (if rq_Method rq \<noteq> ''POST'' then 405 else if \<not> sr_slot sr then 503 else 400)
    \<and> fx_proposed fx' = fx_proposed fx \<and> fx_posts fx' = fx_posts fx \<and> fx_asked fx' = fx_asked fx
    \<and> fx_slept fx' = fx_slept fx"
  using assms(1)
proof (cases rule: handlePut_cases)
  case (early t)
  then show ?thesis
    using assms(1) by (auto simp: handlePut_def http_Error_def Let_def)
next
  case (body fx1 t)
  from body(3) show ?thesis
    by (cases rule: put_body_cases) (use body assms(2) in auto)
qed

lemma put_effort:
  assumes "handlePut cd sr s rq fx = Some (rs, fx')"
  shows "length (fx_proposed fx') \<le> length (fx_proposed fx) + 1
    \<and> length (fx_posts fx') \<le> length (fx_posts fx) + 9
    \<and> (\<forall>p \<in> set (drop (length (fx_posts fx)) (fx_posts fx')).
         \<exists>req. valid_put cd rq req \<and> cd_enc_put cd req = Inr (snd p))
    \<and> fx_asked fx' \<le> fx_asked fx + 8 \<and> slept fx' \<le> slept fx + 1100000000
    \<and> fx_sem fx' = fx_sem fx \<and> rs_Status rs \<in> {200, 400, 405, 500, 502, 503}"
  using assms
proof (cases rule: handlePut_cases)
  case (body fx1 t)
  from body(3) show ?thesis
  proof (cases rule: put_body_cases)
    case (follower req)
    note f = forwardWithRetry_frame [OF follower(3)] forwardWithRetry_forwarded(2) [OF follower(3)]
    obtain ps where "fx_posts fx1 = fx_posts fx @ ps" "\<forall>p \<in> set ps. cd_enc_put cd req = Inr (snd p)"
      using f(7) by auto
    then show ?thesis
      using f follower(1) body(5) by auto
  next
    case (lost req data)
    note f = forwardWithRetry_frame [OF lost(5)] forwardWithRetry_forwarded(2) [OF lost(5)]
    obtain ps where "fx_posts fx1 = fx_posts fx @ ps" "\<forall>p \<in> set ps. cd_enc_put cd req = Inr (snd p)"
      using f(7) by auto
    then show ?thesis
      using f lost(1) body(5) by auto
  qed (use body in \<open>auto simp: ok_empty_def\<close>)
qed auto

text \<open>
  C27: The effort of a PUT is bounded. Whatever raft and the network answer, a request proposes at
  most one command, sends at most nine POSTs, all with the encoding of the one request, asks for
  the leader at most eight times, sleeps at most 1.1 seconds in all, gives back its slot, and is
  answered with one of the six statuses of the code.
\<close>

theorem put_effort_bounded:
  assumes "handlePut cd sr s rq fx = Some (rs, fx')"
  shows "length (fx_proposed fx') \<le> length (fx_proposed fx) + 1
    \<and> length (fx_posts fx') \<le> length (fx_posts fx) + 9
    \<and> (\<forall>p \<in> set (drop (length (fx_posts fx)) (fx_posts fx')).
         \<exists>req. valid_put cd rq req \<and> cd_enc_put cd req = Inr (snd p))
    \<and> fx_asked fx' \<le> fx_asked fx + 8 \<and> slept fx' \<le> slept fx + 1100000000
    \<and> fx_sem fx' = fx_sem fx \<and> rs_Status rs \<in> {200, 400, 405, 500, 502, 503}"
  using assms by (rule put_effort)

theorem put_effort_bounded_witness:
  "\<exists>fx'. handlePut ex_json ex_net (ex_server ''node2'') (ex_rq ''req'') ex_fx = Some (ok_empty, fx')
     \<and> length (fx_posts fx') \<le> 9 \<and> fx_sem fx' = 3"
proof -
  obtain fx' where h: "handlePut ex_json ex_net (ex_server ''node2'') (ex_rq ''req'') ex_fx = Some (ok_empty, fx')"
    using ex_forwarded by blast
  show ?thesis
    using put_effort_bounded [OF h] h by (simp add: ex_fx_def)
qed

text \<open>
  Every PUT is timed. On a well-formed ring the handler never panics, and each request, refused,
  failed or forwarded as well as successful, adds exactly its own time to the latency window.
\<close>

lemma put_latency_recorded:
  assumes "lt_wf (Latency (fx_mets fx))"
  shows "\<exists>rs fx'. handlePut cd sr s rq fx = Some (rs, fx') \<and> lt_wf (Latency (fx_mets fx'))
    \<and> lt_cap (Latency (fx_mets fx')) = lt_cap (Latency (fx_mets fx)) \<and> window (Latency (fx_mets fx')) =
        lastn (lt_cap (Latency (fx_mets fx))) (window (Latency (fx_mets fx)) @ [sr_nanos sr])"
proof -
  have keep: "Latency (fx_mets fx1) = Latency (fx_mets fx)"
    if "put_body cd sr s rq (fx\<lparr>fx_sem := fx_sem fx + 1\<rparr>) = (rs, fx1)" for rs fx1
    using that
    by (cases rule: put_body_cases)
      (auto dest!: forwardWithRetry_frame(2) simp: RecordForward_def RecordError_def)
  obtain t where t: "Record (sr_nanos sr) (Latency (fx_mets fx)) = Some t" "lt_wf t"
      "lt_cap t = lt_cap (Latency (fx_mets fx))"
    using Record_wf [OF assms] by blast
  obtain rs0 fx0 where b: "put_body cd sr s rq (fx\<lparr>fx_sem := fx_sem fx + 1\<rparr>) = (rs0, fx0)"
    by (cases "put_body cd sr s rq (fx\<lparr>fx_sem := fx_sem fx + 1\<rparr>)")
  have "\<exists>rs fx'. handlePut cd sr s rq fx = Some (rs, fx') \<and> Latency (fx_mets fx') = t"
    using t(1) keep [OF b] b by (auto simp: handlePut_def Let_def)
  then show ?thesis
    using window_Record [OF assms t(1)] t(2,3) by auto
qed

text \<open>
  C37: The semaphore is exact. However requests interleave, the tokens in the channel are the
  requests that hold one, never more than 256, and a holder can always give its token back, so
  the deferred receive never blocks.
\<close>

theorem semaphore_exact:
  assumes "pool_reach p"
  shows "slots p = card (holders p) \<and> card (holders p) \<le> maxConcurrent
    \<and> (\<forall>r \<in> holders p. pool_step p (p\<lparr>slots := slots p - 1, phase_of := (phase_of p)(r \<mapsto> Answered)\<rparr>))"
proof -
  have inv: "finite (holders p)" "slots p = card (holders p)" "slots p \<le> maxConcurrent"
    using pool_inv_reach [OF assms] by (simp_all add: pool_inv_def)
  have "0 < slots p" if "r \<in> holders p" for r
    using inv that card_gt_0_iff by fastforce
  then have "pool_step p (p\<lparr>slots := slots p - 1, phase_of := (phase_of p)(r \<mapsto> Answered)\<rparr>)"
    if "r \<in> holders p" for r
    using that by (intro pool_step.release) (simp_all add: holders_def)
  then show ?thesis
    using inv by simp
qed

theorem semaphore_exact_witness:
  "slots \<lparr>slots = 1, phase_of = [0 \<mapsto> Holding]\<rparr> = card (holders \<lparr>slots = 1, phase_of = [0 \<mapsto> Holding]\<rparr>)"
proof -
  have "pool_reach \<lparr>slots = 0, phase_of = [0 \<mapsto> Waiting]\<rparr>"
    using pool_reach.step [OF pool_reach.start pool_step.arrive [of _ 0]] by simp
  then have "pool_reach \<lparr>slots = 1, phase_of = [0 \<mapsto> Holding]\<rparr>"
    using pool_reach.step [OF _ pool_step.acquire [of "\<lparr>slots = 0, phase_of = [0 \<mapsto> Waiting]\<rparr>" 0]]
    by (simp add: maxConcurrent_def)
  then show ?thesis
    using semaphore_exact by blast
qed

text \<open>
  No leader, no forward. When raft names no leader at any question, a follower waits twice and
  answers 503 without contacting anyone; the request is counted as forwarded all the same.
\<close>

lemma no_leader_unavailable:
  assumes "\<And>n. fst (sr_leader sr n) = []" and "\<not> IsLeader (sr_leader sr (fx_asked fx)) (sv_node s)"
    and "valid_put cd rq req"
  shows "let (rs, fx') = put_body cd sr s rq fx
         in rs_Status rs = 503 \<and> fx_posts fx' = fx_posts fx \<and> fx_proposed fx' = fx_proposed fx
            \<and> fx_slept fx' = fx_slept fx @ [times_unit 150 millisecond, times_unit 150 millisecond]
            \<and> totalForwards (fx_mets fx') = totalForwards (fx_mets fx) + 1"
proof -
  have "[0..<forward_tries] = [0, 1, 2]"
    by (simp add: forward_tries_def upt_rec)
  then show ?thesis
    using assms
    by (simp add: put_body_def valid_put_def forwardWithRetry_def ask_def LeaderHTTPAddr_def forward_tries_def
        go_sleep_def http_Error_def RecordForward_def)
qed

text \<open>
  When a forward succeeds. \<^verbatim>\<open>forwardToLeader\<close> repeats a POST only while it cannot connect, three
  times at most: it succeeds exactly when some attempt is answered 200 after attempts that
  did not connect. Any other status ends it with an error.
\<close>

lemma forward_success_iff:
  assumes "addr \<noteq> []" and "cd_enc_put cd req = Inr body"
  shows "fst (forwardToLeader cd sr addr req fx) = None \<longleftrightarrow>
    (\<exists>k < 3. (\<forall>j < k. \<exists>e. sr_post sr (length (fx_posts fx) + j) = ConnErr e)
             \<and> (\<exists>b. sr_post sr (length (fx_posts fx) + k) = Answer 200 b))"
proof -
  have as: "[0..<maxForwardRetries] = [0, 1, 2]"
    by (simp add: maxForwardRetries_def upt_rec)
  have ex: "(\<exists>k < 3. P k) \<longleftrightarrow> P 0 \<or> P 1 \<or> P (2 :: nat)" for P
    by (auto simp: numeral_3_eq_3 numeral_2_eq_2 less_Suc_eq)
  have all: "(\<forall>j < 2. P j) \<longleftrightarrow> P 0 \<and> P (1 :: nat)" for P
    by (auto simp: numeral_2_eq_2 less_Suc_eq)
  show ?thesis
    unfolding ex all
    by (auto simp: forwardToLeader_def assms as post_def go_sleep_def Let_def split: http_answer.splits)
qed

text \<open>
  Reads. \<^verbatim>\<open>GET /get\<close> with a key answers 200 exactly when the local map has the key, and then with
  its value, and 404 otherwise; an absent key and one whose value is empty are told apart.
\<close>

lemma get_answers:
  assumes "rq_Method rq = ''GET''" and "rq_QueryKey rq = k" and "k \<noteq> []"
  shows "(case kv_data (sv_kv s) k of
            Some v \<Rightarrow> handleGet enc s rq = ok_json (enc [''key'' \<mapsto> k, ''value'' \<mapsto> v])
          | None \<Rightarrow> rs_Status (handleGet enc s rq) = 404)"
  using assms by (auto simp: handleGet_def kv_Get_def http_Error_def split: option.splits)

text \<open>
  Status. When both questions of \<^verbatim>\<open>GET /status\<close> get the same answer, the role is leader exactly
  when the reported leader is this node; when leadership moves between them the answer can name
  this node as a leader and another as the leader.
\<close>

lemma status_role:
  "(ld1 = ld2 \<longrightarrow> (status_map ld1 ld2 s ''role'' = Some ''leader'' \<longleftrightarrow>
       status_map ld1 ld2 s ''leader_id'' = status_map ld1 ld2 s ''node_id''))
   \<and> (snd ld1 \<noteq> rn_NodeID (sv_node s) \<and> snd ld2 = rn_NodeID (sv_node s) \<longrightarrow>
       status_map ld1 ld2 s ''role'' = Some ''leader''
       \<and> status_map ld1 ld2 s ''leader_id'' \<noteq> status_map ld1 ld2 s ''node_id'')"
  by (auto simp: status_map_def IsLeader_def)

end
