(* ===== verification/Utf8.thy ===== *)
theory Utf8
  imports Prelude
begin

text \<open>
  UTF-8 as the Go standard library reads and writes it: \<^verbatim>\<open>utf8.DecodeRune\<close>, of which only the
  number of bytes matters here, \<^verbatim>\<open>utf8.EncodeRune\<close>, and the replacement of each byte that does
  not belong to a well-formed sequence by U+FFFD.
\<close>

section \<open>Sequences\<close>

abbreviation byte :: "char \<Rightarrow> nat" where
  "byte c \<equiv> of_char c"

definition cont :: "char \<Rightarrow> bool" where
  "cont c \<longleftrightarrow> 0x80 \<le> byte c \<and> byte c \<le> 0xBF"

text \<open>The second byte of a sequence is restricted by the first.\<close>

definition second_ok :: "nat \<Rightarrow> char \<Rightarrow> bool" where
  "second_ok n c \<longleftrightarrow>
     (if n = 0xE0 then 0xA0 else if n = 0xF0 then 0x90 else 0x80) \<le> byte c
     \<and> byte c \<le> (if n = 0xED then 0x9F else if n = 0xF4 then 0x8F else 0xBF)"

text \<open>The length of the sequence a string begins with, 0 when its first byte begins none.\<close>

fun utf8_len :: "string \<Rightarrow> nat" where
  "utf8_len [] = 0"
| "utf8_len (a # s) =
     (let n = byte a
      in if n < 0x80 then 1
         else if 0xC2 \<le> n \<and> n \<le> 0xDF then
           (case s of b # _ \<Rightarrow> if second_ok n b then 2 else 0 | _ \<Rightarrow> 0)
         else if 0xE0 \<le> n \<and> n \<le> 0xEF then
           (case s of b # c # _ \<Rightarrow> if second_ok n b \<and> cont c then 3 else 0 | _ \<Rightarrow> 0)
         else if 0xF0 \<le> n \<and> n \<le> 0xF4 then
           (case s of b # c # d # _ \<Rightarrow> if second_ok n b \<and> cont c \<and> cont d then 4 else 0 | _ \<Rightarrow> 0)
         else 0)"

declare utf8_len.simps [simp del]

lemmas utf8_len_defs = utf8_len.simps

lemma utf8_len_le: "utf8_len s \<le> length s"
  by (cases s) (auto simp: utf8_len_defs Let_def split: list.split)

lemma utf8_len_ascii: "byte c < 0x80 \<Longrightarrow> utf8_len (c # s) = 1"
  by (simp add: utf8_len_defs)

lemma utf8_len_Nil [simp]: "utf8_len [] = 0"
  by (simp add: utf8_len_defs)

text \<open>A sequence is recognised by its own bytes, whatever follows.\<close>

lemma utf8_len_take:
  assumes "0 < utf8_len s"
  shows "utf8_len (take (utf8_len s) s @ t) = utf8_len s"
  using assms
  by (cases s) (auto simp: utf8_len_defs Let_def numeral_2_eq_2 numeral_3_eq_3 eval_nat_numeral
      split: list.splits if_splits)

section \<open>Well-formed strings\<close>

function valid_utf8 :: "string \<Rightarrow> bool" where
  "valid_utf8 s =
     (if s = [] then True else if utf8_len s = 0 then False else valid_utf8 (drop (utf8_len s) s))"
  by auto
termination
  by (relation "measure length") auto

declare valid_utf8.simps [simp del]

definition replacement :: string where
  "replacement = [CHR 0xEF, CHR 0xBF, CHR 0xBD]"

function to_valid :: "string \<Rightarrow> string" where
  "to_valid s =
     (if s = [] then []
      else if utf8_len s = 0 then replacement @ to_valid (tl s)
      else take (utf8_len s) s @ to_valid (drop (utf8_len s) s))"
  by auto
termination
  by (relation "measure length") auto

declare to_valid.simps [simp del]

lemma valid_utf8_Nil [simp]: "valid_utf8 []"
  by (simp add: valid_utf8.simps)

lemma to_valid_Nil [simp]: "to_valid [] = []"
  by (simp add: to_valid.simps)

lemma valid_utf8_step:
  "0 < utf8_len s \<Longrightarrow> valid_utf8 s = valid_utf8 (drop (utf8_len s) s)"
  by (subst valid_utf8.simps) auto

text \<open>One sequence in front.\<close>

lemma valid_utf8_seq:
  assumes "0 < utf8_len r" and "utf8_len r = length r"
  shows "valid_utf8 (r @ s) = valid_utf8 s"
  using utf8_len_take [OF assms(1), of s] assms valid_utf8_step [of "r @ s"] by simp

lemma valid_utf8_append: "valid_utf8 r \<Longrightarrow> valid_utf8 s \<Longrightarrow> valid_utf8 (r @ s)"
proof (induction r rule: valid_utf8.induct)
  case (1 r)
  show ?case
  proof (cases "r = []")
    case False
    then have k: "0 < utf8_len r" "valid_utf8 (drop (utf8_len r) r)"
      using "1.prems" by (auto simp: valid_utf8.simps [of r] split: if_splits)
    let ?q = "take (utf8_len r) r"
    have q: "utf8_len ?q = utf8_len r" "length ?q = utf8_len r"
      using utf8_len_take [OF k(1), of "[]"] utf8_len_le [of r] by simp_all
    have "valid_utf8 (drop (utf8_len r) r @ s)"
      using 1 False k by simp
    then have "valid_utf8 (?q @ drop (utf8_len r) r @ s)"
      using q k(1) by (subst valid_utf8_seq) simp_all
    then show ?thesis
      by (simp flip: append_assoc)
  qed (use 1 in simp)
qed

lemma valid_utf8_ascii [simp]: "byte c < 0x80 \<Longrightarrow> valid_utf8 (c # s) = valid_utf8 s"
  using valid_utf8_step [of "c # s"] by (simp add: utf8_len_ascii)

lemma to_valid_ascii: "byte c < 0x80 \<Longrightarrow> to_valid (c # s) = c # to_valid s"
  by (subst to_valid.simps) (simp add: utf8_len_ascii)

lemma valid_replacement: "valid_utf8 replacement"
proof -
  have "utf8_len replacement = 3"
    by (simp add: utf8_len_defs replacement_def second_ok_def cont_def)
  then show ?thesis
    using valid_utf8_seq [of replacement "[]"] by (simp add: replacement_def)
qed

lemma to_valid_id: "valid_utf8 s \<Longrightarrow> to_valid s = s"
proof (induction s rule: to_valid.induct)
  case (1 s)
  show ?case
  proof (cases "s = []")
    case False
    then have k: "0 < utf8_len s" "valid_utf8 (drop (utf8_len s) s)"
      using "1.prems" by (auto simp: valid_utf8.simps [of s] split: if_splits)
    then have "to_valid (drop (utf8_len s) s) = drop (utf8_len s) s"
      using 1 False by simp
    then show ?thesis
      using False k by (subst to_valid.simps) simp
  qed simp
qed

lemma valid_to_valid: "valid_utf8 (to_valid s)"
proof (induction s rule: to_valid.induct)
  case (1 s)
  show ?case
  proof (cases "s = []")
    case False
    show ?thesis
    proof (cases "utf8_len s = 0")
      case True
      then show ?thesis
        using 1 False valid_utf8_append [OF valid_replacement] by (subst to_valid.simps) simp
    next
      case k: False
      then have "utf8_len (take (utf8_len s) s) = length (take (utf8_len s) s)"
        using utf8_len_take [of s "[]"] utf8_len_le [of s] by simp
      then show ?thesis
        using 1 False k utf8_len_le [of s]
        by (subst to_valid.simps) (simp add: valid_utf8_seq)
    qed
  qed simp
qed

section \<open>Encoding a rune\<close>

definition utf8_enc :: "nat \<Rightarrow> string" where
  "utf8_enc r =
     (if r < 0x80 then [char_of r]
      else if r < 0x800 then [char_of (0xC0 + r div 64), char_of (0x80 + r mod 64)]
      else if 0x10FFFF < r \<or> (0xD800 \<le> r \<and> r \<le> 0xDFFF) then replacement
      else if r < 0x10000 then
        [char_of (0xE0 + r div 4096), char_of (0x80 + r div 64 mod 64), char_of (0x80 + r mod 64)]
      else
        [char_of (0xF0 + r div 262144), char_of (0x80 + r div 4096 mod 64),
         char_of (0x80 + r div 64 mod 64), char_of (0x80 + r mod 64)])"

lemma byte_char_of [simp]: "n < 256 \<Longrightarrow> byte (char_of n) = n"
  by simp

lemma digits64: "(r :: nat) = 64 * (r div 64) + r mod 64"
  by simp

lemma valid_utf8_enc3:
  assumes "0x800 \<le> r" "r < 0xD800 \<or> 0xDFFF < r" "r < 0x10000"
  shows "valid_utf8 (utf8_enc r)"
proof -
  define a b x where "a = r div 4096" and "b = r div 64 mod 64" and "x = r mod 64"
  have h: "a \<le> 15" "a = 0 \<Longrightarrow> 32 \<le> b" "a = 13 \<Longrightarrow> b \<le> 31" "b < 64" "x < 64"
  proof -
    have "r = 4096 * a + 64 * b + x"
      using digits64 [of r] digits64 [of "r div 64"]
      unfolding a_def b_def x_def div_mult2_eq [of r 64 64, simplified] by linarith
    moreover have "b < 64" "x < 64" by (simp_all add: b_def x_def)
    ultimately show "a \<le> 15" "a = 0 \<Longrightarrow> 32 \<le> b" "a = 13 \<Longrightarrow> b \<le> 31" "b < 64" "x < 64"
      using assms by linarith+
  qed
  have e: "utf8_enc r = [char_of (0xE0 + a), char_of (0x80 + b), char_of (0x80 + x)]"
  proof -
    have "\<not> r < 0x80" "\<not> r < 0x800" "\<not> (0x10FFFF < r \<or> (0xD800 \<le> r \<and> r \<le> 0xDFFF))"
      using assms by linarith+
    then show ?thesis
      by (simp only: utf8_enc_def a_def b_def x_def assms if_True if_False)
  qed
  have "utf8_len (utf8_enc r) = 3"
    unfolding e using h by (simp add: utf8_len_defs second_ok_def cont_def Let_def)
  then show ?thesis
    using valid_utf8_seq [of "utf8_enc r" "[]"] by (simp add: e)
qed

lemma valid_utf8_enc4:
  assumes "0x10000 \<le> r" "r \<le> 0x10FFFF"
  shows "valid_utf8 (utf8_enc r)"
proof -
  define a b where "a = r div 262144" and "b = r div 4096 mod 64"
  define x y where "x = r div 64 mod 64" and "y = r mod 64"
  have h: "a \<le> 4" "a = 0 \<Longrightarrow> 16 \<le> b" "a = 4 \<Longrightarrow> b \<le> 15" "b < 64" "x < 64" "y < 64"
  proof -
    have "r = 262144 * a + 4096 * b + 64 * x + y"
      using digits64 [of r] digits64 [of "r div 64"] digits64 [of "r div 4096"]
      unfolding a_def b_def x_def y_def div_mult2_eq [of r 64 64, simplified]
        div_mult2_eq [of r 4096 64, simplified] by linarith
    moreover have "b < 64" "x < 64" "y < 64" by (simp_all add: b_def x_def y_def)
    ultimately show "a \<le> 4" "a = 0 \<Longrightarrow> 16 \<le> b" "a = 4 \<Longrightarrow> b \<le> 15" "b < 64" "x < 64" "y < 64"
      using assms by linarith+
  qed
  have e: "utf8_enc r = [char_of (0xF0 + a), char_of (0x80 + b), char_of (0x80 + x), char_of (0x80 + y)]"
  proof -
    have "\<not> r < 0x80" "\<not> r < 0x800" "\<not> (0x10FFFF < r \<or> (0xD800 \<le> r \<and> r \<le> 0xDFFF))" "\<not> r < 0x10000"
      using assms by linarith+
    then show ?thesis
      by (simp only: utf8_enc_def a_def b_def x_def y_def if_False)
  qed
  have "utf8_len (utf8_enc r) = 4"
    unfolding e using h by (simp add: utf8_len_defs second_ok_def cont_def Let_def)
  then show ?thesis
    using valid_utf8_seq [of "utf8_enc r" "[]"] by (simp add: e)
qed

lemma valid_utf8_enc: "valid_utf8 (utf8_enc r)"
proof -
  consider (a) "r < 0x80" | (b) "0x80 \<le> r" "r < 0x800"
    | (x) "0x800 \<le> r" "0x10FFFF < r \<or> (0xD800 \<le> r \<and> r \<le> 0xDFFF)"
    | (c) "0x800 \<le> r" "r < 0xD800 \<or> 0xDFFF < r" "r < 0x10000"
    | (d) "0x10000 \<le> r" "r \<le> 0x10FFFF"
    by linarith
  then show ?thesis
  proof cases
    case a
    then show ?thesis by (simp add: utf8_enc_def)
  next
    case b
    then have "0xC0 + r div 64 \<le> 0xDF" "0xC2 \<le> 0xC0 + r div 64" by linarith+
    then have "utf8_len (utf8_enc r) = 2"
      using b by (simp add: utf8_enc_def utf8_len_defs second_ok_def)
    then show ?thesis
      using b valid_utf8_seq [of "utf8_enc r" "[]"] by (simp add: utf8_enc_def)
  next
    case x
    then show ?thesis using valid_replacement by (simp add: utf8_enc_def)
  next
    case c
    then show ?thesis by (rule valid_utf8_enc3)
  next
    case d
    then show ?thesis by (rule valid_utf8_enc4)
  qed
qed

end
