(* ===== verification/JsonString.thy ===== *)
theory JsonString
  imports Prelude Utf8
begin

text \<open>
  String literals of \<^verbatim>\<open>encoding/json\<close> of the Go standard library: \<^verbatim>\<open>appendString\<close> with its default of
  escaping HTML, and the scanner's string states together with \<^verbatim>\<open>unquote\<close>. Whatever the bytes of a
  string, writing and reading it gives its well-formed form (\<open>str_body_escape\<close>), and what is read
  is always well-formed (\<open>str_body_valid\<close>).
\<close>

section \<open>Writing strings\<close>

abbreviation quote_char :: char where "quote_char \<equiv> CHR 0x22"
abbreviation backslash :: char where "backslash \<equiv> CHR 0x5C"

definition hex_digit :: "nat \<Rightarrow> char" where
  "hex_digit n = (if n < 10 then char_of (48 + n) else char_of (87 + n))"

text \<open>A byte of ASCII: \<^verbatim>\<open><\<close>, \<^verbatim>\<open>>\<close> and \<^verbatim>\<open>&\<close> are escaped too, the default of the library.\<close>

definition esc_ascii :: "char \<Rightarrow> string" where
  "esc_ascii c =
     (if c = quote_char \<or> c = backslash then [backslash, c]
      else if c = CHR 0x08 then [backslash, CHR ''b'']
      else if c = CHR 0x0C then [backslash, CHR ''f'']
      else if c = CHR 0x0A then [backslash, CHR ''n'']
      else if c = CHR 0x0D then [backslash, CHR ''r'']
      else if c = CHR 0x09 then [backslash, CHR ''t'']
      else if byte c < 0x20 \<or> c = CHR ''<'' \<or> c = CHR ''>'' \<or> c = CHR ''&'' then
        [backslash, CHR ''u'', CHR ''0'', CHR ''0'', hex_digit (byte c div 16), hex_digit (byte c mod 16)]
      else [c])"

definition line_sep :: string where "line_sep = [CHR 0xE2, CHR 0x80, CHR 0xA8]"
definition para_sep :: string where "para_sep = [CHR 0xE2, CHR 0x80, CHR 0xA9]"

text \<open>A sequence of several bytes: the two line separators are escaped.\<close>

definition esc_seq :: "string \<Rightarrow> string" where
  "esc_seq q =
     (if q = line_sep then [backslash] @ ''u2028''
      else if q = para_sep then [backslash] @ ''u2029''
      else q)"

function json_escape :: "string \<Rightarrow> string" where
  "json_escape s =
     (if s = [] then []
      else if utf8_len s = 0 then [backslash] @ ''ufffd'' @ json_escape (tl s)
      else if utf8_len s = 1 then esc_ascii (hd s) @ json_escape (tl s)
      else esc_seq (take (utf8_len s) s) @ json_escape (drop (utf8_len s) s))"
  by auto
termination
  by (relation "measure length") auto

declare json_escape.simps [simp del]

definition json_string :: "string \<Rightarrow> string" where
  "json_string s = [quote_char] @ json_escape s @ [quote_char]"

section \<open>Reading strings\<close>

definition hex_value :: "char \<Rightarrow> nat option" where
  "hex_value c =
     (if 48 \<le> byte c \<and> byte c \<le> 57 then Some (byte c - 48)
      else if 97 \<le> byte c \<and> byte c \<le> 102 then Some (byte c - 87)
      else if 65 \<le> byte c \<and> byte c \<le> 70 then Some (byte c - 55)
      else None)"

text \<open>Four hexadecimal digits, and \<^verbatim>\<open>getu4\<close>: the same after \<^verbatim>\<open>\u\<close>.\<close>

fun hex4 :: "string \<Rightarrow> nat option" where
  "hex4 (a # b # c # d # s) =
     (case (hex_value a, hex_value b, hex_value c, hex_value d) of
        (Some w, Some x, Some y, Some z) \<Rightarrow> Some (((w * 16 + x) * 16 + y) * 16 + z)
      | _ \<Rightarrow> None)"
| "hex4 _ = None"

definition getu4 :: "string \<Rightarrow> nat option" where
  "getu4 s = (if take 2 s = [backslash, CHR ''u''] then hex4 (drop 2 s) else None)"

definition is_surrogate :: "nat \<Rightarrow> bool" where
  "is_surrogate r \<longleftrightarrow> 0xD800 \<le> r \<and> r \<le> 0xDFFF"

text \<open>\<^verbatim>\<open>utf16.DecodeRune\<close>, with \<open>None\<close> for a pair that is not one.\<close>

definition surrogate_pair :: "nat \<Rightarrow> nat option \<Rightarrow> nat option" where
  "surrogate_pair r r1 =
     (case r1 of
        None \<Rightarrow> None
      | Some l \<Rightarrow>
          (if 0xD800 \<le> r \<and> r \<le> 0xDBFF \<and> 0xDC00 \<le> l \<and> l \<le> 0xDFFF
           then Some (0x10000 + (r - 0xD800) * 0x400 + (l - 0xDC00)) else None))"

definition simple_escape :: "char \<Rightarrow> char option" where
  "simple_escape c =
     (if c = quote_char \<or> c = backslash \<or> c = CHR ''/'' then Some c
      else if c = CHR ''b'' then Some (CHR 0x08)
      else if c = CHR ''f'' then Some (CHR 0x0C)
      else if c = CHR ''n'' then Some (CHR 0x0A)
      else if c = CHR ''r'' then Some (CHR 0x0D)
      else if c = CHR ''t'' then Some (CHR 0x09)
      else None)"

text \<open>
  One item of the inside of a string literal: the bytes it stands for and the rest. \<open>None\<close> is a
  syntax error: a bad escape or a control character.
\<close>

definition str_item :: "string \<Rightarrow> (string \<times> string) option" where
  "str_item s =
     (case s of
        [] \<Rightarrow> None
      | c # r \<Rightarrow>
          (if c = backslash then
             (case r of
                [] \<Rightarrow> None
              | e # r' \<Rightarrow>
                  (if e = CHR ''u'' then
                     (case hex4 r' of
                        None \<Rightarrow> None
                      | Some rr \<Rightarrow>
                          (if is_surrogate rr then
                             (case surrogate_pair rr (getu4 (drop 4 r')) of
                                Some rune \<Rightarrow> Some (utf8_enc rune, drop 10 r')
                              | None \<Rightarrow> Some (replacement, drop 4 r'))
                           else Some (utf8_enc rr, drop 4 r')))
                   else
                     (case simple_escape e of
                        None \<Rightarrow> None
                      | Some x \<Rightarrow> Some ([x], r'))))
           else if byte c < 0x20 then None
           else if utf8_len s = 0 then Some (replacement, r)
           else Some (take (utf8_len s) s, drop (utf8_len s) s)))"

lemma str_item_shorter: "str_item s = Some (x, r) \<Longrightarrow> length r < length s"
  unfolding str_item_def
  by (cases s; simp split: list.split_asm if_split_asm option.split_asm) auto

text \<open>The literal up to its closing quote: its value and what follows it.\<close>

function str_body :: "string \<Rightarrow> (string \<times> string) option" where
  "str_body s =
     (if s \<noteq> [] \<and> hd s = quote_char then Some ([], tl s)
      else case str_item s of
             None \<Rightarrow> None
           | Some (x, r) \<Rightarrow>
               (case str_body r of
                  None \<Rightarrow> None
                | Some (y, t) \<Rightarrow> Some (x @ y, t)))"
  by auto
termination
  by (relation "measure length") (auto dest: str_item_shorter)

declare str_body.simps [simp del]

lemma str_body_shorter: "str_body s = Some (x, r) \<Longrightarrow> length r < length s"
proof (induction s arbitrary: x r rule: str_body.induct)
  case (1 s)
  show ?case
  proof (cases "s \<noteq> [] \<and> hd s = quote_char")
    case True
    then show ?thesis
      using "1.prems" by (auto simp: str_body.simps [of s])
  next
    case False
    then obtain y u z where i: "str_item s = Some (y, u)" and b: "str_body u = Some (z, r)"
      using "1.prems" by (auto simp: str_body.simps [of s] simp del: not_None_eq split: option.splits)
    show ?thesis
      using "1.IH" [OF False i refl b] str_item_shorter [OF i] by simp
  qed
qed

section \<open>Strings come back\<close>

lemma str_body_close: "str_body (quote_char # t) = Some ([], t)"
  by (simp add: str_body.simps)

lemma str_body_item:
  assumes "str_item s = Some (x, r)" and "hd s \<noteq> quote_char" and "str_body r = Some (y, t)"
  shows "str_body s = Some (x @ y, t)"
  using assms by (subst str_body.simps) simp

lemma hex_value_digit: "n < 16 \<Longrightarrow> hex_value (hex_digit n) = Some n"
  by (auto simp: hex_value_def hex_digit_def)

lemma hex4_byte:
  assumes "n < 256"
  shows "hex4 (CHR ''0'' # CHR ''0'' # hex_digit (n div 16) # hex_digit (n mod 16) # u) = Some n"
proof -
  have "hex_value (hex_digit (n div 16)) = Some (n div 16)" "hex_value (hex_digit (n mod 16)) = Some (n mod 16)"
    using assms by (intro hex_value_digit; simp)+
  moreover have "hex_value (CHR ''0'') = Some 0"
    by (simp add: hex_value_def)
  ultimately show ?thesis by simp
qed

lemma str_item_plain:
  assumes "c \<noteq> backslash" and "\<not> byte c < 0x20" and "utf8_len (c # u) = 1"
  shows "str_item (c # u) = Some ([c], u)"
  using assms by (simp add: str_item_def)

lemma str_item_simple:
  assumes "simple_escape e = Some x"
  shows "str_item (backslash # e # u) = Some ([x], u)"
proof -
  have "e \<noteq> CHR ''u''"
    using assms by (auto simp: simple_escape_def)
  then show ?thesis
    using assms by (simp add: str_item_def)
qed

lemma str_item_hex:
  assumes "hex4 (r @ u) = Some n" and "\<not> is_surrogate n" and "length r = 4"
  shows "str_item (backslash # CHR ''u'' # r @ u) = Some (utf8_enc n, u)"
  using assms by (simp add: str_item_def)

lemma utf8_enc_ascii: "byte c < 0x80 \<Longrightarrow> utf8_enc (byte c) = [c]"
  by (simp add: utf8_enc_def)

lemma esc_ascii_item:
  assumes "byte c < 0x80"
  shows "str_item (esc_ascii c @ u) = Some ([c], u)" and "hd (esc_ascii c @ u) \<noteq> quote_char"
proof -
  let ?html = "byte c < 0x20 \<or> c = CHR ''<'' \<or> c = CHR ''>'' \<or> c = CHR ''&''"
  have "(\<exists>e. esc_ascii c = [backslash, e] \<and> simple_escape e = Some c)
      \<or> esc_ascii c = [backslash, CHR ''u'', CHR ''0'', CHR ''0'', hex_digit (byte c div 16), hex_digit (byte c mod 16)]
      \<or> (esc_ascii c = [c] \<and> c \<noteq> backslash \<and> c \<noteq> quote_char \<and> \<not> byte c < 0x20)"
    unfolding esc_ascii_def by (simp add: simple_escape_def)
  then consider (simple) e where "esc_ascii c = [backslash, e]" "simple_escape e = Some c"
    | (hex) "esc_ascii c = [backslash, CHR ''u'', CHR ''0'', CHR ''0'', hex_digit (byte c div 16), hex_digit (byte c mod 16)]"
    | (plain) "esc_ascii c = [c]" "c \<noteq> backslash" "c \<noteq> quote_char" "\<not> byte c < 0x20"
    by blast
  then have "str_item (esc_ascii c @ u) = Some ([c], u) \<and> hd (esc_ascii c @ u) \<noteq> quote_char"
  proof cases
    case simple
    then show ?thesis by (simp add: str_item_simple)
  next
    case hex
    have "\<not> is_surrogate (byte c)"
      using assms by (simp add: is_surrogate_def)
    moreover have "hex4 ([CHR ''0'', CHR ''0'', hex_digit (byte c div 16), hex_digit (byte c mod 16)] @ u)
        = Some (byte c)"
      using hex4_byte [of "byte c" u] assms by simp
    ultimately show ?thesis
      using str_item_hex utf8_enc_ascii [OF assms] by (fastforce simp: hex)
  next
    case plain
    then show ?thesis
      using assms by (simp add: str_item_plain utf8_len_ascii)
  qed
  then show "str_item (esc_ascii c @ u) = Some ([c], u)" and "hd (esc_ascii c @ u) \<noteq> quote_char"
    by simp_all
qed

lemma utf8_len_lead:
  assumes "2 \<le> utf8_len s"
  obtains c r where "s = c # r" "0xC2 \<le> byte c"
  using assms by (cases s) (auto simp: utf8_len_defs Let_def split: if_splits)

lemma str_item_rune:
  "hex4 r = Some n \<Longrightarrow> length r = 4 \<Longrightarrow> \<not> is_surrogate n \<Longrightarrow>
     str_item (backslash # CHR ''u'' # r @ u) = Some (utf8_enc n, u)"
  by (rule str_item_hex) (cases r rule: hex4.cases; simp)+

lemma esc_seq_item:
  assumes "2 \<le> utf8_len s"
  defines "q \<equiv> take (utf8_len s) s"
  shows "str_item (esc_seq q @ u) = Some (q, u)" and "hd (esc_seq q @ u) \<noteq> quote_char"
proof -
  have "str_item (esc_seq q @ u) = Some (q, u) \<and> hd (esc_seq q @ u) \<noteq> quote_char"
  proof (cases "q = line_sep \<or> q = para_sep")
    case True
    have "str_item (backslash # CHR ''u'' # ''2028'' @ u) = Some (utf8_enc 0x2028, u)"
      by (rule str_item_rune) (simp_all add: hex_value_def is_surrogate_def)
    moreover have "str_item (backslash # CHR ''u'' # ''2029'' @ u) = Some (utf8_enc 0x2029, u)"
      by (rule str_item_rune) (simp_all add: hex_value_def is_surrogate_def)
    moreover have "utf8_enc 0x2028 = line_sep" "utf8_enc 0x2029 = para_sep" "line_sep \<noteq> para_sep"
      by (simp_all add: utf8_enc_def line_sep_def para_sep_def char_of_eq_iff take_bit_eq_mod)
    ultimately show ?thesis
      using True by (auto simp: esc_seq_def)
  next
    case False
    obtain c r where s: "s = c # r" "0xC2 \<le> byte c"
      using assms(1) by (rule utf8_len_lead)
    obtain q' where q: "q = c # q'"
      using assms(1) by (cases "utf8_len s") (auto simp: q_def s(1))
    have "utf8_len (q @ u) = length q"
      using utf8_len_take [of s u] utf8_len_le [of s] assms(1) by (simp add: q_def)
    moreover have "c \<noteq> backslash" "c \<noteq> quote_char" "\<not> byte c < 0x20"
      using s(2) by auto
    ultimately show ?thesis
      using False by (simp add: esc_seq_def str_item_def q)
  qed
  then show "str_item (esc_seq q @ u) = Some (q, u)" and "hd (esc_seq q @ u) \<noteq> quote_char"
    by simp_all
qed

lemma esc_bad_item:
  "str_item (backslash # ''ufffd'' @ u) = Some (replacement, u)"
proof -
  have "str_item (backslash # CHR ''u'' # ''fffd'' @ u) = Some (utf8_enc 0xFFFD, u)"
    by (rule str_item_rune) (simp_all add: hex_value_def is_surrogate_def)
  moreover have "utf8_enc 0xFFFD = replacement"
    by (simp add: utf8_enc_def replacement_def char_of_eq_iff take_bit_eq_mod)
  ultimately show ?thesis by simp
qed

lemma utf8_len_1: "utf8_len s = 1 \<Longrightarrow> byte (hd s) < 0x80"
  by (cases s) (auto simp: utf8_len_defs Let_def split: if_splits list.splits)

text \<open>What is written between quotes is read back, each stray byte as U+FFFD.\<close>

lemma str_body_escape: "str_body (json_escape s @ quote_char # t) = Some (to_valid s, t)"
proof (induction s rule: json_escape.induct)
  case (1 s)
  show ?case
  proof (cases "s = []")
    case True
    then show ?thesis by (simp add: json_escape.simps str_body_close)
  next
    case ne: False
    consider "utf8_len s = 0" | "utf8_len s = 1" | "2 \<le> utf8_len s" by linarith
    then show ?thesis
    proof cases
      case 1
      then show ?thesis
        using str_body_item [OF esc_bad_item _ "1.IH"(1)] ne
        by (simp add: json_escape.simps [of s] to_valid.simps [of s])
    next
      case 2
      then show ?thesis
        using str_body_item [OF esc_ascii_item [OF utf8_len_1] "1.IH"(2)] ne
        by (simp add: json_escape.simps [of s] to_valid.simps [of s] take_Suc drop_Suc)
    next
      case 3
      then show ?thesis
        using str_body_item [OF esc_seq_item "1.IH"(3)] ne
        by (simp add: json_escape.simps [of s] to_valid.simps [of s])
    qed
  qed
qed

section \<open>What is read is well-formed\<close>

lemma valid_simple: "simple_escape e = Some x \<Longrightarrow> valid_utf8 [x]"
  by (auto simp: simple_escape_def split: if_split_asm)

lemma valid_take: "0 < utf8_len s \<Longrightarrow> valid_utf8 (take (utf8_len s) s)"
  using valid_utf8_seq [of "take (utf8_len s) s" "[]"] utf8_len_take [of s "[]"] utf8_len_le [of s] by simp

lemma valid_single: "0 < utf8_len [a] \<Longrightarrow> valid_utf8 [a]"
  using valid_take [of "[a]"] by (cases "utf8_len [a]") simp_all

lemma str_item_valid: "str_item s = Some (x, r) \<Longrightarrow> valid_utf8 x"
  unfolding str_item_def
  by (cases s; simp split: list.split_asm if_split_asm option.split_asm)
    (auto simp: valid_utf8_enc valid_replacement intro: valid_simple valid_take valid_single)

lemma str_body_valid: "str_body s = Some (x, r) \<Longrightarrow> valid_utf8 x"
proof (induction s arbitrary: x r rule: str_body.induct)
  case (1 s)
  show ?case
  proof (cases "s \<noteq> [] \<and> hd s = quote_char")
    case True
    then show ?thesis
      using "1.prems" by (auto simp: str_body.simps [of s])
  next
    case False
    then obtain y u z where i: "str_item s = Some (y, u)" and b: "str_body u = Some (z, r)" and x: "x = y @ z"
      using "1.prems" by (auto simp: str_body.simps [of s] simp del: not_None_eq split: option.splits)
    show ?thesis
      using "1.IH" [OF False i refl b] str_item_valid [OF i] by (simp add: x valid_utf8_append)
  qed
qed

end
