(* ===== verification/Json.thy ===== *)
theory Json
  imports Prelude JsonString "HOL-Library.List_Lexorder" "HOL-Library.Char_ord"
begin

text \<open>
  \<^verbatim>\<open>encoding/json\<close> of the Go standard library, as far as the program uses it: \<^verbatim>\<open>json.Marshal\<close> of a
  struct of strings, \<^verbatim>\<open>Encoder.Encode\<close> of a \<^verbatim>\<open>map[string]string\<close>, \<^verbatim>\<open>json.Unmarshal\<close> and
  \<^verbatim>\<open>Decoder.Decode\<close> into a struct of strings or a \<^verbatim>\<open>map[string]string\<close>.

  The scanner is an automaton with an explicit stack, as in the library, so that its limit on
  the nesting depth is a limit on the length of the stack. Errors are \<open>None\<close>; their texts are
  left to the definitions that report them.
\<close>

section \<open>Tokens\<close>

datatype token =
    TLBrace | TRBrace | TLBrack | TRBrack | TComma | TColon
  | TStr string | TNum string | TTrue | TFalse | TNull

definition is_space :: "char \<Rightarrow> bool" where
  "is_space c \<longleftrightarrow> c = CHR 0x20 \<or> c = CHR 0x09 \<or> c = CHR 0x0A \<or> c = CHR 0x0D"

definition digit :: "char \<Rightarrow> bool" where
  "digit c \<longleftrightarrow> 48 \<le> byte c \<and> byte c \<le> 57"

text \<open>The parts of a number: each takes a prefix, or fails.\<close>

definition num_int :: "string \<Rightarrow> (string \<times> string) option" where
  "num_int s =
     (let (sign, r) = (if s \<noteq> [] \<and> hd s = CHR ''-'' then (''-'', tl s) else ([], s))
      in if r = [] \<or> \<not> digit (hd r) then None
         else if hd r = CHR ''0'' then Some (sign @ ''0'', tl r)
         else Some (sign @ takeWhile digit r, dropWhile digit r))"

definition num_frac :: "string \<Rightarrow> (string \<times> string) option" where
  "num_frac s =
     (if s \<noteq> [] \<and> hd s = CHR ''.'' then
        (if takeWhile digit (tl s) = [] then None
         else Some (''.'' @ takeWhile digit (tl s), dropWhile digit (tl s)))
      else Some ([], s))"

definition num_exp :: "string \<Rightarrow> (string \<times> string) option" where
  "num_exp s =
     (if s \<noteq> [] \<and> (hd s = CHR ''e'' \<or> hd s = CHR ''E'') then
        (let r = tl s;
             (sign, u) = (if r \<noteq> [] \<and> (hd r = CHR ''+'' \<or> hd r = CHR ''-'') then ([hd r], tl r) else ([], r))
         in if takeWhile digit u = [] then None
            else Some (hd s # sign @ takeWhile digit u, dropWhile digit u))
      else Some ([], s))"

definition lex_number :: "string \<Rightarrow> (string \<times> string) option" where
  "lex_number s =
     (case num_int s of
        None \<Rightarrow> None
      | Some (a, r) \<Rightarrow>
          (case num_frac r of
             None \<Rightarrow> None
           | Some (b, u) \<Rightarrow>
               (case num_exp u of
                  None \<Rightarrow> None
                | Some (c, t) \<Rightarrow> Some (a @ b @ c, t))))"

definition lex_word :: "string \<Rightarrow> token \<Rightarrow> string \<Rightarrow> (token \<times> string) option" where
  "lex_word w t s = (if take (length w) s = w then Some (t, drop (length w) s) else None)"

text \<open>The next token after white space; its first byte tells which it is.\<close>

definition lex_token :: "char \<Rightarrow> string \<Rightarrow> (token \<times> string) option" where
  "lex_token c r =
     (if c = CHR 0x7B then Some (TLBrace, r)
      else if c = CHR 0x7D then Some (TRBrace, r)
      else if c = CHR 0x5B then Some (TLBrack, r)
      else if c = CHR 0x5D then Some (TRBrack, r)
      else if c = CHR '','' then Some (TComma, r)
      else if c = CHR '':'' then Some (TColon, r)
      else if c = quote_char then map_option (\<lambda>(x, t). (TStr x, t)) (str_body r)
      else if c = CHR ''t'' then lex_word ''rue'' TTrue r
      else if c = CHR ''f'' then lex_word ''alse'' TFalse r
      else if c = CHR ''n'' then lex_word ''ull'' TNull r
      else map_option (\<lambda>(x, t). (TNum x, t)) (lex_number (c # r)))"

definition lex :: "string \<Rightarrow> (token \<times> string) option" where
  "lex s = (case dropWhile is_space s of [] \<Rightarrow> None | c # r \<Rightarrow> lex_token c r)"

lemma dropWhile_shorter: "r \<noteq> [] \<Longrightarrow> P (hd r) \<Longrightarrow> length (dropWhile P r) < length r"
  using length_dropWhile_le [of P "tl r"] by (cases r) simp_all

lemma dropWhile_tl_le: "length (dropWhile P (tl r)) \<le> length r"
  using length_dropWhile_le [of P "tl r"] by simp

lemma num_int_shorter: "num_int s = Some (a, r) \<Longrightarrow> length r < length s"
  using dropWhile_shorter [of s digit] dropWhile_shorter [of "tl s" digit]
  by (auto simp: num_int_def Let_def split: if_split_asm)

lemma num_frac_le: "num_frac s = Some (a, r) \<Longrightarrow> length r \<le> length s"
  using dropWhile_tl_le [of digit s] by (auto simp: num_frac_def split: if_split_asm)

lemma num_exp_le: "num_exp s = Some (a, r) \<Longrightarrow> length r \<le> length s"
  using dropWhile_tl_le [of digit s] dropWhile_tl_le [of digit "tl s"]
  by (auto simp: num_exp_def Let_def split: if_split_asm)

lemma lex_number_shorter: "lex_number s = Some (x, r) \<Longrightarrow> length r < length s"
  by (auto simp: lex_number_def simp del: not_None_eq split: option.splits
      dest!: num_int_shorter num_frac_le num_exp_le)

lemma lex_token_shorter: "lex_token c s = Some (t, r) \<Longrightarrow> length r < Suc (length s)"
  unfolding lex_token_def
  by (auto simp: lex_word_def split: if_split_asm dest: str_body_shorter lex_number_shorter)

lemma lex_shorter: "lex s = Some (t, r) \<Longrightarrow> length r < length s"
  using length_dropWhile_le [of is_space s]
  by (auto simp: lex_def split: list.split_asm dest: lex_token_shorter)

section \<open>The automaton\<close>

datatype json =
    JNull | JBool bool | JNum string | JStr string | JArr "json list" | JObj "(string \<times> json) list"

text \<open>
  An open container with the items read so far, last first, and for an object the key whose
  value comes next. The modes are the states \<^verbatim>\<open>stateBeginValue\<close>, \<^verbatim>\<open>stateBeginValueOrEmpty\<close>,
  \<^verbatim>\<open>stateBeginStringOrEmpty\<close>, \<^verbatim>\<open>stateBeginString\<close> and the two in which \<^verbatim>\<open>stateEndValue\<close> is in.
\<close>

datatype frame = FArr "json list" | FObj "(string \<times> json) list" string

datatype mode = MValue | MFirstElem | MFirstKey | MKey | MColon | MAfter

datatype progress = Finished json | Next mode "frame list"

definition maxNestingDepth :: nat where "maxNestingDepth = 10000"

fun finish :: "json \<Rightarrow> frame list \<Rightarrow> progress" where
  "finish v [] = Finished v"
| "finish v (FArr vs # stk) = Next MAfter (FArr (v # vs) # stk)"
| "finish v (FObj ms k # stk) = Next MAfter (FObj ((k, v) # ms) [] # stk)"

definition push :: "mode \<Rightarrow> frame \<Rightarrow> frame list \<Rightarrow> progress option" where
  "push m f stk = (if length stk < maxNestingDepth then Some (Next m (f # stk)) else None)"

fun begin_value :: "token \<Rightarrow> frame list \<Rightarrow> progress option" where
  "begin_value TLBrace stk = push MFirstKey (FObj [] []) stk"
| "begin_value TLBrack stk = push MFirstElem (FArr []) stk"
| "begin_value (TStr x) stk = Some (finish (JStr x) stk)"
| "begin_value (TNum x) stk = Some (finish (JNum x) stk)"
| "begin_value TTrue stk = Some (finish (JBool True) stk)"
| "begin_value TFalse stk = Some (finish (JBool False) stk)"
| "begin_value TNull stk = Some (finish JNull stk)"
| "begin_value _ stk = None"

fun act :: "mode \<Rightarrow> token \<Rightarrow> frame list \<Rightarrow> progress option" where
  "act MValue t stk = begin_value t stk"
| "act MFirstElem TRBrack (FArr vs # stk) = Some (finish (JArr (rev vs)) stk)"
| "act MFirstElem t stk = begin_value t stk"
| "act MFirstKey TRBrace (FObj ms k # stk) = Some (finish (JObj (rev ms)) stk)"
| "act MFirstKey (TStr x) (FObj ms k # stk) = Some (Next MColon (FObj ms x # stk))"
| "act MKey (TStr x) (FObj ms k # stk) = Some (Next MColon (FObj ms x # stk))"
| "act MColon TColon stk = Some (Next MValue stk)"
| "act MAfter TComma (FArr vs # stk) = Some (Next MValue (FArr vs # stk))"
| "act MAfter TRBrack (FArr vs # stk) = Some (finish (JArr (rev vs)) stk)"
| "act MAfter TComma (FObj ms k # stk) = Some (Next MKey (FObj ms k # stk))"
| "act MAfter TRBrace (FObj ms k # stk) = Some (finish (JObj (rev ms)) stk)"
| "act _ _ _ = None"

text \<open>One value off the front of the input, and the rest.\<close>

function read_value :: "mode \<Rightarrow> frame list \<Rightarrow> string \<Rightarrow> (json \<times> string) option" where
  "read_value m stk s =
     (case lex s of
        None \<Rightarrow> None
      | Some (t, r) \<Rightarrow>
          (case act m t stk of
             None \<Rightarrow> None
           | Some (Finished v) \<Rightarrow> Some (v, r)
           | Some (Next m' stk') \<Rightarrow> read_value m' stk' r))"
  by auto
termination
  by (relation "measure (\<lambda>(m, stk, s). length s)") (auto dest: lex_shorter)

declare read_value.simps [simp del]

text \<open>
  \<^verbatim>\<open>Decoder.Decode\<close> reads one value and leaves what follows it; \<^verbatim>\<open>json.Unmarshal\<close> allows only
  white space after it.
\<close>

definition decode_value :: "string \<Rightarrow> json option" where
  "decode_value s = map_option fst (read_value MValue [] s)"

definition unmarshal_value :: "string \<Rightarrow> json option" where
  "unmarshal_value s =
     (case read_value MValue [] s of
        None \<Rightarrow> None
      | Some (v, r) \<Rightarrow> if list_all is_space r then Some v else None)"

section \<open>Into a struct of strings\<close>

text \<open>
  A member is matched with a field by its exact name, else by its folded name. Folding sends
  letters of ASCII to capitals, and of all other characters just U+212A and U+017F to ASCII;
  the rest cannot match a name in ASCII and is left as it is.
\<close>

definition fold_char :: "char \<Rightarrow> char" where
  "fold_char c = (if 97 \<le> byte c \<and> byte c \<le> 122 then char_of (byte c - 32) else c)"

fun fold_name :: "string \<Rightarrow> string" where
  "fold_name [] = []"
| "fold_name (a # s) =
     (if a = CHR 0xE2 \<and> take 2 s = [CHR 0x84, CHR 0xAA] then CHR ''K'' # fold_name (drop 2 s)
      else if a = CHR 0xC5 \<and> take 1 s = [CHR 0xBF] then CHR ''S'' # fold_name (drop 1 s)
      else fold_char a # fold_name s)"

definition find_field :: "string list \<Rightarrow> string \<Rightarrow> nat option" where
  "find_field names k =
     (case find (\<lambda>i. names ! i = k) [0..<length names] of
        Some i \<Rightarrow> Some i
      | None \<Rightarrow> find (\<lambda>i. fold_name (names ! i) = fold_name k) [0..<length names])"

text \<open>A value into a string: null leaves it as it is, anything else than a string is an error.\<close>

definition store_string :: "json \<Rightarrow> string \<Rightarrow> string option" where
  "store_string v old = (case v of JStr x \<Rightarrow> Some x | JNull \<Rightarrow> Some old | _ \<Rightarrow> None)"

fun fill_struct :: "string list \<Rightarrow> (string \<times> json) list \<Rightarrow> string list \<Rightarrow> string list option" where
  "fill_struct names [] vals = Some vals"
| "fill_struct names ((k, v) # ms) vals =
     (case find_field names k of
        None \<Rightarrow> fill_struct names ms vals
      | Some i \<Rightarrow>
          (case store_string v (vals ! i) of
             None \<Rightarrow> None
           | Some x \<Rightarrow> fill_struct names ms (vals[i := x])))"

definition into_struct :: "string list \<Rightarrow> json \<Rightarrow> string list option" where
  "into_struct names v =
     (case v of
        JNull \<Rightarrow> Some (replicate (length names) [])
      | JObj ms \<Rightarrow> fill_struct names ms (replicate (length names) [])
      | _ \<Rightarrow> None)"

section \<open>Into a map of strings\<close>

fun fill_map :: "(string \<times> json) list \<Rightarrow> (string \<rightharpoonup> string) \<Rightarrow> (string \<rightharpoonup> string) option" where
  "fill_map [] m = Some m"
| "fill_map ((k, v) # ms) m =
     (case store_string v [] of
        None \<Rightarrow> None
      | Some x \<Rightarrow> fill_map ms (m(k \<mapsto> x)))"

definition into_map :: "json \<Rightarrow> (string \<rightharpoonup> string) option" where
  "into_map v =
     (case v of
        JNull \<Rightarrow> Some Map.empty
      | JObj ms \<Rightarrow> fill_map ms Map.empty
      | _ \<Rightarrow> None)"

section \<open>Writing objects\<close>

definition json_member :: "string \<times> string \<Rightarrow> string" where
  "json_member p = json_string (fst p) @ '':'' @ json_string (snd p)"

fun json_members :: "(string \<times> string) list \<Rightarrow> string" where
  "json_members [] = []"
| "json_members [p] = json_member p"
| "json_members (p # ps) = json_member p @ '','' @ json_members ps"

definition json_object :: "(string \<times> string) list \<Rightarrow> string" where
  "json_object es = [CHR 0x7B] @ json_members es @ [CHR 0x7D]"

text \<open>
  \<^verbatim>\<open>Encoder.Encode\<close> of a map: the pairs, in the order in which the map is ranged over, are sorted
  by key, and a newline ends the value.
\<close>

definition json_map :: "(string \<times> string) list \<Rightarrow> string" where
  "json_map es = json_object (sort_key fst es) @ [CHR 0x0A]"

section \<open>Objects come back\<close>

definition valid_pair :: "string \<times> string \<Rightarrow> string \<times> string" where
  "valid_pair p = (to_valid (fst p), to_valid (snd p))"

definition as_member :: "string \<times> string \<Rightarrow> string \<times> json" where
  "as_member p = (to_valid (fst p), JStr (to_valid (snd p)))"

lemma lex_char:
  "lex (CHR 0x7B # r) = Some (TLBrace, r)" "lex (CHR 0x7D # r) = Some (TRBrace, r)"
  "lex (CHR '','' # r) = Some (TComma, r)" "lex (CHR '':'' # r) = Some (TColon, r)"
  by (simp_all add: lex_def is_space_def lex_token_def)

lemma lex_string: "lex (json_string x @ r) = Some (TStr (to_valid x), r)"
  by (simp add: lex_def is_space_def lex_token_def json_string_def str_body_escape)

lemma read_next:
  "lex s = Some (t, r) \<Longrightarrow> act m t stk = Some (Next m' stk') \<Longrightarrow>
     read_value m stk s = read_value m' stk' r"
  by (subst read_value.simps) simp

lemma read_done:
  "lex s = Some (t, r) \<Longrightarrow> act m t stk = Some (Finished v) \<Longrightarrow> read_value m stk s = Some (v, r)"
  by (subst read_value.simps) simp

lemma read_member:
  assumes "m = MFirstKey \<or> m = MKey"
  shows "read_value m [FObj ms k] (json_member p @ r) = read_value MAfter [FObj (as_member p # ms) []] r"
  using assms
  by (auto simp: json_member_def as_member_def read_next [OF lex_string] read_next [OF lex_char(4)])

lemma read_members:
  assumes "m = MFirstKey \<or> m = MKey" and "es \<noteq> []"
  shows "read_value m [FObj ms k] (json_members es @ CHR 0x7D # t) = Some (JObj (rev ms @ map as_member es), t)"
  using assms
proof (induction es arbitrary: m ms k rule: json_members.induct)
  case (2 p)
  then show ?case
    by (simp add: read_member read_done [OF lex_char(2)])
next
  case (3 p q ps)
  then show ?case
    by (simp add: read_member read_next [OF lex_char(3)])
qed simp

lemma read_object: "read_value MValue [] (json_object es @ t) = Some (JObj (map as_member es), t)"
  using read_members [of MFirstKey es "[]" "[]" t]
  by (cases "es = []")
    (simp_all add: json_object_def read_next [OF lex_char(1)] push_def maxNestingDepth_def read_done [OF lex_char(2)])

lemma unmarshal_object: "unmarshal_value (json_object es) = Some (JObj (map as_member es))"
  using read_object [of es "[]"] by (simp add: unmarshal_value_def)

lemma decode_object: "decode_value (json_object es @ t) = Some (JObj (map as_member es))"
  by (simp add: decode_value_def read_object)

lemma find_map_nth:
  "distinct names \<Longrightarrow> i < length names \<Longrightarrow> find_field names (names ! i) = Some i"
proof -
  assume d: "distinct names" and i: "i < length names"
  have "find (\<lambda>j. names ! j = names ! i) [0..<length names] = Some i"
    using d i by (auto simp: find_Some_iff nth_eq_iff_index_eq intro!: exI [of _ i])
  then show ?thesis by (simp add: find_field_def)
qed

text \<open>A struct that is written is read back with each field in its well-formed form.\<close>

lemma fill_struct_back:
  assumes "distinct names" and "\<forall>n \<in> set names. to_valid n = n"
    and "length vals = length names" and "length cur = length names" and "j \<le> length names"
  shows "fill_struct names (map as_member (drop j (zip names vals))) cur
    = Some (take j cur @ map to_valid (drop j vals))"
  using assms
proof (induction "length names - j" arbitrary: j cur)
  case 0
  then show ?case by simp
next
  case (Suc n)
  then have j: "j < length names" by simp
  then have d: "drop j (zip names vals) = (names ! j, vals ! j) # drop (Suc j) (zip names vals)"
    using Suc.prems by (simp add: Cons_nth_drop_Suc [symmetric])
  have "to_valid (names ! j) = names ! j"
    using Suc.prems j by simp
  then have "fill_struct names (map as_member (drop j (zip names vals))) cur
      = fill_struct names (map as_member (drop (Suc j) (zip names vals))) (cur[j := to_valid (vals ! j)])"
    using Suc.prems j by (simp add: d as_member_def find_map_nth store_string_def)
  also have "\<dots> = Some (take (Suc j) (cur[j := to_valid (vals ! j)]) @ map to_valid (drop (Suc j) vals))"
    using Suc.hyps(1) [of "Suc j" "cur[j := to_valid (vals ! j)]"] Suc.prems Suc.hyps(2) j by simp
  also have "take (Suc j) (cur[j := to_valid (vals ! j)]) @ map to_valid (drop (Suc j) vals)
      = take j cur @ map to_valid (drop j vals)"
    using Suc.prems j by (simp add: take_Suc_conv_app_nth Cons_nth_drop_Suc [symmetric, of j vals])
  finally show ?case .
qed

lemma into_struct_back:
  assumes "distinct names" and "\<forall>n \<in> set names. to_valid n = n" and "length vals = length names"
  shows "into_struct names (JObj (map as_member (zip names vals))) = Some (map to_valid vals)"
  using fill_struct_back [OF assms, of "replicate (length names) []" 0] by (simp add: into_struct_def)

text \<open>The same for a map.\<close>

lemma fill_map_back: "fill_map (map as_member es) m = Some (writes (map valid_pair es) m)"
  by (induction es arbitrary: m) (simp_all add: as_member_def store_string_def valid_pair_def)

lemma into_map_back: "into_map (JObj (map as_member es)) = Some (writes (map valid_pair es) Map.empty)"
  by (simp add: into_map_def fill_map_back)

section \<open>What is read is well-formed\<close>

definition str_ok :: "json \<Rightarrow> bool" where
  "str_ok v = (case v of JStr x \<Rightarrow> valid_utf8 x | _ \<Rightarrow> True)"

definition members_ok :: "(string \<times> json) list \<Rightarrow> bool" where
  "members_ok ms = list_all (\<lambda>(k, v). valid_utf8 k \<and> str_ok v) ms"

definition value_ok :: "json \<Rightarrow> bool" where
  "value_ok v = (str_ok v \<and> (case v of JObj ms \<Rightarrow> members_ok ms | _ \<Rightarrow> True))"

fun frame_ok :: "frame \<Rightarrow> bool" where
  "frame_ok (FArr vs) = True"
| "frame_ok (FObj ms k) = (members_ok ms \<and> valid_utf8 k)"

definition token_ok :: "token \<Rightarrow> bool" where
  "token_ok t = (case t of TStr x \<Rightarrow> valid_utf8 x | _ \<Rightarrow> True)"

fun progress_ok :: "progress \<Rightarrow> bool" where
  "progress_ok (Finished v) = value_ok v"
| "progress_ok (Next m stk) = list_all frame_ok stk"

lemmas ok_defs = str_ok_def members_ok_def value_ok_def token_ok_def

lemma finish_ok: "value_ok v \<Longrightarrow> list_all frame_ok stk \<Longrightarrow> progress_ok (finish v stk)"
  by (cases "(v, stk)" rule: finish.cases) (simp_all add: ok_defs)

lemma push_ok: "push m f stk = Some p \<Longrightarrow> frame_ok f \<Longrightarrow> list_all frame_ok stk \<Longrightarrow> progress_ok p"
  by (auto simp: push_def split: if_split_asm)

lemma begin_value_ok:
  "begin_value t stk = Some p \<Longrightarrow> token_ok t \<Longrightarrow> list_all frame_ok stk \<Longrightarrow> progress_ok p"
  by (cases t) (auto simp: ok_defs intro!: finish_ok elim!: push_ok)

lemma act_ok:
  "act m t stk = Some p \<Longrightarrow> token_ok t \<Longrightarrow> list_all frame_ok stk \<Longrightarrow> progress_ok p"
  by (cases "(m, t, stk)" rule: act.cases)
    (auto simp: ok_defs intro!: finish_ok elim!: begin_value_ok push_ok)

lemma lex_ok: "lex s = Some (t, r) \<Longrightarrow> token_ok t"
  by (auto simp: lex_def lex_token_def lex_word_def token_ok_def
      split: list.split_asm if_split_asm dest: str_body_valid)

lemma read_value_ok: "read_value m stk s = Some (v, r) \<Longrightarrow> list_all frame_ok stk \<Longrightarrow> value_ok v"
proof (induction m stk s rule: read_value.induct)
  case (1 m stk s)
  obtain t u p where l: "lex s = Some (t, u)" and a: "act m t stk = Some p"
    using "1.prems"(1) by (auto simp: read_value.simps [of m stk s] simp del: not_None_eq split: option.splits)
  have ok: "progress_ok p"
    using act_ok [OF a lex_ok [OF l] "1.prems"(2)] .
  show ?case
  proof (cases p)
    case (Finished w)
    then show ?thesis
      using "1.prems"(1) l a ok by (simp add: read_value.simps [of m stk s])
  next
    case (Next m' stk')
    then have "read_value m' stk' u = Some (v, r)"
      using "1.prems"(1) l a by (simp add: read_value.simps [of m stk s])
    then show ?thesis
      using "1.IH" [OF l refl a Next] ok Next by simp
  qed
qed

lemma decode_value_ok: "decode_value s = Some v \<Longrightarrow> value_ok v"
  by (auto simp: decode_value_def dest: read_value_ok)

lemma unmarshal_value_ok: "unmarshal_value s = Some v \<Longrightarrow> value_ok v"
  by (auto simp: unmarshal_value_def dest: read_value_ok split: option.split_asm if_split_asm)

lemma fill_struct_ok:
  "fill_struct names ms vals = Some vals' \<Longrightarrow> members_ok ms \<Longrightarrow> list_all valid_utf8 vals \<Longrightarrow>
     list_all valid_utf8 vals' \<and> length vals' = length vals"
proof (induction names ms vals rule: fill_struct.induct)
  case (2 names k v ms vals)
  show ?case
  proof (cases "find_field names k")
    case None
    then show ?thesis
      using 2 by (simp add: members_ok_def)
  next
    case (Some i)
    then obtain x where x: "store_string v (vals ! i) = Some x" "fill_struct names ms (vals[i := x]) = Some vals'"
      using "2.prems"(1) by (auto split: option.split_asm)
    have "valid_utf8 x" if "i < length vals"
      using that x(1) "2.prems"(2,3)
      by (cases v) (auto simp: store_string_def members_ok_def str_ok_def list_all_length)
    then have "list_all valid_utf8 (vals[i := x])"
      using "2.prems"(3) by (cases "i < length vals") (auto simp: list_all_length nth_list_update)
    then show ?thesis
      using "2.IH"(2) [OF Some x(1) x(2)] "2.prems"(2) by (simp add: members_ok_def)
  qed
qed simp

lemma into_struct_ok:
  "into_struct names v = Some vals \<Longrightarrow> value_ok v \<Longrightarrow> list_all valid_utf8 vals \<and> length vals = length names"
  using fill_struct_ok [of names _ "replicate (length names) []" vals]
  by (cases v) (auto simp: into_struct_def value_ok_def list_all_iff)

definition map_ok :: "(string \<rightharpoonup> string) \<Rightarrow> bool" where
  "map_ok m \<longleftrightarrow> (\<forall>k v. m k = Some v \<longrightarrow> valid_utf8 k \<and> valid_utf8 v)"

lemma map_ok_empty [simp]: "map_ok Map.empty"
  by (simp add: map_ok_def)

lemma map_ok_upd: "map_ok m \<Longrightarrow> valid_utf8 k \<Longrightarrow> valid_utf8 v \<Longrightarrow> map_ok (m(k \<mapsto> v))"
  by (simp add: map_ok_def)

lemma fill_map_ok: "fill_map ms m = Some m' \<Longrightarrow> members_ok ms \<Longrightarrow> map_ok m \<Longrightarrow> map_ok m'"
  by (induction ms m rule: fill_map.induct)
    (auto simp: members_ok_def str_ok_def store_string_def map_ok_upd simp del: fun_upd_apply
      split: option.split_asm json.split_asm)

lemma into_map_ok: "into_map v = Some m \<Longrightarrow> value_ok v \<Longrightarrow> map_ok m"
  by (cases v) (auto simp: into_map_def value_ok_def dest: fill_map_ok)

end
