(* ===== verification/Codec.thy ===== *)
theory Codec
  imports Prelude Json FSM Server
begin

text \<open>
  The bytes the program exchanges: its structs and maps through \<^verbatim>\<open>encoding/json\<close>. The commands of the
  raft log (\<^verbatim>\<open>fsm/fsm.go\<close>), the PUT requests of clients and of forwarding followers
  (\<^verbatim>\<open>server/http.go\<close>, \<^verbatim>\<open>server/forward.go\<close>), and the maps of snapshots and answers. These are the
  instances of the codecs that the state machine and the handlers take as parameters; \<open>errt\<close>, the
  text of a decoding error, stays one.

  A string that is not well-formed UTF-8 does not come back as it was. No such string enters the
  program by the decoder, so nothing the program encodes is changed on the way.
\<close>

section \<open>The structs\<close>

definition Command_json :: "string list" where
  "Command_json = [''op'', ''key'', ''value'', ''idempotency_key'']"

definition PutRequest_json :: "string list" where
  "PutRequest_json = [''key'', ''value'', ''idempotency_key'']"

definition Command_values :: "Command \<Rightarrow> string list" where
  "Command_values c = [cmd_Op c, cmd_Key c, cmd_Value c, cmd_IdempotencyKey c]"

definition PutRequest_values :: "PutRequest \<Rightarrow> string list" where
  "PutRequest_values r = [pr_Key r, pr_Value r, pr_IdempotencyKey r]"

definition Command_of :: "string list \<Rightarrow> Command" where
  "Command_of vs = \<lparr>cmd_Op = vs ! 0, cmd_Key = vs ! 1, cmd_Value = vs ! 2, cmd_IdempotencyKey = vs ! 3\<rparr>"

definition PutRequest_of :: "string list \<Rightarrow> PutRequest" where
  "PutRequest_of vs = \<lparr>pr_Key = vs ! 0, pr_Value = vs ! 1, pr_IdempotencyKey = vs ! 2\<rparr>"

definition Marshal_Command :: "Command \<Rightarrow> string" where
  "Marshal_Command c = json_object (zip Command_json (Command_values c))"

definition Marshal_PutRequest :: "PutRequest \<Rightarrow> string" where
  "Marshal_PutRequest r = json_object (zip PutRequest_json (PutRequest_values r))"

definition or_error :: "string \<Rightarrow> 'a option \<Rightarrow> string + 'a" where
  "or_error e x = (case x of None \<Rightarrow> Inl e | Some y \<Rightarrow> Inr y)"

text \<open>
  \<^verbatim>\<open>json.Unmarshal(l.Data, &cmd)\<close>, \<^verbatim>\<open>json.NewDecoder(r.Body).Decode(&req)\<close> and
  \<^verbatim>\<open>json.NewDecoder(rc).Decode(&entries)\<close>.
\<close>

definition Unmarshal_Command :: "(string \<Rightarrow> string) \<Rightarrow> unmarshal" where
  "Unmarshal_Command errt s =
     or_error (errt s) (map_option Command_of (Option.bind (unmarshal_value s) (into_struct Command_json)))"

definition Decode_PutRequest :: "(string \<Rightarrow> string) \<Rightarrow> string \<Rightarrow> string + PutRequest" where
  "Decode_PutRequest errt s =
     or_error (errt s) (map_option PutRequest_of (Option.bind (decode_value s) (into_struct PutRequest_json)))"

definition Decode_map :: "(string \<Rightarrow> string) \<Rightarrow> string \<Rightarrow> string + (string \<rightharpoonup> string)" where
  "Decode_map errt s = or_error (errt s) (Option.bind (decode_value s) into_map)"

text \<open>Encoding a struct of strings, or a map of strings, cannot fail.\<close>

definition Encode_map :: "map_range \<Rightarrow> enc_map" where
  "Encode_map rng m = json_map (rng m)"

definition json_codec :: "(string \<Rightarrow> string) \<Rightarrow> codec" where
  "json_codec errt =
     \<lparr>cd_dec_put = Decode_PutRequest errt,
      cd_enc_put = (\<lambda>r. Inr (Marshal_PutRequest r)),
      cd_enc_cmd = (\<lambda>c. Inr (Marshal_Command c))\<rparr>"

lemma json_codec_simps [simp]:
  "cd_dec_put (json_codec errt) = Decode_PutRequest errt"
  "cd_enc_put (json_codec errt) r = Inr (Marshal_PutRequest r)"
  "cd_enc_cmd (json_codec errt) c = Inr (Marshal_Command c)"
  by (simp_all add: json_codec_def)

section \<open>Well-formed values\<close>

definition valid_Command :: "Command \<Rightarrow> Command" where
  "valid_Command c = Command_of (map to_valid (Command_values c))"

definition Command_ok :: "Command \<Rightarrow> bool" where
  "Command_ok c \<longleftrightarrow> list_all valid_utf8 (Command_values c)"

definition valid_PutRequest :: "PutRequest \<Rightarrow> PutRequest" where
  "valid_PutRequest r = PutRequest_of (map to_valid (PutRequest_values r))"

definition PutRequest_ok :: "PutRequest \<Rightarrow> bool" where
  "PutRequest_ok r \<longleftrightarrow> list_all valid_utf8 (PutRequest_values r)"

lemma to_valid_iff: "to_valid s = s \<longleftrightarrow> valid_utf8 s"
  using to_valid_id valid_to_valid by metis

lemma valid_Command_iff: "valid_Command c = c \<longleftrightarrow> Command_ok c"
  by (cases c) (simp add: valid_Command_def Command_ok_def Command_of_def Command_values_def to_valid_iff)

lemma valid_PutRequest_iff: "valid_PutRequest r = r \<longleftrightarrow> PutRequest_ok r"
  by (cases r)
    (simp add: valid_PutRequest_def PutRequest_ok_def PutRequest_of_def PutRequest_values_def to_valid_iff)

lemma ascii_valid: "list_all (\<lambda>c. byte c < 0x80) s \<Longrightarrow> valid_utf8 s"
  by (induction s) simp_all

lemma names_ok:
  "distinct Command_json" "\<forall>n \<in> set Command_json. to_valid n = n"
  "distinct PutRequest_json" "\<forall>n \<in> set PutRequest_json. to_valid n = n"
  by (simp_all add: Command_json_def PutRequest_json_def to_valid_iff ascii_valid)

lemma value_lengths [simp]:
  "length (Command_values c) = length Command_json"
  "length (PutRequest_values r) = length PutRequest_json"
  by (simp_all add: Command_json_def PutRequest_json_def Command_values_def PutRequest_values_def)

section \<open>What is encoded is decoded\<close>

lemma Unmarshal_Marshal: "Unmarshal_Command errt (Marshal_Command c) = Inr (valid_Command c)"
  using into_struct_back [OF names_ok(1,2), of "Command_values c"]
  by (simp add: Unmarshal_Command_def Marshal_Command_def unmarshal_object or_error_def valid_Command_def)

lemma Decode_Marshal: "Decode_PutRequest errt (Marshal_PutRequest r @ t) = Inr (valid_PutRequest r)"
  using into_struct_back [OF names_ok(3,4), of "PutRequest_values r"]
  by (simp add: Decode_PutRequest_def Marshal_PutRequest_def decode_object or_error_def valid_PutRequest_def)

lemma struct_list:
  assumes "length vs = length Command_json"
  shows "Command_values (Command_of vs) = vs"
  using assms
  by (auto simp: Command_values_def Command_of_def Command_json_def list_eq_iff_nth_eq less_Suc_eq numeral_eq_Suc)

lemma struct_list':
  assumes "length vs = length PutRequest_json"
  shows "PutRequest_values (PutRequest_of vs) = vs"
  using assms
  by (auto simp: PutRequest_values_def PutRequest_of_def PutRequest_json_def list_eq_iff_nth_eq less_Suc_eq
      numeral_eq_Suc)

lemma Unmarshal_ok: "Unmarshal_Command errt s = Inr c \<Longrightarrow> Command_ok c"
  using into_struct_ok [of Command_json] unmarshal_value_ok
  by (fastforce simp: Unmarshal_Command_def or_error_def Command_ok_def struct_list bind_eq_Some_conv
      split: option.split_asm)

lemma Decode_ok: "Decode_PutRequest errt s = Inr r \<Longrightarrow> PutRequest_ok r"
  using into_struct_ok [of PutRequest_json] decode_value_ok
  by (fastforce simp: Decode_PutRequest_def or_error_def PutRequest_ok_def struct_list' bind_eq_Some_conv
      split: option.split_asm)

lemma put_command_ok: "PutRequest_ok r \<Longrightarrow> Command_ok (put_command r)"
  by (simp add: PutRequest_ok_def Command_ok_def put_command_def Command_values_def PutRequest_values_def
      ascii_valid)

lemma Decode_map_ok: "Decode_map errt s = Inr m \<Longrightarrow> map_ok m"
  using into_map_ok decode_value_ok
  by (fastforce simp: Decode_map_def or_error_def bind_eq_Some_conv split: option.split_asm)

section \<open>Maps\<close>

lemma enumerates_sort: "enumerates es m \<Longrightarrow> enumerates (sort_key f es) m"
proof -
  assume en: "enumerates es m"
  have "mset (map fst (sort_key f es)) = mset (map fst es)"
    by simp
  then have "distinct (map fst (sort_key f es))"
    using en mset_eq_imp_distinct_iff unfolding enumerates_def by blast
  moreover have "set (sort_key f es) = set es"
    by simp
  ultimately show ?thesis
    using en map_of_inject_set [of "sort_key f es" es] unfolding enumerates_def by metis
qed

lemma valid_pair_id: "map_ok m \<Longrightarrow> enumerates es m \<Longrightarrow> map valid_pair es = es"
  by (rule map_idI)
    (auto simp: valid_pair_def enumerates_def map_ok_def to_valid_iff dest: map_of_is_SomeI)

lemma Decode_Encode_map:
  assumes "map_ok m" and "enumerates (rng m) m"
  shows "Decode_map errt (Encode_map rng m) = Inr m"
proof -
  let ?es = "sort_key fst (rng m)"
  have "enumerates ?es m"
    using assms(2) by (rule enumerates_sort)
  then have "writes (map valid_pair ?es) Map.empty = m"
    using writes_enumerates [of ?es m Map.empty] assms(1) by (simp add: valid_pair_id)
  then show ?thesis
    by (simp add: Decode_map_def Encode_map_def json_map_def decode_object into_map_back or_error_def)
qed

section \<open>Properties\<close>

text \<open>
  C24: Every command that is logged is read back by every node with each of its strings in
  well-formed form, each stray byte as U+FFFD, whatever bytes they hold; it is the same command
  exactly when they were well-formed. The same holds for a forwarded request.
\<close>

theorem codec_normalises:
  "Unmarshal_Command errt (Marshal_Command c) = Inr (valid_Command c)
   \<and> (valid_Command c = c \<longleftrightarrow> Command_ok c) \<and> Command_ok (valid_Command c)
   \<and> Decode_PutRequest errt (Marshal_PutRequest r @ t) = Inr (valid_PutRequest r)
   \<and> (valid_PutRequest r = r \<longleftrightarrow> PutRequest_ok r)"
  using Unmarshal_Marshal [of errt c] Unmarshal_ok [of errt "Marshal_Command c"]
  by (simp add: valid_Command_iff valid_PutRequest_iff Decode_Marshal)

lemma decoded_put:
  assumes "Decode_PutRequest errt body = Inr req"
  shows "Decode_PutRequest errt (Marshal_PutRequest req) = Inr req"
    and "Unmarshal_Command errt' (Marshal_Command (put_command req)) = Inr (put_command req)"
  using Decode_ok [OF assms] put_command_ok [of req] Decode_Marshal [of errt req "[]"]
    Unmarshal_Marshal [of errt' "put_command req"]
  by (simp_all add: valid_Command_iff [THEN iffD2] valid_PutRequest_iff [THEN iffD2])

text \<open>What a handler posts and proposes, for a request that decodes.\<close>

lemma valid_put_json:
  "valid_put (json_codec errt) rq req \<Longrightarrow> Decode_PutRequest errt (rq_Body rq) = Inr req"
  by (simp add: valid_put_def)

lemma handlePut_json:
  assumes "handlePut (json_codec errt) sr s rq fx = Some (rs, fx')"
    and "Decode_PutRequest errt (rq_Body rq) = Inr req"
  shows "\<exists>ps. fx_posts fx' = fx_posts fx @ ps \<and> (\<forall>p \<in> set ps. snd p = Marshal_PutRequest req)"
    and "fx_proposed fx' \<in> {fx_proposed fx, fx_proposed fx @ [Marshal_Command (put_command req)]}"
proof -
  have same: "req' = req" if "valid_put (json_codec errt) rq req'" for req'
    using valid_put_json [OF that] assms(2) by simp
  have "(\<exists>ps. fx_posts fx' = fx_posts fx @ ps \<and> (\<forall>p \<in> set ps. snd p = Marshal_PutRequest req))
      \<and> fx_proposed fx' \<in> {fx_proposed fx, fx_proposed fx @ [Marshal_Command (put_command req)]}"
    using assms(1)
  proof (cases rule: handlePut_cases)
    case (body fx1 t)
    from body(3) show ?thesis
    proof (cases rule: put_body_cases)
      case (follower req')
      then show ?thesis
        using forwardWithRetry_frame(1,7) [OF follower(3)] body(5) same [OF follower(1)] by auto
    next
      case (lost req' data)
      then show ?thesis
        using forwardWithRetry_frame(1,7) [OF lost(5)] body(5) same [OF lost(1)] by auto
    qed (use body(5) same in auto)
  qed auto
  then show "\<exists>ps. fx_posts fx' = fx_posts fx @ ps \<and> (\<forall>p \<in> set ps. snd p = Marshal_PutRequest req)"
    and "fx_proposed fx' \<in> {fx_proposed fx, fx_proposed fx @ [Marshal_Command (put_command req)]}"
    by blast+
qed

text \<open>
  C16: Forwarding and logging keep the client's request. Whatever bytes a client sends that decode to
  a request: each body that a node posts while it forwards decodes, at the node that receives it,
  to the same request, so that forwarding again posts the same; and whatever a node proposes for
  it, own or forwarded, every node unmarshals to the put of exactly that request.
\<close>

theorem forwarded_put_is_the_clients:
  assumes "handlePut (json_codec errt) sr s rq fx = Some (rs, fx')"
    and "Decode_PutRequest errt (rq_Body rq) = Inr req"
  shows "\<exists>ps qs. fx_posts fx' = fx_posts fx @ ps \<and> fx_proposed fx' = fx_proposed fx @ qs \<and> length qs \<le> 1
    \<and> (\<forall>p \<in> set ps. Decode_PutRequest errt (snd p) = Inr req)
    \<and> (\<forall>data \<in> set qs. Unmarshal_Command errt' data = Inr (put_command req))"
proof -
  obtain ps where ps: "fx_posts fx' = fx_posts fx @ ps" "\<forall>p \<in> set ps. snd p = Marshal_PutRequest req"
    using handlePut_json(1) [OF assms] by blast
  obtain qs where qs: "fx_proposed fx' = fx_proposed fx @ qs" "length qs \<le> 1"
      "set qs \<subseteq> {Marshal_Command (put_command req)}"
    using handlePut_json(2) [OF assms] by (elim insertE emptyE) fastforce+
  show ?thesis
    using ps qs decoded_put(1) [OF assms(2)] decoded_put(2) [OF assms(2), of errt'] by (intro exI [of _ ps] exI [of _ qs]) auto
qed

definition ex_text :: "string \<Rightarrow> string" where
  "ex_text s = ''invalid character''"

definition ex_json_req :: PutRequest where
  "ex_json_req = \<lparr>pr_Key = ''k'', pr_Value = ''<v>'', pr_IdempotencyKey = ''a''\<rparr>"

lemma ex_json_ok: "PutRequest_ok ex_json_req"
  by (simp add: PutRequest_ok_def PutRequest_values_def ex_json_req_def)

text \<open>Bytes after the value are left in the body of a request.\<close>

lemma ex_json_decodes: "Decode_PutRequest ex_text (Marshal_PutRequest ex_json_req @ t) = Inr ex_json_req"
  using ex_json_ok by (simp add: Decode_Marshal valid_PutRequest_iff [THEN iffD2])

definition ex_json_rq :: Request where
  "ex_json_rq = ex_rq (Marshal_PutRequest ex_json_req @ ''...'')"

lemma ex_json_decoded: "Decode_PutRequest ex_text (rq_Body ex_json_rq) = Inr ex_json_req"
  by (simp add: ex_json_rq_def ex_rq_def ex_json_decodes)

text \<open>On the leader the request is proposed; on another node it is posted twice, the first time in vain.\<close>

lemma ex_json_put:
  "\<exists>fx'. handlePut (json_codec ex_text) ex_net (ex_server ''node1'') ex_json_rq ex_fx = Some (ok_empty, fx')
     \<and> fx_proposed fx' = [Marshal_Command (put_command ex_json_req)]"
  "\<exists>fx'. handlePut (json_codec ex_text) ex_net (ex_server ''node2'') ex_json_rq ex_fx = Some (ok_empty, fx')
     \<and> fx_posts fx' = replicate 2 (put_url ''127.0.0.1:8001'', Marshal_PutRequest ex_json_req)
     \<and> fx_slept fx' = [times_unit 100 millisecond] \<and> fx_proposed fx' = []"
  using ex_json_decodes [of "''...''"]
  by (simp_all add: numeral_2_eq_2 handlePut_def put_body_def ex_http ask_def IsLeader_def forwardWithRetry_def forward_tries_def
      upt_rec LeaderHTTPAddr_def go_lookup_def main_httpAddrs_def forwardToLeader_def maxForwardRetries_def
      post_def go_sleep_def RecordForward_def Record_def NewLatencyTracker_def Let_def applyAsLeader_def
      cluster_Apply_def ex_json_rq_def ex_json_req_def)

theorem forwarded_put_is_the_clients_witness:
  "\<exists>fx'. handlePut (json_codec ex_text) ex_net (ex_server ''node2'') ex_json_rq ex_fx = Some (ok_empty, fx')
     \<and> length (fx_posts fx') = 2 \<and> (\<forall>p \<in> set (fx_posts fx'). Decode_PutRequest ex_text (snd p) = Inr ex_json_req)"
proof -
  obtain fx' where h: "handlePut (json_codec ex_text) ex_net (ex_server ''node2'') ex_json_rq ex_fx = Some (ok_empty, fx')"
      "length (fx_posts fx') = 2"
    using ex_json_put(2) by auto
  show ?thesis
    using forwarded_put_is_the_clients [OF h(1) ex_json_decoded, of ex_text] h by (auto simp: ex_fx_def)
qed

end
