(* ===== verification/Lifecycle.thy ===== *)
theory Lifecycle
  imports Prelude Codec Node Recovery
begin

text \<open>
  A node through its whole life: it starts on an empty disk, applies entries, flushes, evicts,
  installs snapshots that arrive as bytes, stops its writer, crashes, and starts again on what the
  disk kept. Entries and snapshots are decoded by the model of \<^verbatim>\<open>encoding/json\<close>.
\<close>

section \<open>Reachable states\<close>

text \<open>\<^verbatim>\<open>errt\<close> gives the texts of decoding errors. A crash keeps any part of the rows.\<close>

inductive node_reach :: "(string \<Rightarrow> string) \<Rightarrow> FSM \<Rightarrow> bool" for errt where
  boot: "startup getenv d None nid = Up f \<Longrightarrow> node_reach errt f"
| step: "node_reach errt f \<Longrightarrow> node_reach errt (node_step (Unmarshal_Command errt) ev f)"
| install: "node_reach errt f \<Longrightarrow> \<forall>m. Decode_map errt rc = Inr m \<longrightarrow> enumerates (r1 m) m \<and> enumerates (r2 m) m \<Longrightarrow>
    Restore (Decode_map errt) r1 r2 d rc f = (err, g) \<Longrightarrow> node_reach errt g"
| stop: "node_reach errt f \<Longrightarrow> Stop f = Some g \<Longrightarrow> node_reach errt g"
| restart: "node_reach errt f \<Longrightarrow> startup getenv d (Some (filter kept (tbl (db f)))) nid = Up g \<Longrightarrow>
    node_reach errt g"

inductive_cases node_reachE: "node_reach errt f"

section \<open>The invariant\<close>

text \<open>
  A node's state is well-typed: the writer is within its bounds, indices in the table are unique,
  the dedup store holds each key once and never the empty one, the latency ring is well-formed,
  and every string of the map, the table, the batch, the channel and the dedup store is
  well-formed UTF-8.
\<close>

definition row_ok :: "row \<Rightarrow> bool" where
  "row_ok r \<longleftrightarrow> 0 \<le> r_idx r \<and> valid_utf8 (r_idem r) \<and> valid_utf8 (r_key r) \<and> valid_utf8 (r_value r)"

definition node_ok :: "FSM \<Rightarrow> bool" where
  "node_ok f \<longleftrightarrow>
     bw_inv f \<and> pk_ok (tbl (db f)) \<and> fsm_wf f \<and> lt_wf (Latency (mets f)) \<and> map_ok (kv_data (fsm_kv f))
     \<and> (\<forall>r \<in> holds_rows f. row_ok r) \<and> (\<forall>k \<in> fst ` set (seen (fsm_dedup f)). valid_utf8 k \<and> k \<noteq> [])"

lemma Latency_metrics [simp]:
  "Latency (RecordWrite m) = Latency m" "Latency (RecordDuplicate m) = Latency m"
  "Latency (RecordError m) = Latency m" "Latency (SetQueueDepth n m) = Latency m"
  "Latency (SetDedupMapSize n m) = Latency m"
  by (simp_all add: metrics_defs)

lemma Latency_flush [simp]: "Latency (mets (flush d s)) = Latency (mets s)"
  by (simp add: flush_def Let_def split: prod.splits)

lemma Latency_worker:
  assumes "worker_step d c s = Some s'"
  shows "Latency (mets s') = Latency (mets s)"
  using assms by (cases rule: worker_step_cases) simp_all

lemma Latency_Send: "Latency (mets (Send sched d e s)) = Latency (mets s)"
proof (rule Send_induct [where P = "\<lambda>u. Latency (mets u) = Latency (mets s)"])
  fix u u' :: "'a bwsys_scheme" and dw c
  assume "Latency (mets u) = Latency (mets s)" "worker_step dw c u = Some u'"
  then show "Latency (mets u') = Latency (mets s)"
    using Latency_worker by metis
qed (simp_all add: enqueue_def sync_write_def)

lemma pk_ok_Send:
  assumes "pk_ok (tbl (db s))"
  shows "pk_ok (tbl (db (Send sched d e s)))"
proof (rule Send_induct [where P = "\<lambda>u. pk_ok (tbl (db u))"])
  fix u :: "'a bwsys_scheme"
  assume "pk_ok (tbl (db u))"
  then show "pk_ok (tbl (db (sync_write d e u)))"
    using insertOne_result [of d e "db u"]
    by (cases "insertOne d e (db u)"; cases "fst (insertOne d e (db u))") (auto simp: sync_write_def)
next
  fix u u' :: "'a bwsys_scheme" and dw c
  assume "pk_ok (tbl (db u))" "worker_step dw c u = Some u'"
  then show "pk_ok (tbl (db u'))"
    using worker_step_pk by blast
qed (simp_all add: assms enqueue_def)

text \<open>The worker, whatever it does.\<close>

lemma node_ok_pump:
  assumes "node_ok f"
  shows "node_ok (pump_worker w f)"
proof (cases "worker_step (fst w) (snd w) f")
  case None
  then show ?thesis
    using assms by (simp add: pump_worker_def)
next
  case (Some g)
  then have "pump_worker w f = g" by (simp add: pump_worker_def)
  moreover have "bw_inv g" "pk_ok (tbl (db g))" "Latency (mets g) = Latency (mets f)" "holds_rows g \<subseteq> holds_rows f"
    using assms bw_inv_worker_step [OF Some] worker_step_pk [OF Some] Latency_worker [OF Some]
      worker_step_holds_rows [OF Some] by (simp_all add: node_ok_def)
  moreover have "fsm_kv g = fsm_kv f" "fsm_dedup g = fsm_dedup f"
    using fsm_more_eq [OF worker_frame_more [OF Some]] by auto
  ultimately show ?thesis
    using assms by (auto simp: node_ok_def fsm_wf_def)
qed

lemma seen_MarkSeen:
  "k \<in> fst ` set (seen (MarkSeen t j s)) \<Longrightarrow> k \<in> fst ` set (seen s) \<or> k = j \<and> j \<noteq> []"
  using dom_update [of j t "seen s"] by (auto simp: MarkSeen_def split: if_splits)

lemma node_ok_after_put:
  assumes "node_ok f" and "Command_ok c"
  shows "node_ok (after_put env i c f)"
proof -
  let ?g = "after_put env i c f"
  let ?f1 = "f\<lparr>fsm_kv := kv_Set (cmd_Key c) (cmd_Value c) (fsm_kv f)\<rparr>"
  let ?s = "Send (a_sched env) (a_driver env) (entry_for i c) ?f1"
  have c: "valid_utf8 (cmd_Key c)" "valid_utf8 (cmd_Value c)" "valid_utf8 (cmd_IdempotencyKey c)"
    using assms(2) by (simp_all add: Command_ok_def Command_values_def)
  have "bw_inv ?s" "pk_ok (tbl (db ?s))" "Latency (mets ?s) = Latency (mets f)"
    using assms(1) bw_inv_Send [of ?f1] pk_ok_Send [of ?f1] Latency_Send [of _ _ _ ?f1]
    by (simp_all add: node_ok_def bw_inv_def)
  then have "bw_inv ?g" "pk_ok (tbl (db ?g))" "lt_wf (Latency (mets ?g))"
    using assms(1) by (simp_all add: after_put_def Let_def bw_inv_def node_ok_def)
  moreover have "row_ok (row_of (entry_for i c))"
    using c by (simp add: row_ok_def)
  then have "\<forall>r \<in> holds_rows ?g. row_ok r"
    using assms(1) holds_rows_after_put [of env i c f] by (auto simp: node_ok_def)
  moreover have "map_ok (kv_data (fsm_kv ?g))"
    using assms(1) c by (simp add: node_ok_def map_ok_upd)
  moreover have "\<forall>k \<in> fst ` set (seen (fsm_dedup ?g)). valid_utf8 k \<and> k \<noteq> []"
  proof
    fix k assume "k \<in> fst ` set (seen (fsm_dedup ?g))"
    then have "k \<in> fst ` set (seen (fsm_dedup f)) \<or> k = cmd_IdempotencyKey c \<and> k \<noteq> []"
      unfolding after_put_simps by (auto dest!: seen_MarkSeen)
    then show "valid_utf8 k \<and> k \<noteq> []"
      using assms(1) c(3) by (auto simp: node_ok_def)
  qed
  moreover have "fsm_wf ?g"
    using assms(1) by (simp add: node_ok_def fsm_wf_def dd.mark_wf)
  ultimately show ?thesis
    by (simp add: node_ok_def)
qed

lemma node_ok_step:
  assumes "node_ok f"
  shows "node_ok (node_step (Unmarshal_Command errt) ev f)"
proof (cases ev)
  case (NApply l env)
  show ?thesis
  proof (cases rule: Apply_cases [of "Unmarshal_Command errt" l env f])
    case (dup cmd)
    then show ?thesis
      using assms NApply by (simp add: node_ok_def fsm_wf_def bw_inv_def)
  next
    case (put cmd)
    then show ?thesis
      using node_ok_after_put [OF assms Unmarshal_ok] NApply by simp
  qed (use assms NApply in simp_all)
next
  case (NWork d c)
  then show ?thesis
    using node_ok_pump [OF assms] by simp
next
  case (NEvict now)
  have "fst ` set (seen (purge_store now s)) \<subseteq> fst ` set (seen s)" for s
    by (auto simp: purge_store_def)
  then have "\<forall>k \<in> fst ` set (seen (purge_store now (fsm_dedup f))). valid_utf8 k \<and> k \<noteq> []"
    using assms unfolding node_ok_def by (meson subsetD)
  then show ?thesis
    using assms dd.purge_wf [of "fsm_dedup f" now] NEvict
    by (auto simp: node_ok_def evict_purge Let_def holds_rows_def fsm_wf_def bw_inv_def)
qed

lemma snap_rows_ok:
  "list_all (\<lambda>p. valid_utf8 (fst p) \<and> valid_utf8 (snd p)) es \<Longrightarrow> \<forall>r \<in> set (snap_rows i es). row_ok r"
  by (induction i es rule: snap_rows.induct) (auto simp: row_ok_def)

lemma enumerates_ok: "map_ok m \<Longrightarrow> enumerates es m \<Longrightarrow> list_all (\<lambda>p. valid_utf8 (fst p) \<and> valid_utf8 (snd p)) es"
  by (auto simp: list_all_iff enumerates_def map_ok_def dest: map_of_is_SomeI)

lemma map_ok_add: "map_ok a \<Longrightarrow> map_ok b \<Longrightarrow> map_ok (a ++ b)"
  by (auto simp: map_ok_def)

lemma node_ok_Restore:
  assumes "node_ok f" and "Restore (Decode_map errt) r1 r2 d rc f = (err, g)"
    and "\<forall>m. Decode_map errt rc = Inr m \<longrightarrow> enumerates (r1 m) m \<and> enumerates (r2 m) m"
  shows "node_ok g"
proof (cases "Decode_map errt rc")
  case (Inl e)
  then show ?thesis
    using assms(1,2) by (simp add: Restore_def)
next
  case (Inr m)
  then have en: "enumerates (r1 m) m" "enumerates (r2 m) m"
    using assms(3) by simp_all
  obtain err' db' where R: "ReplaceAll d (r1 m) (db f) = (err', db')"
    by (cases "ReplaceAll d (r1 m) (db f)")
  show ?thesis
  proof (cases err')
    case (Some e)
    then have "g = f\<lparr>db := db'\<rparr>" "db' = db f"
      using assms(2) ReplaceAll_result [OF R] R Inr by (auto simp: Restore_def)
    then show ?thesis using assms(1) by simp
  next
    case None
    then have g: "g = f\<lparr>db := db', fsm_kv := set_all (r2 m) (fsm_kv f)\<rparr>"
      using assms(2) R Inr by (auto simp: Restore_def)
    have t: "tbl db' = snap_rows 0 (r1 m)"
      using ReplaceAll_result [OF R] None by simp
    have m: "map_ok m"
      using Decode_map_ok [OF Inr] .
    have "\<forall>r \<in> set (snap_rows 0 (r1 m)). row_ok r"
      using snap_rows_ok enumerates_ok [OF m en(1)] by blast
    then have "\<forall>r \<in> holds_rows g. row_ok r"
      using assms(1) by (auto simp: node_ok_def holds_rows_def g t)
    moreover have "map_ok (kv_data (fsm_kv g))"
      using assms(1) m writes_enumerates [OF en(2)]
      by (simp add: g node_ok_def kv_data_set_all map_ok_add)
    ultimately show ?thesis
      using assms(1) pk_ok_snap_rows [of 0 "r1 m"] by (simp add: node_ok_def g t fsm_wf_def bw_inv_def)
  qed
qed

lemma map_ok_writes: "list_all (\<lambda>p. valid_utf8 (fst p) \<and> valid_utf8 (snd p)) es \<Longrightarrow> map_ok m \<Longrightarrow> map_ok (writes es m)"
  by (induction es arbitrary: m) (auto simp: map_ok_upd simp del: fun_upd_apply)

lemma node_ok_startup:
  assumes up: "startup getenv d disk nid = Up f"
    and rows: "pk_ok (createSchema disk)" "\<forall>r \<in> set (createSchema disk). row_ok r"
  shows "node_ok f"
proof -
  have "list_all (\<lambda>p. valid_utf8 (fst p) \<and> valid_utf8 (snd p)) (map row_kv (sort_key r_idx (createSchema disk)))"
    using rows(2) by (simp add: list_all_iff row_kv_def row_ok_def)
  then have "map_ok (kv_data (fsm_kv f))"
    unfolding startup_Up(6) [OF up] replay_map_def by (rule map_ok_writes) simp
  moreover have "mets f = init_metrics"
    using up
    unfolding startup_Up_iff by (auto simp: writer_of_def fsm_New_def bwsys.defs Let_def elim!: boot_state_Up)
  moreover have "lt_wf (Latency init_metrics)"
    by (simp add: init_metrics_def lt_wf_New)
  ultimately show ?thesis
    using rows startup_Up(1,7,8,11,12) [OF up] by (simp add: node_ok_def)
qed

lemma node_ok_Stop: "node_ok f \<Longrightarrow> Stop f = Some g \<Longrightarrow> node_ok g"
  by (auto simp: Stop_def node_ok_def bw_inv_def fsm_wf_def holds_rows_def split: if_splits)

text \<open>The invariant along every life of a node.\<close>

lemma node_reach_ok:
  assumes "node_reach errt f"
  shows "node_ok f"
  using assms
proof induction
  case (boot getenv d nid f)
  then show ?case
    by (rule node_ok_startup) (simp_all add: pk_ok_def)
next
  case (step f ev)
  then show ?case by (blast intro: node_ok_step)
next
  case (install f rc r1 r2 d err g)
  then show ?case by (blast intro: node_ok_Restore)
next
  case (stop f g)
  then show ?case by (blast intro: node_ok_Stop)
next
  case (restart f getenv d kept nid g)
  have "pk_ok (filter kept (tbl (db f)))" "\<forall>r \<in> set (filter kept (tbl (db f))). row_ok r"
    using restart.IH by (auto simp: node_ok_def pk_ok_def distinct_map_filter holds_rows_def)
  then show ?case
    by (intro node_ok_startup [OF restart.hyps(2)]) simp_all
qed

text \<open>
  C12: A node stays well-typed. From the first start on an empty disk through any sequence of
  applied entries, worker rounds, evictions, database faults, installed snapshots, shutdowns,
  crashes that lose rows and restarts, the writer keeps its bounds, indices stay unique, the dedup
  store and the latency ring stay well-formed, and every string the node holds in memory, in its
  queues and on disk is well-formed UTF-8, whatever bytes the log and the snapshots contain.
\<close>

theorem node_stays_well_typed:
  assumes "node_reach errt f"
  shows "node_ok f"
  using assms by (rule node_reach_ok)

definition ex_json_log :: raft_Log where
  "ex_json_log = \<lparr>log_Index = 1, log_Data = Marshal_Command (put_command ex_json_req)\<rparr>"

lemma ex_json_unmarshals: "Unmarshal_Command errt (log_Data ex_json_log) = Inr (put_command ex_json_req)"
  using decoded_put(2) [OF ex_json_decodes] by (simp add: ex_json_log_def)

text \<open>A node that has applied one put and written it.\<close>

definition ex_life :: "node_event list" where
  "ex_life = [NApply ex_json_log (ex_at 0), NWork no_fault WRecv, NWork no_fault WTick]"

definition ex_lived :: FSM where
  "ex_lived = node_run (Unmarshal_Command ex_text) ex_life (ex_node [])"

lemma ex_lived_reach: "node_reach ex_text ex_lived"
proof -
  have "node_reach ex_text (ex_node [])"
    by (rule node_reach.boot [of no_env no_fault "''node1''"]) (simp add: ex_startup)
  then show ?thesis
    unfolding ex_lived_def ex_life_def node_run_simps by (intro node_reach.step)
qed

theorem node_stays_well_typed_witness: "node_ok ex_lived"
  by (rule node_stays_well_typed [OF ex_lived_reach])

section \<open>Snapshots as bytes\<close>

text \<open>
  C20: A snapshot carries the map as bytes. Whatever node takes it, after whatever history, and in
  whatever order the maps are ranged over: \<^verbatim>\<open>Persist\<close> writes JSON that decodes to the map of the
  node's table; a fresh node that restores from these bytes holds exactly that map in memory
  and, after a restart, in its table; and when \<^verbatim>\<open>Restore\<close> fails it changes nothing.
\<close>

theorem snapshot_bytes_transfer:
  assumes "node_reach errt f" and "Snapshot d f = Inr m" and "startup getenv d' None nid = Up g0"
    and "enumerates (r0 m) m" and "enumerates (r1 m) m" and "enumerates (r2 m) m"
    and "Persist (\<lambda>m. Inr (Encode_map r0 m)) None m = (None, SinkClosed bytes)"
    and "Restore (Decode_map errt') r1 r2 d'' bytes g0 = (err, g)"
  shows "m = replay_map (tbl (db f)) \<and> Decode_map errt' bytes = Inr m
    \<and> (if err = None then kv_data (fsm_kv g) = m \<and> replay_map (tbl (db g)) = m else g = g0)"
proof -
  have m: "m = replay_map (tbl (db f))"
    using assms(2) by (rule Snapshot_Inr)
  have "\<forall>r \<in> set (tbl (db f)). row_ok r"
    using node_reach_ok [OF assms(1)] by (auto simp: node_ok_def holds_rows_def)
  then have "list_all (\<lambda>p. valid_utf8 (fst p) \<and> valid_utf8 (snd p)) (map row_kv (sort_key r_idx (tbl (db f))))"
    by (simp add: list_all_iff row_kv_def row_ok_def)
  then have "map_ok m"
    unfolding m replay_map_def by (rule map_ok_writes) simp
  moreover have "bytes = Encode_map r0 m"
    using assms(7) by (simp add: Persist_def)
  ultimately have dec: "Decode_map errt' bytes = Inr m"
    using Decode_Encode_map [of m r0 errt'] assms(4) by simp
  have "kv_data (fsm_kv g0) = Map.empty"
    using startup_Up(6) [OF assms(3)] by simp
  then show ?thesis
    using Restore_Inr [where dec = "Decode_map errt'" and rc = bytes and ?r1.0 = r1 and ?r2.0 = r2 and d = d''
        and f = g0, OF dec assms(5,6)] assms(8) m dec
    by (auto split: option.splits)
qed

lemma ex_lived_table:
  "tbl (db ex_lived) = [\<lparr>r_idx = 1, r_idem = ''a'', r_key = ''k'', r_value = ''<v>''\<rparr>]" "db_open (db ex_lived)"
  using ex_json_unmarshals [of ex_text]
  by (simp_all add: ex_lived_def ex_life_def Apply_put after_put_def run_defs IsDuplicate_def dedup_New_def
      put_command_def ex_json_req_def ex_json_log_def ex_at_def insert_or_ignore_def entry_for_def row_of_def)

definition ex_rng :: map_range where
  "ex_rng m = (case m ''k'' of None \<Rightarrow> [] | Some v \<Rightarrow> [(''k'', v)])"

theorem snapshot_bytes_transfer_witness:
  "\<exists>bytes g. Persist (\<lambda>m. Inr (Encode_map ex_rng m)) None [''k'' \<mapsto> ''<v>''] = (None, SinkClosed bytes)
     \<and> Restore (Decode_map ex_text) ex_rng ex_rng no_fault bytes (ex_node []) = (None, g)
     \<and> kv_data (fsm_kv g) = [''k'' \<mapsto> ''<v>'']"
proof -
  let ?m = "[''k'' \<mapsto> ''<v>''] :: string \<rightharpoonup> string"
  have up: "startup no_env no_fault None ''node1'' = Up (ex_node [])"
    by (simp add: ex_startup)
  have S: "Snapshot no_fault ex_lived = Inr ?m"
    using Snapshot_no_fault [of ex_lived] ex_lived_table by (simp add: replay_map_def row_kv_def)
  have en: "enumerates (ex_rng ?m) ?m"
    by (simp add: ex_rng_def enumerates_def)
  obtain bytes where P: "Persist (\<lambda>m. Inr (Encode_map ex_rng m)) None ?m = (None, SinkClosed bytes)"
    by (simp add: Persist_def)
  obtain err g where R: "Restore (Decode_map ex_text) ex_rng ex_rng no_fault bytes (ex_node []) = (err, g)"
    by (cases "Restore (Decode_map ex_text) ex_rng ex_rng no_fault bytes (ex_node [])")
  note t = snapshot_bytes_transfer [OF ex_lived_reach S up en en en P R]
  have "err = None"
    using R t by (auto simp: Restore_def ReplaceAll_no_fault)
  then show ?thesis
    using P R t by auto
qed

section \<open>Reading values back\<close>

text \<open>
  Reads give back what is stored. On any node in any state of its life, a GET of a key the map
  holds is answered 200 with JSON in which a client reads exactly the key and its value; a GET of
  a key it does not hold, in particular of any key that is not well-formed UTF-8, is answered 404.
\<close>

lemma get_gives_back:
  assumes "node_reach errt f" and "sv_kv s = fsm_kv f" and "\<forall>m. finite (dom m) \<longrightarrow> enumerates (rng m) m"
    and "k \<noteq> []" and "get = \<lparr>rq_Method = ''GET'', rq_QueryKey = k, rq_Body = b\<rparr>"
  shows "(case kv_data (fsm_kv f) k of
       Some v \<Rightarrow> rs_Status (handleGet (Encode_map rng) s get) = 200
         \<and> Decode_map errt' (rs_Body (handleGet (Encode_map rng) s get)) = Inr [''key'' \<mapsto> k, ''value'' \<mapsto> v]
     | None \<Rightarrow> rs_Status (handleGet (Encode_map rng) s get) = 404)
    \<and> (\<not> valid_utf8 k \<longrightarrow> kv_data (fsm_kv f) k = None)"
proof -
  have ok: "map_ok (kv_data (fsm_kv f))"
    using node_reach_ok [OF assms(1)] by (simp add: node_ok_def)
  have "Decode_map errt' (Encode_map rng [''key'' \<mapsto> k, ''value'' \<mapsto> v]) = Inr [''key'' \<mapsto> k, ''value'' \<mapsto> v]"
    if "kv_data (fsm_kv f) k = Some v" for v
  proof (rule Decode_Encode_map)
    have "valid_utf8 k" "valid_utf8 v"
      using ok that by (auto simp: map_ok_def)
    then show "map_ok [''key'' \<mapsto> k, ''value'' \<mapsto> v]"
      by (simp add: map_ok_def ascii_valid)
    show "enumerates (rng [''key'' \<mapsto> k, ''value'' \<mapsto> v]) [''key'' \<mapsto> k, ''value'' \<mapsto> v]"
      using assms(3) by simp
  qed
  moreover have "kv_data (fsm_kv f) k = None" if "\<not> valid_utf8 k"
    using ok that by (cases "kv_data (fsm_kv f) k") (auto simp: map_ok_def)
  ultimately show ?thesis
    using assms(2,4,5)
    by (auto simp: handleGet_def kv_Get_def ok_json_def http_Error_def split: option.split)
qed

text \<open>The range that the examples use: the keys in order.\<close>

definition ordered :: map_range where
  "ordered m = map (\<lambda>k. (k, the (m k))) (sorted_list_of_set (dom m))"

lemma ordered_enumerates: "finite (dom m) \<Longrightarrow> enumerates (ordered m) m"
proof -
  assume fin: "finite (dom m)"
  then have "map_of (ordered m) k = m k" for k
    by (cases "k \<in> dom m") (auto simp: ordered_def map_of_map_restrict restrict_map_def domIff)
  then show ?thesis
    using fin by (auto simp: enumerates_def ordered_def comp_def)
qed

end
