(* ===== verification/Liveness.thy ===== *)
theory Liveness
  imports Prelude Node
begin

text \<open>
  What the batch worker of \<^verbatim>\<open>store/batch.go\<close> gets done in the end: on an infinite run of a node whose
  worker keeps being scheduled, every queued entry reaches the table; and once it is told to stop
  it leaves after as many rounds as there are entries, whatever the database answers.
\<close>

section \<open>Progress through stages\<close>

text \<open>
  An infinite run \<open>\<sigma>\<close> of steps. Something is in stage \<open>i\<close> when at most \<open>i\<close> helpful steps are left to
  its goal, stage 0; no step takes it back, and each stage has its helpful steps.
\<close>

definition run_to :: "('e \<Rightarrow> 's \<Rightarrow> 's) \<Rightarrow> (nat \<Rightarrow> 'e) \<Rightarrow> 's \<Rightarrow> nat \<Rightarrow> 's" where
  "run_to step \<sigma> s n = fold step (map \<sigma> [0..<n]) s"

lemma run_to_simps [simp]:
  "run_to step \<sigma> s 0 = s"
  "run_to step \<sigma> s (Suc n) = step (\<sigma> n) (run_to step \<sigma> s n)"
  by (simp_all add: run_to_def)

locale staged =
  fixes inv :: "'s \<Rightarrow> bool"
    and step :: "'e \<Rightarrow> 's \<Rightarrow> 's"
    and ok :: "'e \<Rightarrow> bool"
    and stage :: "'x \<Rightarrow> nat \<Rightarrow> 's \<Rightarrow> bool"
    and helpful :: "nat \<Rightarrow> 'e \<Rightarrow> bool"
  assumes inv_step: "inv s \<Longrightarrow> ok e \<Longrightarrow> inv (step e s)"
    and kept: "inv s \<Longrightarrow> ok e \<Longrightarrow> stage x i s \<Longrightarrow> stage x i (step e s)"
    and helps: "inv s \<Longrightarrow> ok e \<Longrightarrow> stage x (Suc i) s \<Longrightarrow> helpful (Suc i) e \<Longrightarrow> stage x i (step e s)"
begin

lemma inv_run: "inv s \<Longrightarrow> \<forall>n. ok (\<sigma> n) \<Longrightarrow> inv (run_to step \<sigma> s n)"
  by (induction n) (simp_all add: inv_step)

lemma kept_run:
  assumes "inv s" and "\<forall>n. ok (\<sigma> n)" and "stage x i (run_to step \<sigma> s n)" and "n \<le> k"
  shows "stage x i (run_to step \<sigma> s k)"
  using assms(4,3) by (induction rule: dec_induct) (simp_all add: kept inv_run assms(1,2))

lemma reached:
  assumes "inv s" and "\<forall>n. ok (\<sigma> n)" and "\<forall>i n. \<exists>m \<ge> n. helpful (Suc i) (\<sigma> m)"
    and "stage x i (run_to step \<sigma> s n)"
  shows "\<exists>m \<ge> n. \<forall>k \<ge> m. stage x 0 (run_to step \<sigma> s k)"
  using assms(4)
proof (induction i arbitrary: n)
  case 0
  then show ?case
    using kept_run [OF assms(1,2)] by blast
next
  case (Suc i)
  obtain m where m: "n \<le> m" "helpful (Suc i) (\<sigma> m)"
    using assms(3) by blast
  have "stage x i (run_to step \<sigma> s (Suc m))"
    using helps [OF inv_run [OF assms(1,2)] _ kept_run [OF assms(1,2) Suc.prems m(1)] m(2)] assms(2) by simp
  then obtain m' where "Suc m \<le> m'" "\<forall>k \<ge> m'. stage x 0 (run_to step \<sigma> s k)"
    using Suc.IH by blast
  then show ?case
    using m(1) by (intro exI [of _ m']) simp
qed

end

section \<open>The stages of an entry\<close>

text \<open>In the table; in the batch, one flush away; at position \<open>j\<close> of the channel, \<open>j + 1\<close> rounds further.\<close>

definition written :: "LogEntry \<Rightarrow> 'a bwsys_scheme \<Rightarrow> bool" where
  "written e s \<longleftrightarrow> uint (le_Index e) \<in> r_idx ` set (tbl (db s))"

definition queue_stage :: "LogEntry \<Rightarrow> nat \<Rightarrow> 'a bwsys_scheme \<Rightarrow> bool" where
  "queue_stage e i s \<longleftrightarrow>
     written e s \<or> (0 < i \<and> e \<in> set (batch s)) \<or> (\<exists>j < length (ch s). j + 2 \<le> i \<and> ch s ! j = e)"

definition serving :: "'a bwsys_scheme \<Rightarrow> bool" where
  "serving s \<longleftrightarrow> wpc s = Running \<and> \<not> stop_closed s \<and> db_open (db s)"

lemma idx_fold_insert: "r_idx ` set (fold insert_or_ignore rs t) = r_idx ` set rs \<union> r_idx ` set t"
  unfolding dom_tmap [symmetric] sql.rows_fold_ins
  by (auto simp: dom_map_of_conv_image_fst dom_tmap image_image)

lemma written_flush:
  assumes "healthy d" and "db_open (db s)"
  shows "written e (flush d s) \<longleftrightarrow> written e s \<or> (\<exists>e' \<in> set (batch s). le_Index e' = le_Index e)"
proof -
  have "uint (le_Index e) = uint (le_Index e') \<longleftrightarrow> le_Index e' = le_Index e" for e'
    by (auto simp: word_uint_eq_iff)
  then show ?thesis
    using assms by (auto simp: written_def flush_healthy idx_fold_insert image_iff)
qed

lemma written_same [simp]:
  "written e (s\<lparr>ch := c, batch := b\<rparr>) = written e s" "written e (s\<lparr>wpc := w\<rparr>) = written e s"
  by (simp_all add: written_def)

lemma stage_mono: "queue_stage e i s \<Longrightarrow> i \<le> j \<Longrightarrow> queue_stage e j s"
  by (fastforce simp: queue_stage_def)

text \<open>Taking the head of the channel into the batch brings every entry one round on.\<close>

lemma stage_take:
  assumes "queue_stage e i s" and "ch s = x # es"
  shows "queue_stage e i (s\<lparr>ch := es, batch := batch s @ [x]\<rparr>)"
    and "i = Suc (Suc i') \<Longrightarrow> queue_stage e (Suc i') (s\<lparr>ch := es, batch := batch s @ [x]\<rparr>)"
proof -
  have "queue_stage e (max 1 (i - 1)) (s\<lparr>ch := es, batch := batch s @ [x]\<rparr>)" if "0 < i"
    using assms(1) [unfolded queue_stage_def]
  proof (elim disjE)
    assume "\<exists>j < length (ch s). j + 2 \<le> i \<and> ch s ! j = e"
    then obtain j where j: "j < length (ch s)" "j + 2 \<le> i" "ch s ! j = e" by blast
    show ?thesis
    proof (cases j)
      case 0
      then show ?thesis using j assms(2) by (simp add: queue_stage_def)
    next
      case (Suc j')
      then show ?thesis using j assms(2) by (auto simp: queue_stage_def intro!: exI [of _ j'])
    qed
  qed (auto simp: queue_stage_def)
  note nxt = this
  show "queue_stage e (Suc i') (s\<lparr>ch := es, batch := batch s @ [x]\<rparr>)" if "i = Suc (Suc i')"
    using nxt that by simp
  show "queue_stage e i (s\<lparr>ch := es, batch := batch s @ [x]\<rparr>)"
  proof (cases i)
    case 0
    then show ?thesis using assms(1) by (simp add: queue_stage_def)
  next
    case (Suc k)
    then show ?thesis by (intro stage_mono [OF nxt]) simp_all
  qed
qed

lemma stage_flush:
  "queue_stage e i s \<Longrightarrow> healthy d \<Longrightarrow> db_open (db s) \<Longrightarrow> queue_stage e i (flush d s)"
  by (auto simp: queue_stage_def written_flush)

lemma stage_worker:
  assumes "worker_step d c s = Some s'" and "queue_stage e i s" and "healthy d" and "db_open (db s)"
  shows "queue_stage e i s'"
  using assms(1)
proof (cases rule: worker_step_cases)
  case (recv x es)
  then show ?thesis using stage_take(1) [OF assms(2)] by simp
next
  case (recv_flush x es)
  then show ?thesis
    using stage_flush [OF stage_take(1) [OF assms(2) recv_flush(2)] assms(3)] assms(4) by simp
next
  case tick
  then show ?thesis using stage_flush assms by simp
next
  case stop
  then show ?thesis using assms(2) by (simp add: queue_stage_def)
next
  case (drain x es)
  then show ?thesis using stage_take(1) [OF assms(2)] by simp
next
  case exit
  then show ?thesis
    using stage_flush [OF assms(2-4)] by (simp add: queue_stage_def)
qed

lemma serving_worker: "worker_step d c s = Some s' \<Longrightarrow> serving s \<Longrightarrow> serving s'"
  by (erule worker_step_cases) (auto simp: serving_def)

lemma stage_Send:
  assumes "queue_stage e i s" and "serving s" and "send_env (sched, d)"
  shows "queue_stage e i (Send sched d e' s) \<and> serving (Send sched d e' s)"
proof (rule Send_induct [where P = "\<lambda>u. queue_stage e i u \<and> serving u"])
  fix u :: "'a bwsys_scheme"
  assume "queue_stage e i u \<and> serving u"
  then show "queue_stage e i (enqueue e' u) \<and> serving (enqueue e' u)"
    by (auto simp: queue_stage_def written_def serving_def enqueue_def nth_append)
next
  fix u :: "'a bwsys_scheme"
  assume u: "queue_stage e i u \<and> serving u"
  then have "db (sync_write d e' u) = (db u)\<lparr>tbl := insert_or_ignore (row_of e') (tbl (db u))\<rparr>"
    using assms(3) by (simp add: sync_write_def insertOne_healthy serving_def send_env_def)
  then show "queue_stage e i (sync_write d e' u) \<and> serving (sync_write d e' u)"
    using u idx_fold_insert [of "[row_of e']" "tbl (db u)"]
    by (auto simp: queue_stage_def written_def serving_def sync_write_def)
next
  fix u u' :: "'a bwsys_scheme" and dw c
  assume "queue_stage e i u \<and> serving u" "(dw, c) \<in> set sched" "worker_step dw c u = Some u'"
  then show "queue_stage e i u' \<and> serving u'"
    using stage_worker serving_worker assms(3) by (fastforce simp: send_env_def serving_def)
qed (use assms in simp)

text \<open>What is sent is in some stage.\<close>

lemma stage_sent:
  assumes "serving s" and "send_env (sched, d)"
  shows "\<exists>i. queue_stage e i (Send sched d e s)"
proof (rule Send_induct [where P = serving])
  fix u :: "'a bwsys_scheme"
  assume "serving u"
  have "queue_stage e (length (ch u) + 2) (enqueue e u)"
    unfolding queue_stage_def by (intro disjI2 exI [of _ "length (ch u)"]) (simp add: enqueue_def)
  then show "\<exists>i. queue_stage e i (enqueue e u)" ..
next
  fix u :: "'a bwsys_scheme"
  assume "serving u"
  then have "db (sync_write d e u) = (db u)\<lparr>tbl := insert_or_ignore (row_of e) (tbl (db u))\<rparr>"
    using assms(2) by (simp add: sync_write_def insertOne_healthy serving_def send_env_def)
  then have "written e (sync_write d e u)"
    using idx_fold_insert [of "[row_of e]" "tbl (db u)"] by (simp add: written_def)
  then show "\<exists>i. queue_stage e i (sync_write d e u)"
    by (auto simp: queue_stage_def)
next
  fix u u' :: "'a bwsys_scheme" and dw c
  assume "serving u" "worker_step dw c u = Some u'"
  then show "serving u'" by (blast intro: serving_worker)
qed (rule assms(1))

lemma stage_step:
  assumes "serving f" and "event_healthy ev" and "queue_stage e i f"
  shows "queue_stage e i (node_step unm ev f)"
proof (cases ev)
  case (NApply l env)
  show ?thesis
  proof (cases rule: Apply_cases [of unm l env f])
    case (put cmd)
    let ?f1 = "f\<lparr>fsm_kv := kv_Set (cmd_Key cmd) (cmd_Value cmd) (fsm_kv f)\<rparr>"
    have "queue_stage e i (Send (a_sched env) (a_driver env) (entry_for (log_Index l) cmd) ?f1)"
      using assms NApply stage_Send [of e i ?f1]
      by (simp add: queue_stage_def written_def serving_def env_healthy_def)
    then show ?thesis
      using put NApply by (simp add: after_put_def Let_def queue_stage_def written_def)
  qed (use assms(3) NApply in \<open>simp_all add: queue_stage_def written_def\<close>)
next
  case (NWork d c)
  then show ?thesis
    using stage_worker [of d c f _ e i] assms
    by (auto simp: pump_worker_def serving_def split: option.split)
next
  case (NEvict now)
  then show ?thesis
    using assms(3) by (simp add: queue_stage_def written_def Let_def)
qed

lemma serving_Send: "serving s \<Longrightarrow> serving (Send sched d e s)"
proof (rule Send_induct [where P = serving])
  fix u :: "'a bwsys_scheme"
  assume "serving u"
  then show "serving (sync_write d e u)"
    using insertOne_result [of d e "db u"]
    by (cases "insertOne d e (db u)"; cases "fst (insertOne d e (db u))") (auto simp: serving_def sync_write_def)
next
  fix u u' :: "'a bwsys_scheme" and dw c
  assume "serving u" "worker_step dw c u = Some u'"
  then show "serving u'" by (blast intro: serving_worker)
qed (simp_all add: serving_def enqueue_def)

lemma serving_after_put: "serving f \<Longrightarrow> serving (after_put env i cmd f)"
  using serving_Send [of "f\<lparr>fsm_kv := kv_Set (cmd_Key cmd) (cmd_Value cmd) (fsm_kv f)\<rparr>"
      "a_sched env" "a_driver env" "entry_for i cmd"]
  by (simp add: after_put_def Let_def serving_def)

lemma serving_step:
  assumes "serving f" and "event_healthy ev"
  shows "serving (node_step unm ev f)"
proof (cases ev)
  case (NApply l env)
  then show ?thesis
    using assms serving_after_put
    by (cases rule: Apply_cases [of unm l env f]) (simp_all add: serving_def)
next
  case (NWork d c)
  then show ?thesis
    using assms(1) serving_worker [of d c f] by (auto simp: pump_worker_def split: option.split)
next
  case (NEvict now)
  then show ?thesis
    using assms(1) by (simp add: serving_def Let_def)
qed

text \<open>A tick empties the batch, a receive takes the head of the channel.\<close>

definition advances :: "nat \<Rightarrow> node_event \<Rightarrow> bool" where
  "advances i ev \<longleftrightarrow> (\<exists>d. ev = NWork d (if i = 1 then WTick else WRecv))"

lemma stage_advances:
  assumes "serving f" and "event_healthy ev" and "queue_stage e (Suc i) f" and "advances (Suc i) ev"
  shows "queue_stage e i (node_step unm ev f)"
proof -
  have db: "db_open (db f)" and w: "wpc f = Running"
    using assms(1) by (simp_all add: serving_def)
  show ?thesis
  proof (cases i)
    case 0
    then obtain d where ev: "ev = NWork d WTick" "healthy d"
      using assms(2,4) by (auto simp: advances_def)
    have "written e (flush d f)"
      using assms(3) 0 ev(2) db by (auto simp: queue_stage_def written_flush)
    then show ?thesis
      using 0 ev w by (simp add: pump_worker_def queue_stage_def)
  next
    case (Suc i')
    then obtain d where ev: "ev = NWork d WRecv" "healthy d"
      using assms(2,4) by (auto simp: advances_def)
    show ?thesis
    proof (cases "ch f")
      case Nil
      then show ?thesis
        using assms(3) ev w Suc by (simp add: pump_worker_def queue_stage_def)
    next
      case (Cons x es)
      have "queue_stage e i (f\<lparr>ch := es, batch := batch f @ [x]\<rparr>)"
        using stage_take(2) [OF assms(3) Cons] Suc by simp
      then show ?thesis
        using stage_flush [of e i "f\<lparr>ch := es, batch := batch f @ [x]\<rparr>" d] ev w Cons db
        by (simp add: pump_worker_def Let_def)
    qed
  qed
qed

interpretation writer_progress: staged serving "node_step unm" event_healthy queue_stage advances for unm
  by unfold_locales (blast intro: serving_step stage_step stage_advances)+

section \<open>The row that gets written\<close>

text \<open>What the settled table holds for an index it keeps, while raft delivers increasing indices.\<close>

lemma stored_put:
  assumes "bw_good f" and "env_healthy env" and "index_above i f"
  shows "bw_good (after_put env i c f)"
    and "stored (after_put env i c f) = (stored f)(uint i \<mapsto> row_of (entry_for i c))"
  using after_put_stored [of f env i c] assms stored_above [OF assms(3)] by simp_all

lemma node_step_stored:
  assumes "bw_good f" and "event_healthy ev" and "indices_ok (ev # evs) f"
  shows "bw_good (node_step unm ev f) \<and> indices_ok evs (node_step unm ev f)
    \<and> stored f \<subseteq>\<^sub>m stored (node_step unm ev f)"
proof -
  have same: ?thesis if "stored (node_step unm ev f) = stored f" "bw_good (node_step unm ev f)"
  proof -
    have "set (applied evs) \<subseteq> set (applied (ev # evs))" "sorted_wrt (<) (map log_Index (applied evs))"
      using assms(3) by (cases ev; auto simp: indices_ok_def)+
    then show ?thesis
      using that assms(3) stored_settled_eq [OF _ that(1)] by (auto simp: indices_ok_def)
  qed
  show ?thesis
  proof (cases ev)
    case (NApply l env)
    have above: "index_above (log_Index l) f"
      using assms(3) NApply by (simp add: indices_ok_def)
    show ?thesis
    proof (cases rule: Apply_cases [of unm l env f])
      case (put c)
      let ?i = "log_Index l"
      have env: "env_healthy env"
        using assms(2) NApply by simp
      have g: "node_step unm ev f = after_put env ?i c f"
        using put NApply by simp
      have "index_above (log_Index l') (after_put env ?i c f)" if "l' \<in> set (applied evs)" for l'
      proof -
        have "?i < log_Index l'" "index_above (log_Index l') f"
          using assms(3) that NApply by (auto simp: indices_ok_def)
        then show ?thesis
          unfolding index_above_stored stored_put(2) [OF assms(1) env above] by (auto simp: word_less_def)
      qed
      moreover have "sorted_wrt (<) (map log_Index (applied evs))"
        using assms(3) NApply by (simp add: indices_ok_def)
      moreover have "stored f \<subseteq>\<^sub>m stored (after_put env ?i c f)"
        using stored_above [OF above] stored_put(2) [OF assms(1) env above] by (auto simp: map_le_def)
      ultimately show ?thesis
        using stored_put(1) [OF assms(1) env above] by (simp add: g indices_ok_def)
    qed (use same assms(1) NApply in \<open>simp_all add: stored_def\<close>)
  next
    case (NWork d c)
    then show ?thesis
      using worker_step_stored [of d c f] assms(1,2)
      by (intro same) (auto simp: pump_worker_def split: option.split)
  next
    case (NEvict now)
    then show ?thesis
      using assms(1) by (intro same) (simp_all add: node_step_evict stored_def del: node_step.simps)
  qed
qed

lemma node_run_stored:
  assumes "bw_good f" and "list_all event_healthy evs" and "indices_ok (evs @ evs') f"
  shows "bw_good (node_run unm evs f) \<and> indices_ok evs' (node_run unm evs f)
    \<and> stored f \<subseteq>\<^sub>m stored (node_run unm evs f)"
  using assms
proof (induction evs arbitrary: f)
  case (Cons ev evs)
  have "bw_good (node_step unm ev f) \<and> indices_ok (evs @ evs') (node_step unm ev f)
      \<and> stored f \<subseteq>\<^sub>m stored (node_step unm ev f)"
    using Cons.prems node_step_stored [of f ev "evs @ evs'"] by simp
  then show ?case
    using Cons.IH [of "node_step unm ev f"] Cons.prems(2) map_le_trans by fastforce
qed simp

text \<open>A row of the table is the one the settled table holds for its index.\<close>

lemma table_stored: "bw_good s \<Longrightarrow> r \<in> set (tbl (db s)) \<Longrightarrow> stored s (r_idx r) = Some r"
  unfolding stored_def settled_def sql.rows_fold_ins
  using tmap_Some_iff [of "tbl (db s)" "r_idx r" r] by (simp add: bw_good_def)

section \<open>Properties\<close>

definition run_upto :: "unmarshal \<Rightarrow> (nat \<Rightarrow> node_event) \<Rightarrow> FSM \<Rightarrow> nat \<Rightarrow> FSM" where
  "run_upto unm \<sigma> f n = node_run unm (map \<sigma> [0..<n]) f"

lemma run_upto_run_to: "run_upto unm \<sigma> f n = run_to (node_step unm) \<sigma> f n"
  by (simp add: run_upto_def node_run_def run_to_def)

lemma map_upt_split: "n \<le> k \<Longrightarrow> map \<sigma> [0..<k] = map \<sigma> [0..<n] @ map \<sigma> [n..<k]"
  using upt_add_eq_append [of 0 n "k - n"] by simp

lemma run_upto_split: "n \<le> k \<Longrightarrow> run_upto unm \<sigma> f k = node_run unm (map \<sigma> [n..<k]) (run_upto unm \<sigma> f n)"
  unfolding run_upto_def by (subst map_upt_split) simp_all

lemma run_upto_good:
  assumes "startup getenv d None nid = Up f0" and "\<forall>n. event_healthy (\<sigma> n)"
    and "\<forall>n. sorted_wrt (<) (map log_Index (applied (map \<sigma> [0..<n])))" and "j \<le> k"
  shows "bw_good (run_upto unm \<sigma> f0 j)" "indices_ok (map \<sigma> [j..<k]) (run_upto unm \<sigma> f0 j)"
proof -
  have "indices_ok (map \<sigma> [0..<j] @ map \<sigma> [j..<k]) f0"
    using assms(3) startup_coherent(3) [OF assms(1)] map_upt_split [OF assms(4)] by metis
  then show "bw_good (run_upto unm \<sigma> f0 j)" "indices_ok (map \<sigma> [j..<k]) (run_upto unm \<sigma> f0 j)"
    using node_run_stored [of f0 "map \<sigma> [0..<j]" "map \<sigma> [j..<k]" unm] startup_coherent(1) [OF assms(1)] assms(2)
    by (simp_all add: list_all_iff run_upto_def)
qed

text \<open>A stored entry whose last stage is passed is in the table.\<close>

lemma stored_in_table:
  assumes "bw_good f" and "stored f (uint i) = Some (row_of (entry_for i c))" and "queue_stage (entry_for i c) 0 f"
  shows "row_of (entry_for i c) \<in> set (tbl (db f))"
proof -
  have "uint i \<in> r_idx ` set (tbl (db f))"
    using assms(3) by (simp add: queue_stage_def written_def entry_for_def)
  then obtain r where r: "r \<in> set (tbl (db f))" "r_idx r = uint i"
    by (metis imageE)
  then have "stored f (uint i) = Some r"
    using table_stored [of f r] assms(1) by simp
  then show ?thesis
    using assms(2) r(1) by simp
qed

text \<open>
  C9: Every acknowledged put becomes durable. On an infinite run of a node that starts on an empty
  disk, while the database answers and raft delivers increasing indices, and as long as the
  worker goes on receiving and its ticker goes on firing, the row of every put that \<^verbatim>\<open>Apply\<close> lets
  through is in the table from some moment on, however full the channel is and however the events
  interleave.
\<close>

theorem applied_put_becomes_durable:
  assumes up: "startup getenv d None nid = Up f0"
    and ok: "\<forall>n. event_healthy (\<sigma> n)" and order: "\<forall>n. sorted_wrt (<) (map log_Index (applied (map \<sigma> [0..<n])))"
    and recv: "\<forall>n. \<exists>m \<ge> n. \<exists>d. \<sigma> m = NWork d WRecv" and tick: "\<forall>n. \<exists>m \<ge> n. \<exists>d. \<sigma> m = NWork d WTick"
    and at: "\<sigma> n = NApply l env" "unm (log_Data l) = Inr c" "cmd_Op c = ''put''"
      "\<not> IsDuplicate (cmd_IdempotencyKey c) (fsm_dedup (run_upto unm \<sigma> f0 n))"
  shows "\<exists>m > n. \<forall>k \<ge> m. row_of (entry_for (log_Index l) c) \<in> set (tbl (db (run_upto unm \<sigma> f0 k)))"
proof -
  let ?e = "entry_for (log_Index l) c" and ?f = "run_upto unm \<sigma> f0"
  have srv: "serving f0"
    using startup_Up(2,9,13) [OF up] by (simp add: serving_def)
  note good = run_upto_good [OF up ok order, where unm = unm]
  have env: "env_healthy env"
    using ok at(1) by (metis event_healthy.simps(1))
  have f1: "?f (Suc n) = after_put env (log_Index l) c (?f n)"
    using at by (simp add: run_upto_run_to Apply_put)
  have above: "index_above (log_Index l) (?f n)"
    using good(2) [of n "Suc n"] at(1) by (simp add: indices_ok_def)
  have "stored (?f (Suc n)) (uint (log_Index l)) = Some (row_of ?e)"
    using stored_put(2) [OF good(1) [OF le_refl] env above] by (simp add: f1)
  then have st: "stored (?f k) (uint (log_Index l)) = Some (row_of ?e)" if "Suc n \<le> k" for k
    using node_run_stored [of "?f (Suc n)" "map \<sigma> [Suc n..<k]" "[]" unm] good [OF that] ok that
    by (auto simp: run_upto_split [OF that] map_le_def list_all_iff dom_def)
  have "serving ((?f n)\<lparr>fsm_kv := kv_Set (cmd_Key c) (cmd_Value c) (fsm_kv (?f n))\<rparr>)"
    using writer_progress.inv_run [OF srv ok] by (simp add: run_upto_run_to serving_def)
  then obtain i where "queue_stage ?e i (Send (a_sched env) (a_driver env) ?e
      ((?f n)\<lparr>fsm_kv := kv_Set (cmd_Key c) (cmd_Value c) (fsm_kv (?f n))\<rparr>))"
    using stage_sent env unfolding env_healthy_def by blast
  then have "queue_stage ?e i (?f (Suc n))"
    by (simp add: f1 after_put_def Let_def queue_stage_def written_def)
  moreover have "\<forall>i n. \<exists>m \<ge> n. advances (Suc i) (\<sigma> m)"
    using recv tick by (auto simp: advances_def)
  ultimately obtain m where m: "Suc n \<le> m" "\<forall>k \<ge> m. queue_stage ?e 0 (?f k)"
    using writer_progress.reached [OF srv ok, of ?e i unm "Suc n"] by (auto simp: run_upto_run_to)
  have "row_of ?e \<in> set (tbl (db (?f k)))" if "m \<le> k" for k
    using stored_in_table [OF good(1) [OF le_refl] st] m that by simp
  then show ?thesis
    using m(1) by (intro exI [of _ m]) simp
qed

text \<open>A worker that receives and ticks in turn.\<close>

definition ex_sigma :: "nat \<Rightarrow> node_event" where
  "ex_sigma n = (if n = 0 then NApply (ex_log 1 ''1'') (ex_at 0)
     else NWork no_fault (if odd n then WRecv else WTick))"

lemma ex_sigma_applied: "applied (map ex_sigma [0..<n]) = (if n = 0 then [] else [ex_log 1 ''1''])"
  by (induction n) (auto simp: ex_sigma_def)

lemma ex_sigma_fair:
  "\<exists>m \<ge> n. \<exists>d. ex_sigma m = NWork d WRecv" "\<exists>m \<ge> n. \<exists>d. ex_sigma m = NWork d WTick"
  by (rule exI [of _ "2 * n + 1"], simp add: ex_sigma_def) (rule exI [of _ "2 * n + 2"], simp add: ex_sigma_def)

theorem applied_put_becomes_durable_witness:
  "\<exists>m. \<forall>k \<ge> m. ex_row \<in> set (tbl (db (run_upto ex_unm ex_sigma (ex_node []) k)))"
proof -
  have up: "startup no_env no_fault None ''node1'' = Up (ex_node [])"
    by (simp add: ex_startup)
  have ok: "\<forall>n. event_healthy (ex_sigma n)"
    by (simp add: ex_sigma_def env_healthy_def send_env_def ex_at_def)
  have order: "\<forall>n. sorted_wrt (<) (map log_Index (applied (map ex_sigma [0..<n])))"
    by (simp add: ex_sigma_applied)
  have at: "ex_sigma 0 = NApply (ex_log 1 ''1'') (ex_at 0)"
      "ex_unm (log_Data (ex_log 1 ''1'')) = Inr (ex_put ''v1'' ''a'')" "cmd_Op (ex_put ''v1'' ''a'') = ''put''"
    by (simp_all add: ex_sigma_def ex_log_def ex_unm_def ex_put_def)
  have nd: "\<not> IsDuplicate (cmd_IdempotencyKey (ex_put ''v1'' ''a'')) (fsm_dedup (run_upto ex_unm ex_sigma (ex_node []) 0))"
    by (simp add: run_upto_def IsDuplicate_def dedup_New_def)
  have fair: "\<forall>n. \<exists>m \<ge> n. \<exists>d. ex_sigma m = NWork d WRecv" "\<forall>n. \<exists>m \<ge> n. \<exists>d. ex_sigma m = NWork d WTick"
    using ex_sigma_fair by blast+
  note applied_put_becomes_durable [OF up ok order fair at nd]
  then show ?thesis
    by (auto simp: ex_log_def ex_put_def ex_row_def)
qed

section \<open>The drain ends\<close>

text \<open>Rounds of a worker that is draining; none is left once it has exited.\<close>

fun drain_rounds :: "driver list \<Rightarrow> 'a bwsys_scheme \<Rightarrow> 'a bwsys_scheme" where
  "drain_rounds [] s = s"
| "drain_rounds (d # ds) s = drain_rounds ds (pump_worker (d, WDrain) s)"

definition rounds_left :: "'a bwsys_scheme \<Rightarrow> nat" where
  "rounds_left s = (if wpc s = Draining then Suc (length (ch s)) else 0)"

lemma worker_exited: "wpc s = Exited \<Longrightarrow> worker_step d c s = None"
  by (cases c) auto

text \<open>Every round of a draining worker is one of those left, whatever the database answers.\<close>

lemma drain_round:
  assumes "wpc s = Draining"
  shows "\<exists>s'. worker_step d WDrain s = Some s' \<and> wpc s' \<in> {Draining, Exited} \<and> rounds_left s = Suc (rounds_left s')
    \<and> (wpc s' = Exited \<longrightarrow> ch s' = [] \<and> batch s' = [])"
  using assms by (cases "ch s") (simp_all add: rounds_left_def)

lemma draining_step:
  assumes "worker_step d c s = Some s'" and "wpc s = Draining"
  shows "rounds_left s = Suc (rounds_left s') \<and> wpc s' \<in> {Draining, Exited}"
  using assms(1) by (cases rule: worker_step_cases) (use assms(2) in \<open>auto simp: rounds_left_def\<close>)

lemma no_endless_drain:
  assumes "wpc (u 0) = Draining" and "\<forall>n. worker_step (d n) (c n) (u n) = Some (u (Suc n))"
  shows False
proof -
  have "wpc (u n) = Draining" for n
  proof (induction n)
    case (Suc n)
    then have "wpc (u (Suc n)) \<in> {Draining, Exited}"
      using draining_step [of "d n" "c n" "u n"] assms(2) by simp
    moreover have "wpc (u (Suc n)) \<noteq> Exited"
      using assms(2) worker_exited by (metis option.distinct(1))
    ultimately show ?case by simp
  qed (rule assms(1))
  then have round: "rounds_left (u n) = Suc (rounds_left (u (Suc n)))" for n
    using draining_step assms(2) by blast
  have "rounds_left (u 0) = rounds_left (u n) + n" for n
  proof (induction n)
    case (Suc n)
    then show ?case
      using round [of n] by linarith
  qed simp
  from this [of "Suc (rounds_left (u 0))"] show False
    by simp
qed

text \<open>Entries may still be sent meanwhile: each adds at most one round.\<close>

fun drains :: "writer_event list \<Rightarrow> nat" where
  "drains [] = 0"
| "drains (Inl v # xs) = drains xs"
| "drains (Inr (d, c) # xs) = (if c = WDrain then Suc (drains xs) else drains xs)"

definition leaving :: "'a bwsys_scheme \<Rightarrow> bool" where
  "leaving s \<longleftrightarrow> wpc s \<in> {Draining, Exited}"

lemma leaving_step:
  assumes "worker_step d c s = Some s'" and "leaving s"
  shows "leaving s' \<and> rounds_left s = Suc (rounds_left s')"
  using assms worker_exited [of s d c] draining_step [OF assms(1)] by (auto simp: leaving_def)

lemma leaving_pump:
  assumes "leaving s"
  shows "leaving (pump_worker (d, c) s)"
    and "rounds_left (pump_worker (d, c) s) \<le> rounds_left s - (if c = WDrain then 1 else 0)"
proof -
  have "leaving (pump_worker (d, c) s) \<and> rounds_left (pump_worker (d, c) s) \<le> rounds_left s - (if c = WDrain then 1 else 0)"
  proof (cases "worker_step d c s")
    case None
    then have "c = WDrain \<Longrightarrow> rounds_left s = 0"
      using drain_round [of s d] by (auto simp: rounds_left_def)
    then show ?thesis
      using None assms by (auto simp: pump_worker_def)
  next
    case (Some s')
    then show ?thesis
      using leaving_step [OF Some assms] by (simp add: pump_worker_def)
  qed
  then show "leaving (pump_worker (d, c) s)"
    and "rounds_left (pump_worker (d, c) s) \<le> rounds_left s - (if c = WDrain then 1 else 0)"
    by blast+
qed

lemma leaving_Send:
  assumes "leaving s"
  shows "leaving (Send sched d e s) \<and> rounds_left (Send sched d e s) \<le> (if wpc s = Exited then 0 else Suc (rounds_left s))"
  (is "?Q (Send sched d e s)")
proof (rule Send_induct [where P = "\<lambda>u. leaving u \<and> rounds_left u \<le> rounds_left s \<and> (wpc s = Exited \<longrightarrow> wpc u = Exited)"])
  fix u u' :: "'a bwsys_scheme" and dw c
  assume u: "leaving u \<and> rounds_left u \<le> rounds_left s \<and> (wpc s = Exited \<longrightarrow> wpc u = Exited)"
    and step: "worker_step dw c u = Some u'"
  then show "leaving u' \<and> rounds_left u' \<le> rounds_left s \<and> (wpc s = Exited \<longrightarrow> wpc u' = Exited)"
    using leaving_step [OF step] worker_exited [of u dw c] by auto
qed (use assms in \<open>auto simp: leaving_def rounds_left_def enqueue_def sync_write_def\<close>)

lemma drain_beside_sends:
  assumes "leaving s"
  shows "leaving (bw_run xs s)
    \<and> (rounds_left (bw_run xs s) = 0 \<or> rounds_left (bw_run xs s) + drains xs \<le> rounds_left s + length (sent xs))
    \<and> (rounds_left s = 0 \<longrightarrow> rounds_left (bw_run xs s) = 0)"
  using assms
proof (induction xs s rule: bw_run.induct)
  case (2 v e xs s)
  obtain sched d where v: "v = (sched, d)" by (cases v)
  let ?s = "Send sched d e s"
  have step: "leaving ?s" "rounds_left ?s \<le> Suc (rounds_left s)" "rounds_left s = 0 \<longrightarrow> rounds_left ?s = 0"
    using leaving_Send [OF "2.prems", of sched d e] "2.prems" by (auto simp: leaving_def rounds_left_def split: if_splits)
  have "send_with v e s = ?s"
    by (simp add: v send_with_def)
  then show ?case
    using "2.IH" step by auto
next
  case (3 w xs s)
  obtain d c where w: "w = (d, c)" by (cases w)
  note step = leaving_pump [OF "3.prems", of d c]
  have "leaving (bw_run xs (pump_worker w s))
      \<and> (rounds_left (bw_run xs (pump_worker w s)) = 0
        \<or> rounds_left (bw_run xs (pump_worker w s)) + drains xs \<le> rounds_left (pump_worker w s) + length (sent xs))
      \<and> (rounds_left (pump_worker w s) = 0 \<longrightarrow> rounds_left (bw_run xs (pump_worker w s)) = 0)"
    using "3.IH" step(1) w by simp
  then show ?case
    using step(2) unfolding w by (auto split: if_splits)
qed simp

text \<open>
  C25: The drain terminates. From the moment the worker has taken the stop case of its select, and
  whatever the database answers to each transaction: if nothing more is sent, it leaves after exactly one round per
  entry in the channel and one more, with channel and batch empty and no step possible after;
  no schedule of its cases can go on for ever; and if entries are still sent meanwhile, in any
  interleaving, it has left after one more round for each of them. How long the select may prefer its other cases
  before is not bounded.
\<close>

theorem drain_terminates:
  assumes "wpc s = Draining"
  shows "(length ds = Suc (length (ch s)) \<longrightarrow>
        (let s' = drain_rounds ds s
         in wpc s' = Exited \<and> ch s' = [] \<and> batch s' = [] \<and> (\<forall>d c. worker_step d c s' = None)))
    \<and> (length ds \<le> length (ch s) \<longrightarrow> wpc (drain_rounds ds s) = Draining)
    \<and> \<not> (\<exists>u d c. u 0 = s \<and> (\<forall>n. worker_step (d n) (c n) (u n) = Some (u (Suc n))))
    \<and> (length (ch s) + length (sent xs) < drains xs \<longrightarrow> wpc (bw_run xs s) = Exited)"
proof (intro conjI impI)
  show "let s' = drain_rounds ds s
      in wpc s' = Exited \<and> ch s' = [] \<and> batch s' = [] \<and> (\<forall>d c. worker_step d c s' = None)"
    if "length ds = Suc (length (ch s))"
    using assms that
  proof (induction ds arbitrary: s)
    case (Cons d ds)
    show ?case
    proof (cases "ch s")
      case Nil
      then show ?thesis
        using Cons.prems by (simp add: pump_worker_def worker_exited)
    next
      case (Cons x xs)
      then show ?thesis
        using Cons.IH [of "s\<lparr>ch := xs, batch := batch s @ [x]\<rparr>"] Cons.prems by (simp add: pump_worker_def)
    qed
  qed simp
  show "wpc (drain_rounds ds s) = Draining" if "length ds \<le> length (ch s)"
    using assms that
  proof (induction ds arbitrary: s)
    case (Cons d ds)
    then obtain x xs where "ch s = x # xs" by (cases "ch s") simp_all
    then show ?case
      using Cons.IH [of "s\<lparr>ch := xs, batch := batch s @ [x]\<rparr>"] Cons.prems by (simp add: pump_worker_def)
  qed simp
  show "\<not> (\<exists>u d c. u 0 = s \<and> (\<forall>n. worker_step (d n) (c n) (u n) = Some (u (Suc n))))"
    using no_endless_drain assms by metis
  show "wpc (bw_run xs s) = Exited" if "length (ch s) + length (sent xs) < drains xs"
    using drain_beside_sends [of s xs] assms that by (auto simp: leaving_def rounds_left_def split: if_splits)
qed

definition ex_draining :: bwsys where
  "ex_draining = ex_writer\<lparr>ch := [ex_entry 1], wpc := Draining, stop_closed := True\<rparr>"

definition bad_driver :: driver where
  "bad_driver = no_fault\<lparr>d_begin := Some ''disk I/O error''\<rparr>"

theorem drain_terminates_witness:
  "wpc (drain_rounds [no_fault, bad_driver] ex_draining) = Exited
   \<and> wpc (drain_rounds [no_fault] ex_draining) = Draining
   \<and> wpc (bw_run [Inr (bad_driver, WDrain), Inl (([], no_fault), ex_entry 2), Inr (no_fault, WDrain), Inr (no_fault, WDrain)]
       ex_draining) = Exited"
  using drain_terminates [of ex_draining "[no_fault, bad_driver]"] drain_terminates [of ex_draining "[no_fault]"]
    drain_terminates [of ex_draining "[]"
      "[Inr (bad_driver, WDrain), Inl (([], no_fault), ex_entry 2), Inr (no_fault, WDrain), Inr (no_fault, WDrain)]"]
  by (simp add: ex_draining_def Let_def)

end
