(* ===== verification/Replication.thy ===== *)
theory Replication
  imports Prelude Node
begin

text \<open>
  Several nodes over one log. The consensus library is not modelled; what the program relies on is
  that committed entries form one sequence with increasing indices, that every node is delivered a
  prefix of it in order, and that a node that restarts is delivered it again from the first entry.
  Each node is the one of the other theories, with its own worker, clock, cleaner and database.
\<close>

section \<open>The cluster\<close>

text \<open>
  A replica: its state machine and how many entries it was delivered since its last start. The last
  two fields are history: the state that start gave and the events since.
\<close>

record replica =
  rp_fsm :: FSM
  rp_pos :: nat
  rp_boot :: FSM
  rp_life :: "node_event list"

record cluster =
  cl_log :: "raft_Log list"
  cl_node :: "string \<Rightarrow> replica"

definition boot_replica :: "FSM \<Rightarrow> replica" where
  "boot_replica f = \<lparr>rp_fsm = f, rp_pos = 0, rp_boot = f, rp_life = []\<rparr>"

definition advance :: "unmarshal \<Rightarrow> node_event \<Rightarrow> replica \<Rightarrow> replica" where
  "advance unm ev r = r\<lparr>rp_fsm := node_step unm ev (rp_fsm r), rp_life := rp_life r @ [ev]\<rparr>"

definition set_node :: "string \<Rightarrow> replica \<Rightarrow> cluster \<Rightarrow> cluster" where
  "set_node n r c = c\<lparr>cl_node := (cl_node c)(n := r)\<rparr>"

definition deliver :: "unmarshal \<Rightarrow> apply_env \<Rightarrow> raft_Log list \<Rightarrow> replica \<Rightarrow> replica" where
  "deliver unm env ls r = (advance unm (NApply (ls ! rp_pos r) env) r)\<lparr>rp_pos := Suc (rp_pos r)\<rparr>"

text \<open>A crash keeps any part of the table and loses batch, channel, map and dedup store.\<close>

inductive cl_step :: "unmarshal \<Rightarrow> cluster \<Rightarrow> cluster \<Rightarrow> bool" for unm where
  commit: "\<forall>l' \<in> set (cl_log c). log_Index l' < log_Index l \<Longrightarrow>
    cl_step unm c (c\<lparr>cl_log := cl_log c @ [l]\<rparr>)"
| deliver: "rp_pos (cl_node c n) < length (cl_log c) \<Longrightarrow>
    cl_step unm c (set_node n (deliver unm env (cl_log c) (cl_node c n)) c)"
| work: "cl_step unm c (set_node n (advance unm (NWork d w) (cl_node c n)) c)"
| evict: "cl_step unm c (set_node n (advance unm (NEvict now) (cl_node c n)) c)"
| crash: "startup getenv d (Some (filter kept (tbl (db (rp_fsm (cl_node c n)))))) n = Up f \<Longrightarrow>
    cl_step unm c (set_node n (boot_replica f) c)"

inductive cl_reach :: "unmarshal \<Rightarrow> cluster \<Rightarrow> bool" for unm where
  start: "cl_log c = [] \<Longrightarrow> \<forall>n. \<exists>getenv d f. startup getenv d None n = Up f \<and> cl_node c n = boot_replica f \<Longrightarrow>
    cl_reach unm c"
| step: "cl_reach unm c \<Longrightarrow> cl_step unm c c' \<Longrightarrow> cl_reach unm c'"

inductive_cases cl_stepE: "cl_step unm c c'"

lemma set_node_simps [simp]:
  "cl_log (set_node n r c) = cl_log c" "cl_node (set_node n r c) = (cl_node c)(n := r)"
  by (simp_all add: set_node_def)

lemma advance_simps [simp]:
  "rp_fsm (advance unm ev r) = node_step unm ev (rp_fsm r)" "rp_pos (advance unm ev r) = rp_pos r"
  "rp_boot (advance unm ev r) = rp_boot r" "rp_life (advance unm ev r) = rp_life r @ [ev]"
  by (simp_all add: advance_def)

lemma boot_replica_simps [simp]:
  "rp_fsm (boot_replica f) = f" "rp_pos (boot_replica f) = 0" "rp_boot (boot_replica f) = f"
  "rp_life (boot_replica f) = []"
  by (simp_all add: boot_replica_def)

section \<open>Nothing out of thin air\<close>

definition puts :: "unmarshal \<Rightarrow> raft_Log list \<Rightarrow> Command set" where
  "puts unm ls = {c \<in> set (decoded unm ls). cmd_Op c = ''put''}"

text \<open>Every pair a node holds, in memory or on its way to the disk, is from a put of the log.\<close>

definition sound :: "unmarshal \<Rightarrow> raft_Log list \<Rightarrow> FSM \<Rightarrow> bool" where
  "sound unm ls f \<longleftrightarrow>
     row_kv ` holds_rows f \<subseteq> cmd_kv ` puts unm ls
     \<and> (\<forall>k v. kv_data (fsm_kv f) k = Some v \<longrightarrow> (k, v) \<in> cmd_kv ` puts unm ls)"

lemma keys_of: "row_kv ` R \<subseteq> cmd_kv ` P \<Longrightarrow> r_key ` R \<subseteq> cmd_Key ` P"
  by (force simp: row_kv_def cmd_kv_def)

lemma puts_append: "puts unm (xs @ ys) = puts unm xs \<union> puts unm ys"
  by (auto simp: puts_def decoded_append)

lemma puts_mem: "l \<in> set ls \<Longrightarrow> unm (log_Data l) = Inr c \<Longrightarrow> cmd_Op c = ''put'' \<Longrightarrow> c \<in> puts unm ls"
  by (force simp: puts_def decoded_def)

lemma sound_mono: "sound unm ls f \<Longrightarrow> sound unm (ls @ ls') f"
  unfolding sound_def puts_append by blast

lemma writes_Some: "writes es m k = Some v \<Longrightarrow> (k, v) \<in> set es \<or> m k = Some v"
  by (auto simp: writes_map_of map_add_def split: option.split_asm dest: map_of_SomeD)

lemma sound_startup:
  assumes "startup getenv d disk nid = Up f" and "row_kv ` set (createSchema disk) \<subseteq> cmd_kv ` puts unm ls"
  shows "sound unm ls f"
  using assms(2) startup_Up(6,11) [OF assms(1)]
  by (auto simp: sound_def replay_map_def dest!: writes_Some)

lemma sound_step:
  assumes "sound unm ls f" and "\<And>l env. ev = NApply l env \<Longrightarrow> l \<in> set ls"
  shows "sound unm ls (node_step unm ev f)"
proof (cases ev)
  case (NApply l env)
  then have l: "l \<in> set ls" by (rule assms(2))
  show ?thesis
  proof (cases rule: Apply_cases [of unm l env f])
    case (put c)
    have kv: "cmd_kv c \<in> cmd_kv ` puts unm ls"
      using puts_mem [of l ls unm c] l put(1,3) by blast
    have "row_kv ` holds_rows (after_put env (log_Index l) c f) \<subseteq> insert (cmd_kv c) (row_kv ` holds_rows f)"
      using image_mono [OF holds_rows_after_put, of row_kv env "log_Index l" c f]
      by (simp add: row_kv_def cmd_kv_def)
    then have "row_kv ` holds_rows (after_put env (log_Index l) c f) \<subseteq> cmd_kv ` puts unm ls"
      using kv assms(1) [unfolded sound_def, THEN conjunct1] by (meson insert_subset order_trans)
    moreover have "\<forall>k v. ((kv_data (fsm_kv f))(cmd_Key c \<mapsto> cmd_Value c)) k = Some v \<longrightarrow> (k, v) \<in> cmd_kv ` puts unm ls"
    proof (intro allI impI)
      fix k v assume "((kv_data (fsm_kv f))(cmd_Key c \<mapsto> cmd_Value c)) k = Some v"
      then have "(k, v) = cmd_kv c \<or> kv_data (fsm_kv f) k = Some v"
        by (auto simp: cmd_kv_def split: if_split_asm)
      then show "(k, v) \<in> cmd_kv ` puts unm ls"
        using kv assms(1) unfolding sound_def by metis
    qed
    ultimately show ?thesis
      using put NApply by (simp add: sound_def del: fun_upd_apply)
  qed (use assms(1) NApply in \<open>simp_all add: sound_def\<close>)
next
  case (NWork d w)
  then show ?thesis
    using holds_rows_pump [of "(d, w)" f] assms(1) by (auto simp: sound_def)
next
  case (NEvict now)
  then show ?thesis
    using assms(1) by (simp add: sound_def node_step_evict del: node_step.simps)
qed

section \<open>What a replica is\<close>

definition booted_on :: "unmarshal \<Rightarrow> raft_Log list \<Rightarrow> FSM \<Rightarrow> bool" where
  "booted_on unm ls f \<longleftrightarrow>
     (\<exists>getenv d disk nid. startup getenv d disk nid = Up f
        \<and> row_kv ` set (createSchema disk) \<subseteq> cmd_kv ` puts unm ls)"

lemma booted_on_mono: "booted_on unm ls f \<Longrightarrow> booted_on unm (ls @ ls') f"
  unfolding booted_on_def puts_append image_Un by (meson le_supI1)

definition replica_inv :: "unmarshal \<Rightarrow> raft_Log list \<Rightarrow> replica \<Rightarrow> bool" where
  "replica_inv unm ls r \<longleftrightarrow>
     rp_pos r \<le> length ls \<and> applied (rp_life r) = take (rp_pos r) ls
     \<and> rp_fsm r = node_run unm (rp_life r) (rp_boot r) \<and> sound unm ls (rp_fsm r)
     \<and> booted_on unm ls (rp_boot r)"

lemma replica_inv_boot:
  assumes "startup getenv d disk nid = Up f" and "row_kv ` set (createSchema disk) \<subseteq> cmd_kv ` puts unm ls"
  shows "replica_inv unm ls (boot_replica f)"
proof -
  have "booted_on unm ls f"
    using assms unfolding booted_on_def by blast
  then show ?thesis
    using sound_startup [OF assms] by (simp add: replica_inv_def)
qed

lemma replica_invD:
  assumes "replica_inv unm ls r"
  shows "rp_pos r \<le> length ls" "applied (rp_life r) = take (rp_pos r) ls"
    "rp_fsm r = node_run unm (rp_life r) (rp_boot r)" "sound unm ls (rp_fsm r)" "booted_on unm ls (rp_boot r)"
  using assms unfolding replica_inv_def by blast+

lemma replica_inv_commit:
  assumes "replica_inv unm ls r"
  shows "replica_inv unm (ls @ [l]) r"
  unfolding replica_inv_def
  using replica_invD(1,2,3) [OF assms] sound_mono [OF replica_invD(4) [OF assms]]
    booted_on_mono [OF replica_invD(5) [OF assms]]
  by (intro conjI) simp_all

lemma replica_inv_advance:
  assumes "replica_inv unm ls r" and "applied [ev] = []"
  shows "replica_inv unm ls (advance unm ev r)"
proof -
  have "sound unm ls (node_step unm ev (rp_fsm r))"
    by (rule sound_step [OF replica_invD(4) [OF assms(1)]]) (use assms(2) in auto)
  moreover have "applied (rp_life r @ [ev]) = applied (rp_life r)"
    using assms(2) by simp
  ultimately show ?thesis
    using replica_invD [OF assms(1)] by (simp add: replica_inv_def)
qed

lemma replica_inv_deliver:
  assumes "replica_inv unm ls r" and "rp_pos r < length ls"
  shows "replica_inv unm ls (deliver unm env ls r)"
proof -
  have "sound unm ls (node_step unm (NApply (ls ! rp_pos r) env) (rp_fsm r))"
    by (rule sound_step [OF replica_invD(4) [OF assms(1)]]) (use assms(2) in auto)
  then show ?thesis
    using replica_invD [OF assms(1)] assms(2)
    by (simp add: replica_inv_def deliver_def take_Suc_conv_app_nth)
qed

lemma cl_step_inv:
  assumes "cl_step unm c c'" and "\<forall>n. replica_inv unm (cl_log c) (cl_node c n)"
  shows "\<forall>n. replica_inv unm (cl_log c') (cl_node c' n)"
  using assms(1)
proof cases
  case (commit l)
  then show ?thesis
    using assms(2) by (simp add: replica_inv_commit)
next
  case (deliver n env)
  then show ?thesis
    using assms(2) by (simp add: replica_inv_deliver)
next
  case (work n d w)
  then show ?thesis
    using assms(2) by (simp add: replica_inv_advance)
next
  case (evict n now)
  then show ?thesis
    using assms(2) by (simp add: replica_inv_advance)
next
  case (crash getenv d kept n f)
  have "sound unm (cl_log c) (rp_fsm (cl_node c n))"
    using assms(2) unfolding replica_inv_def by blast
  then have "row_kv ` set (filter kept (tbl (db (rp_fsm (cl_node c n))))) \<subseteq> cmd_kv ` puts unm (cl_log c)"
    by (auto simp: sound_def holds_rows_def)
  then show ?thesis
    using replica_inv_boot [OF crash(2)] assms(2) crash(1) by simp
qed

lemma cl_reach_inv: "cl_reach unm c \<Longrightarrow> replica_inv unm (cl_log c) (cl_node c n)"
proof (induction arbitrary: n rule: cl_reach.induct)
  case (start c)
  then obtain getenv d f where "startup getenv d None n = Up f" "cl_node c n = boot_replica f"
    by blast
  then show ?case
    using replica_inv_boot by fastforce
next
  case (step c c')
  then show ?case
    using cl_step_inv by blast
qed

section \<open>Properties\<close>

text \<open>
  The discipline of clients: a retry repeats the command, and within the retention time of the
  store it meets.
\<close>

definition one_command :: "Command list \<Rightarrow> bool" where
  "one_command cs \<longleftrightarrow>
     (\<forall>x \<in> set cs. \<forall>y \<in> set cs. cmd_IdempotencyKey x = cmd_IdempotencyKey y \<and> cmd_IdempotencyKey x \<noteq> [] \<longrightarrow> x = y)"

definition retries_ok :: "unmarshal \<Rightarrow> replica \<Rightarrow> bool" where
  "retries_ok unm r \<longleftrightarrow>
     sorted (event_times (rp_life r)) \<and> retry_within unm (retention (fsm_dedup (rp_boot r))) (rp_life r)"

text \<open>Under the first, each put of the log is the first of its key.\<close>

lemma put_is_first:
  assumes "c \<in> set cs" and "cmd_Op c = ''put''" and "one_command cs" and "cmd_IdempotencyKey c \<notin> A"
  shows "c \<in> set (first_puts A cs)"
  using assms
proof (induction A cs rule: first_puts.induct)
  case (2 A x cs)
  have one: "one_command cs"
    using "2.prems"(3) by (auto simp: one_command_def)
  show ?case
  proof (cases "c = x")
    case True
    then show ?thesis
      using "2.prems" by (simp add: takes_def)
  next
    case False
    then have c: "c \<in> set cs" using "2.prems"(1) by simp
    show ?thesis
    proof (cases "takes x A")
      case True
      have "cmd_IdempotencyKey c \<notin> fst (spec_step x (A, Map.empty))"
      proof (cases "cmd_IdempotencyKey x = []")
        case True
        then show ?thesis
          using "2.prems"(4) by (simp add: spec_step_def)
      next
        case False
        then have "cmd_IdempotencyKey c \<noteq> cmd_IdempotencyKey x"
          using "2.prems"(3) c \<open>c \<noteq> x\<close> by (auto simp: one_command_def)
        then show ?thesis
          using "2.prems"(4) by (simp add: spec_step_def)
      qed
      then show ?thesis
        using "2.IH"(1) [OF True c "2.prems"(2) one] True by simp
    next
      case False
      then show ?thesis
        using "2.IH"(2) [OF False c "2.prems"(2) one "2.prems"(4)] by simp
    qed
  qed
qed simp

text \<open>A replica that was delivered the whole log holds what the log determines.\<close>

lemma caught_up:
  assumes "cl_reach unm c" and "one_command (decoded unm (cl_log c))"
    and "rp_pos (cl_node c n) = length (cl_log c)" and "retries_ok unm (cl_node c n)"
  shows "kv_data (fsm_kv (rp_fsm (cl_node c n))) = spec_kv unm (cl_log c)"
proof -
  let ?r = "cl_node c n" and ?P = "first_puts {} (decoded unm (cl_log c))"
  have inv: "replica_inv unm (cl_log c) ?r"
    using cl_reach_inv [OF assms(1)] .
  then obtain getenv d disk nid where up: "startup getenv d disk nid = Up (rp_boot ?r)"
      and base: "row_kv ` set (createSchema disk) \<subseteq> cmd_kv ` puts unm (cl_log c)"
    unfolding replica_inv_def booted_on_def by blast
  have ap: "applied (rp_life ?r) = cl_log c"
    using inv assms(3) by (simp add: replica_inv_def)
  have "puts unm (cl_log c) \<subseteq> set ?P"
    using put_is_first [OF _ _ assms(2), of _ "{}"] by (auto simp: puts_def)
  then have "dom (replay_map (createSchema disk)) \<subseteq> fst ` set (map cmd_kv ?P)"
    using order_trans [OF keys_of [OF base] image_mono] unfolding dom_replay_map
    by (simp add: cmd_kv_def image_image)
  then have "writes (map cmd_kv ?P) (replay_map (createSchema disk)) = writes (map cmd_kv ?P) Map.empty"
    by (rule writes_cover)
  then show ?thesis
    using node_run_spec(1) [OF up, of "rp_life ?r" unm] assms(4) inv
    by (simp add: retries_ok_def replica_inv_def ap spec_kv_writes)
qed

text \<open>
  C4: The cluster agrees. In any reachable state of the cluster, with any interleaving of commits,
  deliveries, worker rounds, evictions, database faults, crashes that lose rows, and restarts, two
  nodes that were delivered the whole log hold the same map, the one the log determines, whether
  or not they ever crashed; provided that no idempotency key comes with two different commands, and that both
  met each retry within the retention time of their dedup stores, by clocks that do not go back.
\<close>

theorem cluster_agrees:
  assumes "cl_reach unm c" and "one_command (decoded unm (cl_log c))"
    and "\<forall>n \<in> {a, b}. rp_pos (cl_node c n) = length (cl_log c) \<and> retries_ok unm (cl_node c n)"
  shows "fsm_kv (rp_fsm (cl_node c a)) = fsm_kv (rp_fsm (cl_node c b))
    \<and> kv_data (fsm_kv (rp_fsm (cl_node c a))) = spec_kv unm (cl_log c)"
  using caught_up [OF assms(1,2), of a] caught_up [OF assms(1,2), of b] assms(3) KV_eqI by simp

text \<open>So whatever a node shows was committed.\<close>

lemma sound_read:
  assumes "sound unm ls f" and "kv_Get k (fsm_kv f) = (v, True)"
  shows "\<exists>cmd \<in> set (decoded unm ls). cmd_Op cmd = ''put'' \<and> cmd_Key cmd = k \<and> cmd_Value cmd = v"
proof -
  have "kv_data (fsm_kv f) k = Some v"
    using assms(2) by (simp add: kv_Get_def split: option.split_asm)
  then have "(k, v) \<in> cmd_kv ` puts unm ls"
    using assms(1) by (simp add: sound_def)
  then show ?thesis
    by (auto simp: cmd_kv_def puts_def)
qed

section \<open>An instance\<close>

definition ex_up :: "row list \<Rightarrow> string \<Rightarrow> FSM" where
  "ex_up t nid =
     fsm_New \<lparr>kv_data = replay_map t\<rparr> (dedup_New no_env)
       (writer_of no_env \<lparr>tbl = t, db_open = True\<rparr> init_metrics) nid"

lemma ex_up_startup: "startup no_env no_fault disk nid = Up (ex_up (createSchema disk) nid)"
  using ex_startup [of disk]
  by (auto simp: startup_def boot_state_def goroutines_ok_def run_start_def ex_up_def ex_node_def fsm_New_def bwsys.defs
      split: option.splits prod.splits sum.splits if_splits)

lemma ex_up_simps [simp]:
  "fsm_kv (ex_up t nid) = \<lparr>kv_data = replay_map t\<rparr>" "fsm_dedup (ex_up t nid) = dedup_New no_env"
  by (simp_all add: ex_up_def fsm_New_def bwsys.defs)

definition ex_start :: cluster where
  "ex_start = \<lparr>cl_log = [], cl_node = (\<lambda>n. boot_replica (ex_up [] n))\<rparr>"

text \<open>A put is committed; the first node applies it, crashes with its disk empty and applies it again.\<close>

definition ex_committed :: cluster where
  "ex_committed = ex_start\<lparr>cl_log := [ex_log 1 ''1'']\<rparr>"

definition ex_done :: "string \<Rightarrow> replica" where
  "ex_done n = deliver ex_unm (ex_at 0) [ex_log 1 ''1''] (boot_replica (ex_up [] n))"

definition ex_cluster :: cluster where
  "ex_cluster = set_node ''node2'' (ex_done ''node2'') (set_node ''node1'' (ex_done ''node1'')
     (set_node ''node1'' (boot_replica (ex_up [] ''node1'')) (set_node ''node1'' (ex_done ''node1'') ex_committed)))"

lemma ex_cluster_reach: "cl_reach ex_unm ex_cluster"
proof -
  have log: "cl_log ex_committed = [ex_log 1 ''1'']" "cl_node ex_committed = (\<lambda>n. boot_replica (ex_up [] n))"
    by (simp_all add: ex_committed_def ex_start_def)
  have "cl_reach ex_unm ex_start"
    using ex_up_startup [of None] by (intro cl_reach.start) (auto simp: ex_start_def)
  then have c0: "cl_reach ex_unm ex_committed"
    using cl_step.commit [of ex_start "ex_log 1 ''1''" ex_unm]
    by (auto simp: ex_committed_def ex_start_def intro: cl_reach.step)
  have put: "cl_reach ex_unm (set_node n (ex_done n) c)"
    if "cl_reach ex_unm c" "cl_log c = [ex_log 1 ''1'']" "cl_node c n = boot_replica (ex_up [] n)" for c n
    using cl_step.deliver [of c n ex_unm "ex_at 0"] that by (auto simp: ex_done_def intro: cl_reach.step)
  have crash: "cl_reach ex_unm (set_node n (boot_replica (ex_up [] n)) c)" if "cl_reach ex_unm c" for c n
  proof (rule cl_reach.step [OF that cl_step.crash])
    show "startup no_env no_fault (Some (filter (\<lambda>_. False) (tbl (db (rp_fsm (cl_node c n)))))) n = Up (ex_up [] n)"
      by (simp add: ex_up_startup)
  qed
  show ?thesis
    unfolding ex_cluster_def by (intro put crash c0) (simp_all add: log)
qed

lemma ex_cluster_nodes:
  "cl_log ex_cluster = [ex_log 1 ''1'']" "n \<in> {''node1'', ''node2''} \<Longrightarrow> cl_node ex_cluster n = ex_done n"
  by (auto simp: ex_cluster_def ex_committed_def ex_start_def)

theorem cluster_agrees_witness:
  "cl_reach ex_unm ex_cluster
   \<and> fsm_kv (rp_fsm (cl_node ex_cluster ''node1'')) = fsm_kv (rp_fsm (cl_node ex_cluster ''node2''))
   \<and> kv_data (fsm_kv (rp_fsm (cl_node ex_cluster ''node1''))) ''k'' = Some ''v1''"
proof -
  have one: "one_command (decoded ex_unm (cl_log ex_cluster))"
    by (simp add: ex_cluster_nodes one_command_def decoded_def ex_defs)
  have nodes: "\<forall>n \<in> {''node1'', ''node2''}. rp_pos (cl_node ex_cluster n) = length (cl_log ex_cluster)
      \<and> retries_ok ex_unm (cl_node ex_cluster n)"
    by (simp add: ex_cluster_nodes ex_done_def deliver_def retries_ok_def ex_defs)
  have "spec_kv ex_unm (cl_log ex_cluster) ''k'' = Some ''v1''"
    by (simp add: ex_cluster_nodes spec_kv_def spec_log_def spec_step_def takes_def ex_defs)
  then show ?thesis
    using cluster_agrees [OF ex_cluster_reach one nodes] ex_cluster_reach by metis
qed

end
