(* ===== verification/Swagger.thy ===== *)
theory Swagger
  imports Prelude Json Server
begin

text \<open>
  \<^verbatim>\<open>server/swagger.go\<close>: the OpenAPI document of the API, its HTML page, and what their handlers answer.
  The document is the text of the source, line by line; a string literal in it is written with
  \<open>quoted\<close>, an indentation with \<open>ind\<close>. Read by the model of \<^verbatim>\<open>encoding/json\<close> it gives \<open>swagger_doc\<close>
  (\<open>swaggerSpec_parses\<close>), so that what it says about the API can be compared with the handlers.
\<close>

section \<open>The text\<close>

definition nl :: string where "nl = [CHR 0x0A]"

definition ind :: "nat \<Rightarrow> string" where "ind n = replicate n (CHR 0x20)"

definition quoted :: "string \<Rightarrow> string" where "quoted s = [quote_char] @ s @ [quote_char]"

definition spec_info :: string where
  "spec_info =
     nl @ ind 2 @ quoted ''openapi'' @ '': '' @ quoted ''3.0.0'' @ '',''
     @ nl @ ind 2 @ quoted ''info'' @ '': {''
     @ nl @ ind 4 @ quoted ''title'' @ '': '' @ quoted ''raft-kv API'' @ '',''
     @ nl @ ind 4 @ quoted ''description'' @ '': '' @ quoted (''Distributed key-value store built on the Raft consensus protocol. Any node accepts reads and writes '' @ em_dash @ '' followers auto-forward writes to the current leader.'') @ '',''
     @ nl @ ind 4 @ quoted ''version'' @ '': '' @ quoted ''1.0.0''
     @ nl @ ind 2 @ ''},''"

definition spec_servers :: string where
  "spec_servers =
     nl @ ind 2 @ quoted ''servers'' @ '': [''
     @ nl @ ind 4 @ ''{ '' @ quoted ''url'' @ '': '' @ quoted ''http://127.0.0.1:8001'' @ '', '' @ quoted ''description'' @ '': '' @ quoted ''node1'' @ '' },''
     @ nl @ ind 4 @ ''{ '' @ quoted ''url'' @ '': '' @ quoted ''http://127.0.0.1:8002'' @ '', '' @ quoted ''description'' @ '': '' @ quoted ''node2'' @ '' },''
     @ nl @ ind 4 @ ''{ '' @ quoted ''url'' @ '': '' @ quoted ''http://127.0.0.1:8003'' @ '', '' @ quoted ''description'' @ '': '' @ quoted ''node3'' @ '' }''
     @ nl @ ind 2 @ ''],''"

definition spec_put :: string where
  "spec_put =
     nl @ ind 4 @ quoted ''/put'' @ '': {''
     @ nl @ ind 6 @ quoted ''post'' @ '': {''
     @ nl @ ind 8 @ quoted ''summary'' @ '': '' @ quoted ''Write a key-value pair'' @ '',''
     @ nl @ ind 8 @ quoted ''description'' @ '': '' @ quoted ''Submits a PUT command to the Raft log. If this node is a follower it automatically forwards the request to the current leader and waits for majority commit before returning 200.'' @ '',''
     @ nl @ ind 8 @ quoted ''requestBody'' @ '': {''
     @ nl @ ind 10 @ quoted ''required'' @ '': true,''
     @ nl @ ind 10 @ quoted ''content'' @ '': {''
     @ nl @ ind 12 @ quoted ''application/json'' @ '': {''
     @ nl @ ind 14 @ quoted ''schema'' @ '': { '' @ quoted ''$ref'' @ '': '' @ quoted ''#/components/schemas/PutRequest'' @ '' },''
     @ nl @ ind 14 @ quoted ''example'' @ '': {''
     @ nl @ ind 16 @ quoted ''key'' @ '': '' @ quoted ''name'' @ '',''
     @ nl @ ind 16 @ quoted ''value'' @ '': '' @ quoted ''alice'' @ '',''
     @ nl @ ind 16 @ quoted ''idempotency_key'' @ '': '' @ quoted ''550e8400-e29b-41d4-a716-446655440000''
     @ nl @ ind 14 @ ''}''
     @ nl @ ind 12 @ ''}''
     @ nl @ ind 10 @ ''}''
     @ nl @ ind 8 @ ''},''
     @ nl @ ind 8 @ quoted ''responses'' @ '': {''
     @ nl @ ind 10 @ quoted ''200'' @ '': { '' @ quoted ''description'' @ '': '' @ quoted ''Write committed to majority of nodes'' @ '' },''
     @ nl @ ind 10 @ quoted ''400'' @ '': { '' @ quoted ''description'' @ '': '' @ quoted ''Missing key or idempotency_key'' @ '' },''
     @ nl @ ind 10 @ quoted ''503'' @ '': { '' @ quoted ''description'' @ '': '' @ quoted ''Server overloaded or no leader elected yet'' @ '' }''
     @ nl @ ind 8 @ ''}''
     @ nl @ ind 6 @ ''}''
     @ nl @ ind 4 @ ''},''"

definition spec_get :: string where
  "spec_get =
     nl @ ind 4 @ quoted ''/get'' @ '': {''
     @ nl @ ind 6 @ quoted ''get'' @ '': {''
     @ nl @ ind 8 @ quoted ''summary'' @ '': '' @ quoted ''Read a value by key'' @ '',''
     @ nl @ ind 8 @ quoted ''description'' @ '': '' @ quoted ''Reads directly from this node's in-memory KV store. All nodes return the same value once replication has caught up.'' @ '',''
     @ nl @ ind 8 @ quoted ''parameters'' @ '': [''
     @ nl @ ind 10 @ ''{''
     @ nl @ ind 12 @ quoted ''name'' @ '': '' @ quoted ''key'' @ '',''
     @ nl @ ind 12 @ quoted ''in'' @ '': '' @ quoted ''query'' @ '',''
     @ nl @ ind 12 @ quoted ''required'' @ '': true,''
     @ nl @ ind 12 @ quoted ''schema'' @ '': { '' @ quoted ''type'' @ '': '' @ quoted ''string'' @ '' },''
     @ nl @ ind 12 @ quoted ''example'' @ '': '' @ quoted ''name''
     @ nl @ ind 10 @ ''}''
     @ nl @ ind 8 @ ''],''
     @ nl @ ind 8 @ quoted ''responses'' @ '': {''
     @ nl @ ind 10 @ quoted ''200'' @ '': {''
     @ nl @ ind 12 @ quoted ''description'' @ '': '' @ quoted ''Key found'' @ '',''
     @ nl @ ind 12 @ quoted ''content'' @ '': {''
     @ nl @ ind 14 @ quoted ''application/json'' @ '': {''
     @ nl @ ind 16 @ quoted ''schema'' @ '': { '' @ quoted ''$ref'' @ '': '' @ quoted ''#/components/schemas/GetResponse'' @ '' },''
     @ nl @ ind 16 @ quoted ''example'' @ '': { '' @ quoted ''key'' @ '': '' @ quoted ''name'' @ '', '' @ quoted ''value'' @ '': '' @ quoted ''alice'' @ '' }''
     @ nl @ ind 14 @ ''}''
     @ nl @ ind 12 @ ''}''
     @ nl @ ind 10 @ ''},''
     @ nl @ ind 10 @ quoted ''404'' @ '': { '' @ quoted ''description'' @ '': '' @ quoted ''Key not found'' @ '' }''
     @ nl @ ind 8 @ ''}''
     @ nl @ ind 6 @ ''}''
     @ nl @ ind 4 @ ''},''"

definition spec_status :: string where
  "spec_status =
     nl @ ind 4 @ quoted ''/status'' @ '': {''
     @ nl @ ind 6 @ quoted ''get'' @ '': {''
     @ nl @ ind 8 @ quoted ''summary'' @ '': '' @ quoted ''Cluster status'' @ '',''
     @ nl @ ind 8 @ quoted ''description'' @ '': '' @ quoted ''Returns this node's role (leader or follower) and the current leader's addresses.'' @ '',''
     @ nl @ ind 8 @ quoted ''responses'' @ '': {''
     @ nl @ ind 10 @ quoted ''200'' @ '': {''
     @ nl @ ind 12 @ quoted ''description'' @ '': '' @ quoted ''Status info'' @ '',''
     @ nl @ ind 12 @ quoted ''content'' @ '': {''
     @ nl @ ind 14 @ quoted ''application/json'' @ '': {''
     @ nl @ ind 16 @ quoted ''schema'' @ '': { '' @ quoted ''$ref'' @ '': '' @ quoted ''#/components/schemas/StatusResponse'' @ '' },''
     @ nl @ ind 16 @ quoted ''example'' @ '': {''
     @ nl @ ind 18 @ quoted ''node_id'' @ '': '' @ quoted ''node1'' @ '',''
     @ nl @ ind 18 @ quoted ''role'' @ '': '' @ quoted ''follower'' @ '',''
     @ nl @ ind 18 @ quoted ''leader_id'' @ '': '' @ quoted ''node2'' @ '',''
     @ nl @ ind 18 @ quoted ''leader_raft'' @ '': '' @ quoted ''127.0.0.1:7002'' @ '',''
     @ nl @ ind 18 @ quoted ''leader_http'' @ '': '' @ quoted ''127.0.0.1:8002''
     @ nl @ ind 16 @ ''}''
     @ nl @ ind 14 @ ''}''
     @ nl @ ind 12 @ ''}''
     @ nl @ ind 10 @ ''}''
     @ nl @ ind 8 @ ''}''
     @ nl @ ind 6 @ ''}''
     @ nl @ ind 4 @ ''},''"

definition spec_health :: string where
  "spec_health =
     nl @ ind 4 @ quoted ''/health'' @ '': {''
     @ nl @ ind 6 @ quoted ''get'' @ '': {''
     @ nl @ ind 8 @ quoted ''summary'' @ '': '' @ quoted ''Liveness check'' @ '',''
     @ nl @ ind 8 @ quoted ''description'' @ '': '' @ quoted ''Always returns 200 as long as the process is running. Use for load balancer health checks.'' @ '',''
     @ nl @ ind 8 @ quoted ''responses'' @ '': {''
     @ nl @ ind 10 @ quoted ''200'' @ '': {''
     @ nl @ ind 12 @ quoted ''description'' @ '': '' @ quoted ''Node is alive'' @ '',''
     @ nl @ ind 12 @ quoted ''content'' @ '': {''
     @ nl @ ind 14 @ quoted ''application/json'' @ '': {''
     @ nl @ ind 16 @ quoted ''schema'' @ '': { '' @ quoted ''$ref'' @ '': '' @ quoted ''#/components/schemas/HealthResponse'' @ '' },''
     @ nl @ ind 16 @ quoted ''example'' @ '': { '' @ quoted ''status'' @ '': '' @ quoted ''ok'' @ '', '' @ quoted ''node_id'' @ '': '' @ quoted ''node1'' @ '', '' @ quoted ''role'' @ '': '' @ quoted ''Leader'' @ '' }''
     @ nl @ ind 14 @ ''}''
     @ nl @ ind 12 @ ''}''
     @ nl @ ind 10 @ ''}''
     @ nl @ ind 8 @ ''}''
     @ nl @ ind 6 @ ''}''
     @ nl @ ind 4 @ ''},''"

definition spec_metrics :: string where
  "spec_metrics =
     nl @ ind 4 @ quoted ''/metrics'' @ '': {''
     @ nl @ ind 6 @ quoted ''get'' @ '': {''
     @ nl @ ind 8 @ quoted ''summary'' @ '': '' @ quoted ''Live metrics'' @ '',''
     @ nl @ ind 8 @ quoted ''description'' @ '': '' @ quoted ''Returns throughput, latency percentiles, error counts and queue depth for this node.'' @ '',''
     @ nl @ ind 8 @ quoted ''responses'' @ '': {''
     @ nl @ ind 10 @ quoted ''200'' @ '': {''
     @ nl @ ind 12 @ quoted ''description'' @ '': '' @ quoted ''Metrics snapshot'' @ '',''
     @ nl @ ind 12 @ quoted ''content'' @ '': {''
     @ nl @ ind 14 @ quoted ''application/json'' @ '': {''
     @ nl @ ind 16 @ quoted ''schema'' @ '': { '' @ quoted ''$ref'' @ '': '' @ quoted ''#/components/schemas/MetricsResponse'' @ '' },''
     @ nl @ ind 16 @ quoted ''example'' @ '': {''
     @ nl @ ind 18 @ quoted ''total_writes'' @ '': 1234,''
     @ nl @ ind 18 @ quoted ''total_duplicates'' @ '': 2,''
     @ nl @ ind 18 @ quoted ''total_errors'' @ '': 0,''
     @ nl @ ind 18 @ quoted ''total_forwards'' @ '': 10,''
     @ nl @ ind 18 @ quoted ''batch_queue_depth'' @ '': 0,''
     @ nl @ ind 18 @ quoted ''dedup_map_size'' @ '': 1234,''
     @ nl @ ind 18 @ quoted ''writes_per_sec'' @ '': 487.3,''
     @ nl @ ind 18 @ quoted ''latency_p50_ms'' @ '': 1.8,''
     @ nl @ ind 18 @ quoted ''latency_p95_ms'' @ '': 4.2,''
     @ nl @ ind 18 @ quoted ''latency_p99_ms'' @ '': 9.1''
     @ nl @ ind 16 @ ''}''
     @ nl @ ind 14 @ ''}''
     @ nl @ ind 12 @ ''}''
     @ nl @ ind 10 @ ''}''
     @ nl @ ind 8 @ ''}''
     @ nl @ ind 6 @ ''}''
     @ nl @ ind 4 @ ''}''"

definition spec_PutRequest :: string where
  "spec_PutRequest =
     nl @ ind 6 @ quoted ''PutRequest'' @ '': {''
     @ nl @ ind 8 @ quoted ''type'' @ '': '' @ quoted ''object'' @ '',''
     @ nl @ ind 8 @ quoted ''required'' @ '': ['' @ quoted ''key'' @ '', '' @ quoted ''value'' @ '', '' @ quoted ''idempotency_key'' @ ''],''
     @ nl @ ind 8 @ quoted ''properties'' @ '': {''
     @ nl @ ind 10 @ quoted ''key'' @ '':             { '' @ quoted ''type'' @ '': '' @ quoted ''string'' @ '', '' @ quoted ''description'' @ '': '' @ quoted ''The key to store'' @ '' },''
     @ nl @ ind 10 @ quoted ''value'' @ '':           { '' @ quoted ''type'' @ '': '' @ quoted ''string'' @ '', '' @ quoted ''description'' @ '': '' @ quoted ''The value to associate with the key'' @ '' },''
     @ nl @ ind 10 @ quoted ''idempotency_key'' @ '': { '' @ quoted ''type'' @ '': '' @ quoted ''string'' @ '', '' @ quoted ''description'' @ '': '' @ quoted ''A unique UUID. Sending the same key twice silently ignores the second write.'' @ '' }''
     @ nl @ ind 8 @ ''}''
     @ nl @ ind 6 @ ''},''"

definition spec_GetResponse :: string where
  "spec_GetResponse =
     nl @ ind 6 @ quoted ''GetResponse'' @ '': {''
     @ nl @ ind 8 @ quoted ''type'' @ '': '' @ quoted ''object'' @ '',''
     @ nl @ ind 8 @ quoted ''properties'' @ '': {''
     @ nl @ ind 10 @ quoted ''key'' @ '':   { '' @ quoted ''type'' @ '': '' @ quoted ''string'' @ '' },''
     @ nl @ ind 10 @ quoted ''value'' @ '': { '' @ quoted ''type'' @ '': '' @ quoted ''string'' @ '' }''
     @ nl @ ind 8 @ ''}''
     @ nl @ ind 6 @ ''},''"

definition spec_StatusResponse :: string where
  "spec_StatusResponse =
     nl @ ind 6 @ quoted ''StatusResponse'' @ '': {''
     @ nl @ ind 8 @ quoted ''type'' @ '': '' @ quoted ''object'' @ '',''
     @ nl @ ind 8 @ quoted ''properties'' @ '': {''
     @ nl @ ind 10 @ quoted ''node_id'' @ '':     { '' @ quoted ''type'' @ '': '' @ quoted ''string'' @ '' },''
     @ nl @ ind 10 @ quoted ''role'' @ '':        { '' @ quoted ''type'' @ '': '' @ quoted ''string'' @ '', '' @ quoted ''enum'' @ '': ['' @ quoted ''leader'' @ '', '' @ quoted ''follower'' @ ''] },''
     @ nl @ ind 10 @ quoted ''leader_id'' @ '':   { '' @ quoted ''type'' @ '': '' @ quoted ''string'' @ '' },''
     @ nl @ ind 10 @ quoted ''leader_raft'' @ '': { '' @ quoted ''type'' @ '': '' @ quoted ''string'' @ '' },''
     @ nl @ ind 10 @ quoted ''leader_http'' @ '': { '' @ quoted ''type'' @ '': '' @ quoted ''string'' @ '' }''
     @ nl @ ind 8 @ ''}''
     @ nl @ ind 6 @ ''},''"

definition spec_HealthResponse :: string where
  "spec_HealthResponse =
     nl @ ind 6 @ quoted ''HealthResponse'' @ '': {''
     @ nl @ ind 8 @ quoted ''type'' @ '': '' @ quoted ''object'' @ '',''
     @ nl @ ind 8 @ quoted ''properties'' @ '': {''
     @ nl @ ind 10 @ quoted ''status'' @ '':  { '' @ quoted ''type'' @ '': '' @ quoted ''string'' @ '' },''
     @ nl @ ind 10 @ quoted ''node_id'' @ '': { '' @ quoted ''type'' @ '': '' @ quoted ''string'' @ '' },''
     @ nl @ ind 10 @ quoted ''role'' @ '':    { '' @ quoted ''type'' @ '': '' @ quoted ''string'' @ '' }''
     @ nl @ ind 8 @ ''}''
     @ nl @ ind 6 @ ''},''"

definition spec_MetricsResponse :: string where
  "spec_MetricsResponse =
     nl @ ind 6 @ quoted ''MetricsResponse'' @ '': {''
     @ nl @ ind 8 @ quoted ''type'' @ '': '' @ quoted ''object'' @ '',''
     @ nl @ ind 8 @ quoted ''properties'' @ '': {''
     @ nl @ ind 10 @ quoted ''total_writes'' @ '':      { '' @ quoted ''type'' @ '': '' @ quoted ''integer'' @ '' },''
     @ nl @ ind 10 @ quoted ''total_duplicates'' @ '':  { '' @ quoted ''type'' @ '': '' @ quoted ''integer'' @ '' },''
     @ nl @ ind 10 @ quoted ''total_errors'' @ '':      { '' @ quoted ''type'' @ '': '' @ quoted ''integer'' @ '' },''
     @ nl @ ind 10 @ quoted ''total_forwards'' @ '':    { '' @ quoted ''type'' @ '': '' @ quoted ''integer'' @ '' },''
     @ nl @ ind 10 @ quoted ''batch_queue_depth'' @ '': { '' @ quoted ''type'' @ '': '' @ quoted ''integer'' @ '' },''
     @ nl @ ind 10 @ quoted ''dedup_map_size'' @ '':    { '' @ quoted ''type'' @ '': '' @ quoted ''integer'' @ '' },''
     @ nl @ ind 10 @ quoted ''writes_per_sec'' @ '':    { '' @ quoted ''type'' @ '': '' @ quoted ''number'' @ '' },''
     @ nl @ ind 10 @ quoted ''latency_p50_ms'' @ '':    { '' @ quoted ''type'' @ '': '' @ quoted ''number'' @ '' },''
     @ nl @ ind 10 @ quoted ''latency_p95_ms'' @ '':    { '' @ quoted ''type'' @ '': '' @ quoted ''number'' @ '' },''
     @ nl @ ind 10 @ quoted ''latency_p99_ms'' @ '':    { '' @ quoted ''type'' @ '': '' @ quoted ''number'' @ '' }''
     @ nl @ ind 8 @ ''}''
     @ nl @ ind 6 @ ''}''"

definition swaggerSpec :: string where
  "swaggerSpec =
     ''{'' @ spec_info @ spec_servers
     @ nl @ ind 2 @ quoted ''paths'' @ '': {''
     @ spec_put @ spec_get @ spec_status @ spec_health @ spec_metrics
     @ nl @ ind 2 @ ''},''
     @ nl @ ind 2 @ quoted ''components'' @ '': {''
     @ nl @ ind 4 @ quoted ''schemas'' @ '': {''
     @ spec_PutRequest @ spec_GetResponse @ spec_StatusResponse @ spec_HealthResponse @ spec_MetricsResponse
     @ nl @ ind 4 @ ''}'' @ nl @ ind 2 @ ''}'' @ nl @ ''}''"

section \<open>The page\<close>

definition swaggerUI :: "string \<Rightarrow> string" where
  "swaggerUI specURL =
     ''<!DOCTYPE html>''
     @ nl @ ''<html>''
     @ nl @ ''<head>''
     @ nl @ ''  <title>raft-kv API</title>''
     @ nl @ ''  <meta charset='' @ quoted ''utf-8'' @ ''/>''
     @ nl @ ''  <meta name='' @ quoted ''viewport'' @ '' content='' @ quoted ''width=device-width, initial-scale=1'' @ ''>''
     @ nl @ ''  <link rel='' @ quoted ''stylesheet'' @ '' type='' @ quoted ''text/css'' @ '' href='' @ quoted ''https://unpkg.com/swagger-ui-dist@5/swagger-ui.css'' @ ''>''
     @ nl @ ''</head>''
     @ nl @ ''<body>''
     @ nl @ ''<div id='' @ quoted ''swagger-ui'' @ ''></div>''
     @ nl @ ''<script src='' @ quoted ''https://unpkg.com/swagger-ui-dist@5/swagger-ui-bundle.js'' @ ''></script>''
     @ nl @ ''<script>''
     @ nl @ ''  SwaggerUIBundle({''
     @ nl @ ''    url: '' @ [quote_char] @ specURL @ [quote_char] @ '',''
     @ nl @ ''    dom_id: '#swagger-ui',''
     @ nl @ ''    presets: [SwaggerUIBundle.presets.apis, SwaggerUIBundle.SwaggerUIStandalonePreset],''
     @ nl @ ''    layout: '' @ quoted ''BaseLayout'' @ '',''
     @ nl @ ''    deepLinking: true''
     @ nl @ ''  })''
     @ nl @ ''</script>''
     @ nl @ ''</body>''
     @ nl @ ''</html>''"

section \<open>What the text says\<close>

definition doc_info :: json where
  "doc_info =
     JObj [
       (''title'', JStr ''raft-kv API''),
       (''description'', JStr (''Distributed key-value store built on the Raft consensus protocol. Any node accepts reads and writes '' @ em_dash @ '' followers auto-forward writes to the current leader.'')),
       (''version'', JStr ''1.0.0'')]"

definition doc_servers :: json where
  "doc_servers =
     JArr [JObj [(''url'', JStr ''http://127.0.0.1:8001''), (''description'', JStr ''node1'')], JObj [(''url'', JStr ''http://127.0.0.1:8002''), (''description'', JStr ''node2'')], JObj [(''url'', JStr ''http://127.0.0.1:8003''), (''description'', JStr ''node3'')]]"

definition doc_put :: json where
  "doc_put =
     JObj [
       (''post'', JObj [
         (''summary'', JStr ''Write a key-value pair''),
         (''description'', JStr ''Submits a PUT command to the Raft log. If this node is a follower it automatically forwards the request to the current leader and waits for majority commit before returning 200.''),
         (''requestBody'', JObj [
           (''required'', JBool True),
           (''content'', JObj [
             (''application/json'', JObj [
               (''schema'', JObj [(''$ref'', JStr ''#/components/schemas/PutRequest'')]),
               (''example'', JObj [
                 (''key'', JStr ''name''),
                 (''value'', JStr ''alice''),
                 (''idempotency_key'', JStr ''550e8400-e29b-41d4-a716-446655440000'')])])])]),
         (''responses'', JObj [
           (''200'', JObj [(''description'', JStr ''Write committed to majority of nodes'')]),
           (''400'', JObj [(''description'', JStr ''Missing key or idempotency_key'')]),
           (''503'', JObj [(''description'', JStr ''Server overloaded or no leader elected yet'')])])])]"

definition doc_get :: json where
  "doc_get =
     JObj [
       (''get'', JObj [
         (''summary'', JStr ''Read a value by key''),
         (''description'', JStr ''Reads directly from this node's in-memory KV store. All nodes return the same value once replication has caught up.''),
         (''parameters'', JArr [JObj [
             (''name'', JStr ''key''),
             (''in'', JStr ''query''),
             (''required'', JBool True),
             (''schema'', JObj [(''type'', JStr ''string'')]),
             (''example'', JStr ''name'')]]),
         (''responses'', JObj [
           (''200'', JObj [
             (''description'', JStr ''Key found''),
             (''content'', JObj [
               (''application/json'', JObj [
                 (''schema'', JObj [(''$ref'', JStr ''#/components/schemas/GetResponse'')]),
                 (''example'', JObj [(''key'', JStr ''name''), (''value'', JStr ''alice'')])])])]),
           (''404'', JObj [(''description'', JStr ''Key not found'')])])])]"

definition doc_status :: json where
  "doc_status =
     JObj [
       (''get'', JObj [
         (''summary'', JStr ''Cluster status''),
         (''description'', JStr ''Returns this node's role (leader or follower) and the current leader's addresses.''),
         (''responses'', JObj [
           (''200'', JObj [
             (''description'', JStr ''Status info''),
             (''content'', JObj [
               (''application/json'', JObj [
                 (''schema'', JObj [(''$ref'', JStr ''#/components/schemas/StatusResponse'')]),
                 (''example'', JObj [
                   (''node_id'', JStr ''node1''),
                   (''role'', JStr ''follower''),
                   (''leader_id'', JStr ''node2''),
                   (''leader_raft'', JStr ''127.0.0.1:7002''),
                   (''leader_http'', JStr ''127.0.0.1:8002'')])])])])])])]"

definition doc_health :: json where
  "doc_health =
     JObj [
       (''get'', JObj [
         (''summary'', JStr ''Liveness check''),
         (''description'', JStr ''Always returns 200 as long as the process is running. Use for load balancer health checks.''),
         (''responses'', JObj [
           (''200'', JObj [
             (''description'', JStr ''Node is alive''),
             (''content'', JObj [
               (''application/json'', JObj [
                 (''schema'', JObj [(''$ref'', JStr ''#/components/schemas/HealthResponse'')]),
                 (''example'', JObj [
                   (''status'', JStr ''ok''),
                   (''node_id'', JStr ''node1''),
                   (''role'', JStr ''Leader'')])])])])])])]"

definition doc_metrics :: json where
  "doc_metrics =
     JObj [
       (''get'', JObj [
         (''summary'', JStr ''Live metrics''),
         (''description'', JStr ''Returns throughput, latency percentiles, error counts and queue depth for this node.''),
         (''responses'', JObj [
           (''200'', JObj [
             (''description'', JStr ''Metrics snapshot''),
             (''content'', JObj [
               (''application/json'', JObj [
                 (''schema'', JObj [(''$ref'', JStr ''#/components/schemas/MetricsResponse'')]),
                 (''example'', JObj [
                   (''total_writes'', JNum ''1234''),
                   (''total_duplicates'', JNum ''2''),
                   (''total_errors'', JNum ''0''),
                   (''total_forwards'', JNum ''10''),
                   (''batch_queue_depth'', JNum ''0''),
                   (''dedup_map_size'', JNum ''1234''),
                   (''writes_per_sec'', JNum ''487.3''),
                   (''latency_p50_ms'', JNum ''1.8''),
                   (''latency_p95_ms'', JNum ''4.2''),
                   (''latency_p99_ms'', JNum ''9.1'')])])])])])])]"

definition doc_PutRequest :: json where
  "doc_PutRequest =
     JObj [
       (''type'', JStr ''object''),
       (''required'', JArr [JStr ''key'', JStr ''value'', JStr ''idempotency_key'']),
       (''properties'', JObj [
         (''key'', JObj [(''type'', JStr ''string''), (''description'', JStr ''The key to store'')]),
         (''value'', JObj [
           (''type'', JStr ''string''),
           (''description'', JStr ''The value to associate with the key'')]),
         (''idempotency_key'', JObj [
           (''type'', JStr ''string''),
           (''description'', JStr ''A unique UUID. Sending the same key twice silently ignores the second write.'')])])]"

definition doc_GetResponse :: json where
  "doc_GetResponse =
     JObj [
       (''type'', JStr ''object''),
       (''properties'', JObj [
         (''key'', JObj [(''type'', JStr ''string'')]),
         (''value'', JObj [(''type'', JStr ''string'')])])]"

definition doc_StatusResponse :: json where
  "doc_StatusResponse =
     JObj [
       (''type'', JStr ''object''),
       (''properties'', JObj [
         (''node_id'', JObj [(''type'', JStr ''string'')]),
         (''role'', JObj [(''type'', JStr ''string''), (''enum'', JArr [JStr ''leader'', JStr ''follower''])]),
         (''leader_id'', JObj [(''type'', JStr ''string'')]),
         (''leader_raft'', JObj [(''type'', JStr ''string'')]),
         (''leader_http'', JObj [(''type'', JStr ''string'')])])]"

definition doc_HealthResponse :: json where
  "doc_HealthResponse =
     JObj [
       (''type'', JStr ''object''),
       (''properties'', JObj [
         (''status'', JObj [(''type'', JStr ''string'')]),
         (''node_id'', JObj [(''type'', JStr ''string'')]),
         (''role'', JObj [(''type'', JStr ''string'')])])]"

definition doc_MetricsResponse :: json where
  "doc_MetricsResponse =
     JObj [
       (''type'', JStr ''object''),
       (''properties'', JObj [
         (''total_writes'', JObj [(''type'', JStr ''integer'')]),
         (''total_duplicates'', JObj [(''type'', JStr ''integer'')]),
         (''total_errors'', JObj [(''type'', JStr ''integer'')]),
         (''total_forwards'', JObj [(''type'', JStr ''integer'')]),
         (''batch_queue_depth'', JObj [(''type'', JStr ''integer'')]),
         (''dedup_map_size'', JObj [(''type'', JStr ''integer'')]),
         (''writes_per_sec'', JObj [(''type'', JStr ''number'')]),
         (''latency_p50_ms'', JObj [(''type'', JStr ''number'')]),
         (''latency_p95_ms'', JObj [(''type'', JStr ''number'')]),
         (''latency_p99_ms'', JObj [(''type'', JStr ''number'')])])]"

definition doc_paths :: "(string \<times> json) list" where
  "doc_paths =
     [(''/put'', doc_put), (''/get'', doc_get), (''/status'', doc_status), (''/health'', doc_health),
      (''/metrics'', doc_metrics)]"

definition doc_schemas :: "(string \<times> json) list" where
  "doc_schemas =
     [(''PutRequest'', doc_PutRequest), (''GetResponse'', doc_GetResponse), (''StatusResponse'', doc_StatusResponse),
      (''HealthResponse'', doc_HealthResponse), (''MetricsResponse'', doc_MetricsResponse)]"

definition swagger_doc :: json where
  "swagger_doc =
     JObj [(''openapi'', JStr ''3.0.0''), (''info'', doc_info), (''servers'', doc_servers),
       (''paths'', JObj doc_paths), (''components'', JObj [(''schemas'', JObj doc_schemas)])]"

section \<open>Reading it\<close>

text \<open>Strings without quotes, backslashes and control characters are read as they stand.\<close>

definition plain :: "string \<Rightarrow> bool" where
  "plain s \<longleftrightarrow> valid_utf8 s \<and> list_all (\<lambda>c. \<not> byte c < 0x20 \<and> c \<noteq> quote_char \<and> c \<noteq> backslash) s"

lemma str_item_seq:
  "c \<noteq> backslash \<Longrightarrow> \<not> byte c < 0x20 \<Longrightarrow> utf8_len (c # u) \<noteq> 0 \<Longrightarrow>
     str_item (c # u) = Some (take (utf8_len (c # u)) (c # u), drop (utf8_len (c # u)) (c # u))"
  by (simp add: str_item_def)

lemma str_body_plain: "plain s \<Longrightarrow> str_body (s @ quote_char # t) = Some (s, t)"
proof (induction s rule: valid_utf8.induct)
  case (1 s)
  show ?case
  proof (cases "s = []")
    case True
    then show ?thesis by (simp add: str_body_close)
  next
    case ne: False
    have v: "utf8_len s \<noteq> 0" "valid_utf8 (drop (utf8_len s) s)"
      using "1.prems" ne by (auto simp: plain_def valid_utf8.simps [of s] split: if_splits)
    obtain c r where s: "s = c # r" using ne by (cases s) simp_all
    have c: "\<not> byte c < 0x20" "c \<noteq> quote_char" "c \<noteq> backslash"
      using "1.prems" by (simp_all add: plain_def s)
    have "plain (drop (utf8_len s) s)"
      using "1.prems" v(2) unfolding plain_def by (auto simp: list_all_iff dest: in_set_dropD)
    then have rest: "str_body (drop (utf8_len s) s @ quote_char # t) = Some (drop (utf8_len s) s, t)"
      using "1.IH" ne v(1) by simp
    have "utf8_len (take (utf8_len s) s @ drop (utf8_len s) s @ quote_char # t) = utf8_len s"
      using utf8_len_take v(1) by blast
    then have len: "utf8_len (s @ quote_char # t) = utf8_len s"
      by (simp only: append_assoc [symmetric] append_take_drop_id)
    have "str_item (s @ quote_char # t)
        = Some (take (utf8_len s) (s @ quote_char # t), drop (utf8_len s) (s @ quote_char # t))"
      using str_item_seq [of c "r @ quote_char # t"] c v(1) len by (simp add: s)
    then have "str_item (s @ quote_char # t) = Some (take (utf8_len s) s, drop (utf8_len s) s @ quote_char # t)"
      using utf8_len_le [of s] by simp
    from str_body_item [OF this _ rest] show ?thesis
      using c(2) by (simp add: s)
  qed
qed

lemma lex_quoted: "plain s \<Longrightarrow> lex (quoted s @ r) = Some (TStr s, r)"
  by (simp add: lex_def is_space_def lex_token_def quoted_def str_body_plain)

lemma lex_skip: "is_space c \<Longrightarrow> lex (c # s) = lex s"
  by (simp add: lex_def)

lemma lex_skips: "list_all is_space w \<Longrightarrow> lex (w @ s) = lex s"
  by (induction w) (simp_all add: lex_skip)

lemma read_skips: "list_all is_space w \<Longrightarrow> read_value m stk (w @ s) = read_value m stk s"
  by (subst (1 2) read_value.simps) (simp add: lex_skips)

lemma read_white:
  "read_value m stk (nl @ s) = read_value m stk s" "read_value m stk (ind n @ s) = read_value m stk s"
  "read_value m stk (CHR 0x20 # s) = read_value m stk s"
  using read_skips [of nl m stk s] read_skips [of "ind n" m stk s] read_skips [of "[CHR 0x20]" m stk s]
  by (simp_all add: nl_def ind_def is_space_def list_all_iff)

text \<open>One rule for each mode and token.\<close>

lemma read_open:
  "length stk < maxNestingDepth \<Longrightarrow> read_value MValue stk (CHR 0x7B # s) = read_value MFirstKey (FObj [] [] # stk) s"
  "length stk < maxNestingDepth \<Longrightarrow> read_value MValue stk (CHR 0x5B # s) = read_value MFirstElem (FArr [] # stk) s"
  "length stk < maxNestingDepth \<Longrightarrow> read_value MFirstElem (FArr [] # stk) (CHR 0x7B # s)
     = (if Suc (length stk) < maxNestingDepth then read_value MFirstKey (FObj [] [] # FArr [] # stk) s else None)"
  by (subst read_value.simps, simp add: lex_def is_space_def lex_token_def push_def)+

lemma read_quoted:
  "plain x \<Longrightarrow> read_value MFirstKey (FObj ms k # stk) (quoted x @ s) = read_value MColon (FObj ms x # stk) s"
  "plain x \<Longrightarrow> read_value MKey (FObj ms k # stk) (quoted x @ s) = read_value MColon (FObj ms x # stk) s"
  "plain x \<Longrightarrow> read_value MValue (FObj ms k # stk) (quoted x @ s) = read_value MAfter (FObj ((k, JStr x) # ms) [] # stk) s"
  "plain x \<Longrightarrow> read_value MValue (FArr vs # stk) (quoted x @ s) = read_value MAfter (FArr (JStr x # vs) # stk) s"
  "plain x \<Longrightarrow> read_value MFirstElem (FArr [] # stk) (quoted x @ s) = read_value MAfter (FArr [JStr x] # stk) s"
  by (subst read_value.simps, simp add: lex_quoted)+

lemma read_punct:
  "read_value MColon stk (CHR '':'' # s) = read_value MValue stk s"
  "read_value MAfter (FObj ms k # stk) (CHR '','' # s) = read_value MKey (FObj ms k # stk) s"
  "read_value MAfter (FArr vs # stk) (CHR '','' # s) = read_value MValue (FArr vs # stk) s"
  "read_value MAfter (FObj ms k # FObj ms' k' # stk) (CHR 0x7D # s)
     = read_value MAfter (FObj ((k', JObj (rev ms)) # ms') [] # stk) s"
  "read_value MAfter (FObj ms k # FArr vs # stk) (CHR 0x7D # s) = read_value MAfter (FArr (JObj (rev ms) # vs) # stk) s"
  "read_value MAfter (FArr vs # FObj ms k # stk) (CHR 0x5D # s)
     = read_value MAfter (FObj ((k, JArr (rev vs)) # ms) [] # stk) s"
  "read_value MAfter [FObj ms k] (CHR 0x7D # s) = Some (JObj (rev ms), s)"
  by (subst read_value.simps, simp add: lex_def is_space_def lex_token_def)+

lemma read_true:
  "read_value MValue (FObj ms k # stk) (CHR ''t'' # CHR ''r'' # CHR ''u'' # CHR ''e'' # s)
     = read_value MAfter (FObj ((k, JBool True) # ms) [] # stk) s"
  by (subst read_value.simps) (simp add: lex_def is_space_def lex_token_def lex_word_def)

lemma read_number:
  "digit c \<Longrightarrow> read_value MValue (FObj ms k # stk) (c # s) =
     (case lex_number (c # s) of
        None \<Rightarrow> None
      | Some (x, r) \<Rightarrow> read_value MAfter (FObj ((k, JNum x) # ms) [] # stk) r)"
proof -
  assume d: "digit c"
  then have "c \<noteq> CHR 0x7B" "c \<noteq> CHR 0x7D" "c \<noteq> CHR 0x5B" "c \<noteq> CHR 0x5D" "c \<noteq> CHR '',''" "c \<noteq> CHR '':''"
      "c \<noteq> quote_char" "c \<noteq> CHR ''t''" "c \<noteq> CHR ''f''" "c \<noteq> CHR ''n''" "\<not> is_space c"
    by (auto simp: digit_def is_space_def)
  then have "lex (c # s) = map_option (\<lambda>(x, t). (TNum x, t)) (lex_number (c # s))"
    by (simp add: lex_def lex_token_def)
  then show ?thesis
    by (subst read_value.simps) (simp split: option.split)
qed

lemma number_end:
  "takeWhile digit (nl @ s) = []" "dropWhile digit (nl @ s) = nl @ s" "hd (nl @ s) = CHR 0x0A" "nl \<noteq> []"
  by (simp_all add: nl_def digit_def)

lemmas read_rules = number_end read_white read_open read_quoted read_punct read_true read_number
  lex_number_def num_int_def num_frac_def num_exp_def digit_def maxNestingDepth_def

lemma plain_ascii: "list_all (\<lambda>c. byte c < 0x80 \<and> \<not> byte c < 0x20 \<and> c \<noteq> quote_char \<and> c \<noteq> backslash) s \<Longrightarrow> plain s"
  by (induction s) (simp_all add: plain_def)

lemma plain_Cons:
  "plain []" "byte c < 0x80 \<Longrightarrow> \<not> byte c < 0x20 \<Longrightarrow> c \<noteq> quote_char \<Longrightarrow> c \<noteq> backslash \<Longrightarrow> plain (c # s) = plain s"
  by (simp_all add: plain_def)

lemma plain_append: "plain a \<Longrightarrow> plain b \<Longrightarrow> plain (a @ b)"
  by (simp add: plain_def valid_utf8_append)

lemma plain_dash: "plain em_dash"
proof -
  have "utf8_len em_dash = 3"
    by (simp add: utf8_len_defs em_dash_def second_ok_def cont_def)
  then show ?thesis
    using valid_utf8_seq [of em_dash "[]"] by (simp add: plain_def em_dash_def)
qed

text \<open>One lemma for each part of the text.\<close>

lemma read_info:
  "read_value MFirstKey [FObj [] []] (spec_info @ s)
     = read_value MKey [FObj [(''info'', doc_info), (''openapi'', JStr ''3.0.0'')] []] s"
  unfolding spec_info_def doc_info_def by (simp add: read_rules plain_Cons plain_append plain_dash)

lemma read_servers:
  "length stk < 9000 \<Longrightarrow> read_value MKey (FObj ms k # stk) (spec_servers @ s)
     = read_value MKey (FObj ((''servers'', doc_servers) # ms) [] # stk) s"
  unfolding spec_servers_def doc_servers_def by (simp add: read_rules plain_ascii plain_append plain_dash)

lemma read_put:
  "length stk < 9000 \<Longrightarrow> read_value MFirstKey (FObj ms k # stk) (spec_put @ s)
     = read_value MKey (FObj ((''/put'', doc_put) # ms) [] # stk) s"
  unfolding spec_put_def doc_put_def by (simp add: read_rules plain_ascii plain_append plain_dash)

lemma read_get:
  "length stk < 9000 \<Longrightarrow> read_value MKey (FObj ms k # stk) (spec_get @ s)
     = read_value MKey (FObj ((''/get'', doc_get) # ms) [] # stk) s"
  unfolding spec_get_def doc_get_def by (simp add: read_rules plain_ascii plain_append plain_dash)

lemma read_status:
  "length stk < 9000 \<Longrightarrow> read_value MKey (FObj ms k # stk) (spec_status @ s)
     = read_value MKey (FObj ((''/status'', doc_status) # ms) [] # stk) s"
  unfolding spec_status_def doc_status_def by (simp add: read_rules plain_ascii plain_append plain_dash)

lemma read_health:
  "length stk < 9000 \<Longrightarrow> read_value MKey (FObj ms k # stk) (spec_health @ s)
     = read_value MKey (FObj ((''/health'', doc_health) # ms) [] # stk) s"
  unfolding spec_health_def doc_health_def by (simp add: read_rules plain_ascii plain_append plain_dash)

lemma read_metrics:
  "length stk < 9000 \<Longrightarrow> read_value MKey (FObj ms k # stk) (spec_metrics @ s)
     = read_value MAfter (FObj ((''/metrics'', doc_metrics) # ms) [] # stk) s"
  unfolding spec_metrics_def doc_metrics_def by (simp add: read_rules plain_ascii plain_append plain_dash)

lemma read_PutRequest:
  "length stk < 9000 \<Longrightarrow> read_value MFirstKey (FObj ms k # stk) (spec_PutRequest @ s)
     = read_value MKey (FObj ((''PutRequest'', doc_PutRequest) # ms) [] # stk) s"
  unfolding spec_PutRequest_def doc_PutRequest_def by (simp add: read_rules plain_ascii plain_append plain_dash)

lemma read_GetResponse:
  "length stk < 9000 \<Longrightarrow> read_value MKey (FObj ms k # stk) (spec_GetResponse @ s)
     = read_value MKey (FObj ((''GetResponse'', doc_GetResponse) # ms) [] # stk) s"
  unfolding spec_GetResponse_def doc_GetResponse_def by (simp add: read_rules plain_ascii plain_append plain_dash)

lemma read_StatusResponse:
  "length stk < 9000 \<Longrightarrow> read_value MKey (FObj ms k # stk) (spec_StatusResponse @ s)
     = read_value MKey (FObj ((''StatusResponse'', doc_StatusResponse) # ms) [] # stk) s"
  unfolding spec_StatusResponse_def doc_StatusResponse_def by (simp add: read_rules plain_ascii plain_append plain_dash)

lemma read_HealthResponse:
  "length stk < 9000 \<Longrightarrow> read_value MKey (FObj ms k # stk) (spec_HealthResponse @ s)
     = read_value MKey (FObj ((''HealthResponse'', doc_HealthResponse) # ms) [] # stk) s"
  unfolding spec_HealthResponse_def doc_HealthResponse_def by (simp add: read_rules plain_ascii plain_append plain_dash)

lemma read_MetricsResponse:
  "length stk < 9000 \<Longrightarrow> read_value MKey (FObj ms k # stk) (spec_MetricsResponse @ s)
     = read_value MAfter (FObj ((''MetricsResponse'', doc_MetricsResponse) # ms) [] # stk) s"
  unfolding spec_MetricsResponse_def doc_MetricsResponse_def by (simp add: read_rules plain_ascii plain_append plain_dash)

lemmas read_parts =
  read_info read_servers read_put read_get read_status read_health read_metrics
  read_PutRequest read_GetResponse read_StatusResponse read_HealthResponse read_MetricsResponse

lemma swaggerSpec_parses: "unmarshal_value swaggerSpec = Some swagger_doc"
proof -
  have "read_value MValue [] (swaggerSpec @ []) = Some (swagger_doc, [])"
    unfolding swaggerSpec_def swagger_doc_def doc_paths_def doc_schemas_def
    by (simp add: read_parts read_rules plain_ascii)
  then show ?thesis
    by (simp add: unmarshal_value_def)
qed

end
