(* ===== verification/Router.thy ===== *)
theory Router
  imports Prelude Cluster Server Swagger Codec
begin

text \<open>
  The routes of a node: \<^verbatim>\<open>New\<close> of \<^verbatim>\<open>server/http.go\<close> and \<^verbatim>\<open>registerSwagger\<close> of \<^verbatim>\<open>server/swagger.go\<close> on
  a model of \<^verbatim>\<open>http.ServeMux\<close>, the handlers of the Swagger pages, and \<open>serve\<close>, the whole server as one
  function of a request.

  Paths are made of the characters that a URL carries without percent escapes. The query of a
  redirected request, which the redirect to a clean path repeats, is left out of its location.
\<close>

section \<open>ServeMux\<close>

text \<open>
  A pattern without method and host: a path that is matched exactly or, when it ends in a slash, as
  the prefix of a subtree. \<^verbatim>\<open>HandleFunc\<close> panics (\<open>None\<close>) on a pattern it has already.
\<close>

datatype handler =
    HPut | HGet | HStatus | HHealth | HMetrics | HSwaggerSpec | HSwaggerUI | HSwaggerRedirect

type_synonym mux = "(string \<times> handler) list"

definition HandleFunc :: "string \<Rightarrow> handler \<Rightarrow> mux \<Rightarrow> mux option" where
  "HandleFunc pat h m = (if pat \<in> fst ` set m then None else Some (m @ [(pat, h)]))"

definition ends_slash :: "string \<Rightarrow> bool" where
  "ends_slash p \<longleftrightarrow> p \<noteq> [] \<and> last p = CHR ''/''"

definition is_prefix :: "string \<Rightarrow> string \<Rightarrow> bool" where
  "is_prefix p s \<longleftrightarrow> take (length p) s = p"

text \<open>An exact match is preferred, then the longest subtree.\<close>

fun longer :: "(string \<times> handler) option \<Rightarrow> string \<times> handler \<Rightarrow> (string \<times> handler) option" where
  "longer None e = Some e"
| "longer (Some b) e = Some (if length (fst b) < length (fst e) then e else b)"

definition subtree :: "mux \<Rightarrow> string \<Rightarrow> (string \<times> handler) option" where
  "subtree m path = fold (\<lambda>e b. longer b e) (filter (\<lambda>e. ends_slash (fst e) \<and> is_prefix (fst e) path) m) None"

definition mux_match :: "mux \<Rightarrow> string \<Rightarrow> handler option" where
  "mux_match m path =
     (case map_of m path of
        Some h \<Rightarrow> Some h
      | None \<Rightarrow> map_option snd (subtree m path))"

text \<open>\<^verbatim>\<open>cleanPath\<close>: a rooted path without dots and doubled slashes, a final slash kept.\<close>

definition cleanPath :: "string \<Rightarrow> string" where
  "cleanPath p =
     (if p = [] then ''/''
      else
        let p1 = (if hd p \<noteq> CHR ''/'' then CHR ''/'' # p else p);
            np = path_Clean p1
        in if last p1 = CHR ''/'' \<and> np \<noteq> ''/'' then np @ ''/'' else np)"

datatype target = Serve handler | Redirect string | NoRoute

text \<open>
  \<^verbatim>\<open>findHandler\<close>: a path that is only registered with a final slash, or that is not clean, is
  redirected; \<^verbatim>\<open>CONNECT\<close> requests are not cleaned.
\<close>

definition findHandler :: "mux \<Rightarrow> string \<Rightarrow> string \<Rightarrow> target" where
  "findHandler m meth path =
     (let p = (if meth = ''CONNECT'' then path else cleanPath path)
      in if map_of m p = None \<and> \<not> ends_slash p \<and> map_of m (p @ ''/'') \<noteq> None then Redirect (p @ ''/'')
         else if p \<noteq> path then Redirect p
         else case mux_match m p of
                Some h \<Rightarrow> Serve h
              | None \<Rightarrow> NoRoute)"

section \<open>Registration\<close>

text \<open>\<^verbatim>\<open>registerSwagger\<close>, and \<^verbatim>\<open>New\<close>, which gives the server and the routes, or panics.\<close>

definition registerSwagger :: "mux \<Rightarrow> mux option" where
  "registerSwagger m =
     Option.bind (HandleFunc ''/swagger/spec'' HSwaggerSpec m) (\<lambda>m.
     Option.bind (HandleFunc ''/swagger/'' HSwaggerUI m) (\<lambda>m.
     HandleFunc ''/swagger'' HSwaggerRedirect m))"

definition server_New ::
    "mux \<Rightarrow> RaftNode \<Rightarrow> KV \<Rightarrow> Peer list \<Rightarrow> (string \<rightharpoonup> string) \<Rightarrow> (Server \<times> mux) option" where
  "server_New m node kv peers httpAddrs =
     (let s = \<lparr>sv_node = node, sv_kv = kv, sv_peers = peers, sv_httpAddrs = httpAddrs\<rparr>
      in Option.bind (HandleFunc ''/put'' HPut m) (\<lambda>m.
         Option.bind (HandleFunc ''/get'' HGet m) (\<lambda>m.
         Option.bind (HandleFunc ''/status'' HStatus m) (\<lambda>m.
         Option.bind (HandleFunc ''/health'' HHealth m) (\<lambda>m.
         Option.bind (HandleFunc ''/metrics'' HMetrics m) (\<lambda>m.
         Option.bind (registerSwagger m) (\<lambda>m. Some (s, m))))))))"

definition routes :: mux where
  "routes =
     [(''/put'', HPut), (''/get'', HGet), (''/status'', HStatus), (''/health'', HHealth), (''/metrics'', HMetrics),
      (''/swagger/spec'', HSwaggerSpec), (''/swagger/'', HSwaggerUI), (''/swagger'', HSwaggerRedirect)]"

lemma server_New_routes:
  "server_New [] node kv peers httpAddrs =
     Some (\<lparr>sv_node = node, sv_kv = kv, sv_peers = peers, sv_httpAddrs = httpAddrs\<rparr>, routes)"
  by (simp add: server_New_def registerSwagger_def HandleFunc_def routes_def)

lemma routes_distinct: "distinct (map fst routes)"
  by (simp add: routes_def)

section \<open>The Swagger handlers\<close>

record web =
  web_Status :: nat
  web_Headers :: "(string \<times> string) list"
  web_Body :: string

record http_req = Request +
  rq_Path :: string
  rq_Host :: string

definition swagger_spec_handler :: web where
  "swagger_spec_handler =
     \<lparr>web_Status = 200,
      web_Headers = [(''Content-Type'', ''application/json''), (''Access-Control-Allow-Origin'', ''*'')],
      web_Body = swaggerSpec\<rparr>"

definition uiHandler :: "'a http_req_scheme \<Rightarrow> web" where
  "uiHandler rq =
     (let host = (if rq_Host rq = [] then ''127.0.0.1:8001'' else rq_Host rq);
          specURL = ''http://'' @ host @ ''/swagger/spec''
      in \<lparr>web_Status = 200, web_Headers = [(''Content-Type'', ''text/html; charset=utf-8'')],
          web_Body = swaggerUI specURL\<rparr>)"

definition html_escape :: "string \<Rightarrow> string" where
  "html_escape s = concat (map (\<lambda>c.
     if c = CHR ''&'' then ''&amp;'' else if c = CHR ''<'' then ''&lt;'' else if c = CHR ''>'' then ''&gt;''
     else if c = quote_char then ''&#34;'' else if c = CHR 0x27 then ''&#39;'' else [c]) s)"

text \<open>\<^verbatim>\<open>http.Redirect\<close> to a rooted path, with status 301.\<close>

definition moved :: "string \<Rightarrow> string \<Rightarrow> web" where
  "moved meth url =
     \<lparr>web_Status = 301,
      web_Headers = (''Location'', url) #
        (if meth = ''GET'' \<or> meth = ''HEAD'' then [(''Content-Type'', ''text/html; charset=utf-8'')] else []),
      web_Body = (if meth = ''GET'' then
        ''<a href='' @ [quote_char] @ html_escape url @ [quote_char] @ ''>Moved Permanently</a>.'' @ nl @ nl else [])\<rparr>"

definition swagger_handler :: "'a http_req_scheme \<Rightarrow> web" where
  "swagger_handler rq = (if \<not> ends_slash (rq_Path rq) then moved (rq_Method rq) ''/swagger/'' else uiHandler rq)"

section \<open>The whole server\<close>

definition web_of :: "Response \<Rightarrow> web" where
  "web_of rs = \<lparr>web_Status = rs_Status rs, web_Headers = [(''Content-Type'', rs_ContentType rs)], web_Body = rs_Body rs\<rparr>"

text \<open>
  What a request meets besides the surroundings of a PUT: the answers of raft to the handlers of
  status and health, and the clock. The encoders are those of the handlers.
\<close>

record view =
  vw_leader1 :: leader_id
  vw_leader2 :: leader_id
  vw_state :: string
  vw_now :: instant

definition serve ::
    "codec \<Rightarrow> enc_map \<Rightarrow> (Snapshot \<Rightarrow> string) \<Rightarrow> surroundings \<Rightarrow> view \<Rightarrow> Server \<times> mux \<Rightarrow> http_req \<Rightarrow> effects
       \<Rightarrow> (web \<times> effects) option" where
  "serve cd enc encs sr vw sm rq fx =
     (let s = fst sm; r = Request.truncate rq
      in case findHandler (snd sm) (rq_Method rq) (rq_Path rq) of
           NoRoute \<Rightarrow> Some (web_of (http_Error ''404 page not found'' 404), fx)
         | Redirect url \<Rightarrow> Some (moved (rq_Method rq) url, fx)
         | Serve h \<Rightarrow>
             (case h of
                HPut \<Rightarrow> map_option (\<lambda>(rs, fx'). (web_of rs, fx')) (handlePut cd sr s r fx)
              | HGet \<Rightarrow> Some (web_of (handleGet enc s r), fx)
              | HStatus \<Rightarrow> Some (web_of (handleStatus enc (vw_leader1 vw) (vw_leader2 vw) s), fx)
              | HHealth \<Rightarrow> Some (web_of (handleHealth enc (vw_state vw) s), fx)
              | HMetrics \<Rightarrow>
                  map_option (\<lambda>(rs, m). (web_of rs, fx\<lparr>fx_mets := m\<rparr>)) (handleMetrics encs (vw_now vw) (fx_mets fx))
              | HSwaggerSpec \<Rightarrow> Some (swagger_spec_handler, fx)
              | HSwaggerUI \<Rightarrow> Some (uiHandler rq, fx)
              | HSwaggerRedirect \<Rightarrow> Some (swagger_handler rq, fx)))"

section \<open>Where a path leads\<close>

lemma subtree_routes: "subtree routes p = (if is_prefix ''/swagger/'' p then Some (''/swagger/'', HSwaggerUI) else None)"
  by (simp add: subtree_def routes_def ends_slash_def)

lemma match_routes:
  "mux_match routes p =
     (case map_of routes p of
        Some h \<Rightarrow> Some h
      | None \<Rightarrow> if is_prefix ''/swagger/'' p then Some HSwaggerUI else None)"
  by (simp add: mux_match_def subtree_routes split: option.split)

text \<open>No route is only registered with a final slash.\<close>

lemma no_slash_redirect: "map_of routes (p @ ''/'') \<noteq> None \<Longrightarrow> map_of routes p \<noteq> None"
  by (auto simp: routes_def split: if_split_asm)

lemma find_clean:
  assumes "cleanPath p = p"
  shows "findHandler routes meth p =
    (case map_of routes p of
       Some h \<Rightarrow> Serve h
     | None \<Rightarrow> if is_prefix ''/swagger/'' p then Serve HSwaggerUI else NoRoute)"
  using no_slash_redirect [of p] assms
  by (auto simp: findHandler_def match_routes Let_def split: option.split)

lemma clean_routes: "p \<in> fst ` set routes \<Longrightarrow> cleanPath p = p"
  by (auto simp: routes_def cleanPath_def path_Clean_def Let_def)

lemma find_route: "(p, h) \<in> set routes \<Longrightarrow> findHandler routes meth p = Serve h"
  using find_clean [of p meth] clean_routes [of p] routes_distinct
  by (force simp: map_of_is_SomeI)

lemma find_unclean:
  assumes "cleanPath p \<noteq> p" and "meth \<noteq> ''CONNECT''"
  shows "findHandler routes meth p = Redirect (cleanPath p)"
  using no_slash_redirect [of "cleanPath p"] assms by (auto simp: findHandler_def Let_def)

lemma find_connect:
  "findHandler routes ''CONNECT'' p =
    (case map_of routes p of
       Some h \<Rightarrow> Serve h
     | None \<Rightarrow> if is_prefix ''/swagger/'' p then Serve HSwaggerUI else NoRoute)"
  using no_slash_redirect [of p] by (auto simp: findHandler_def match_routes Let_def split: option.split)

lemma find_routes:
  "findHandler routes meth p =
    (if cleanPath p \<noteq> p \<and> meth \<noteq> ''CONNECT'' then Redirect (cleanPath p)
     else case map_of routes p of
            Some h \<Rightarrow> Serve h
          | None \<Rightarrow> if is_prefix ''/swagger/'' p then Serve HSwaggerUI else NoRoute)"
proof (cases "cleanPath p \<noteq> p \<and> meth \<noteq> ''CONNECT''")
  case True
  then show ?thesis using find_unclean [of p meth] by simp
next
  case False
  then have "meth = ''CONNECT'' \<or> cleanPath p = p" by blast
  then show ?thesis
    using find_clean [of p meth] find_connect [of p] False by metis
qed

section \<open>The document and the code\<close>

fun member :: "string \<Rightarrow> json \<Rightarrow> json option" where
  "member k (JObj ms) = map_of ms k"
| "member k _ = None"

fun keys :: "json \<Rightarrow> string list" where
  "keys (JObj ms) = map fst ms"
| "keys _ = []"

text \<open>The operations of a path with their methods, and the statuses they list.\<close>

definition operations :: "string \<Rightarrow> (string \<times> json) list" where
  "operations p = (case map_of doc_paths p of Some (JObj ops) \<Rightarrow> ops | _ \<Rightarrow> [])"

definition documented :: "string \<Rightarrow> string list" where
  "documented p = concat (map (\<lambda>(m, op). case member ''responses'' op of Some r \<Rightarrow> keys r | None \<Rightarrow> []) (operations p))"

lemmas doc_defs = doc_paths_def doc_put_def doc_get_def doc_status_def doc_health_def doc_metrics_def
lemma documented_values:
  "documented ''/put'' = [''200'', ''400'', ''503'']" "documented ''/get'' = [''200'', ''404'']"
  "documented ''/status'' = [''200'']" "documented ''/health'' = [''200'']" "documented ''/metrics'' = [''200'']"
  by (simp_all add: documented_def operations_def doc_defs)

lemma documented_methods:
  "map (fold_name \<circ> fst) (operations ''/put'') = [''POST'']" "map (fold_name \<circ> fst) (operations ''/get'') = [''GET'']"
  by (simp_all add: operations_def doc_defs fold_char_def char_of_eq_iff take_bit_eq_mod)

lemma handlePut_status:
  assumes "handlePut cd sr s rq fx = Some (rs, fx')"
  shows "rs_Status rs \<in> {200, 400, 405, 500, 502, 503}"
  using assms
proof (cases rule: handlePut_cases)
  case (body fx1 t)
  from body(3) show ?thesis
  proof (cases rule: put_body_cases)
    case (follower req)
    then show ?thesis using forwardWithRetry_forwarded(2) [OF follower(3)] by auto
  next
    case (lost req data)
    then show ?thesis using forwardWithRetry_forwarded(2) [OF lost(5)] by auto
  qed (auto simp: ok_empty_def)
qed auto

lemma handleGet_status: "rs_Status (handleGet enc s r) \<in> {200, 400, 404, 405}"
  by (simp add: handleGet_def http_Error_def ok_json_def split: prod.split)

lemma handleMetrics_status: "handleMetrics encs now m = Some (rs, m') \<Longrightarrow> rs_Status rs = 200"
  by (auto simp: handleMetrics_def ok_json_def split: option.split_asm prod.split_asm)

lemma doc_paths_routes: "set (map fst doc_paths) = {p \<in> fst ` set routes. \<not> is_prefix ''/swagger'' p}"
proof -
  have "map fst doc_paths = filter (\<lambda>p. \<not> is_prefix ''/swagger'' p) (map fst routes)"
    by (simp add: doc_paths_def routes_def is_prefix_def)
  then show ?thesis by simp
qed

lemma web_of_status [simp]: "web_Status (web_of rs) = rs_Status rs"
  by (simp add: web_of_def)

section \<open>Properties\<close>

text \<open>
  C31: Routing. A new server registers its eight routes, and a second one on the same mux panics. A
  clean path leads to the handler registered for it, any other path below \<^verbatim>\<open>/swagger/\<close> to the page,
  and everything else to none, whatever the method; a path that is not clean is redirected to its
  clean form; and the handler of \<^verbatim>\<open>/swagger\<close> always redirects.
\<close>

theorem routing:
  "server_New [] node kv peers addrs =
     Some (\<lparr>sv_node = node, sv_kv = kv, sv_peers = peers, sv_httpAddrs = addrs\<rparr>, routes)
   \<and> server_New routes node kv peers addrs = None
   \<and> findHandler routes meth p =
       (if cleanPath p \<noteq> p \<and> meth \<noteq> ''CONNECT'' then Redirect (cleanPath p)
        else case map_of routes p of
               Some h \<Rightarrow> Serve h
             | None \<Rightarrow> if is_prefix ''/swagger/'' p then Serve HSwaggerUI else NoRoute)
   \<and> (findHandler routes meth (rq_Path rq) = Serve HSwaggerRedirect \<longrightarrow>
       swagger_handler rq = moved (rq_Method rq) ''/swagger/'')"
proof (intro conjI impI)
  show "findHandler routes meth p =
      (if cleanPath p \<noteq> p \<and> meth \<noteq> ''CONNECT'' then Redirect (cleanPath p)
       else case map_of routes p of
              Some h \<Rightarrow> Serve h
            | None \<Rightarrow> if is_prefix ''/swagger/'' p then Serve HSwaggerUI else NoRoute)"
    by (rule find_routes)
  assume "findHandler routes meth (rq_Path rq) = Serve HSwaggerRedirect"
  then have "map_of routes (rq_Path rq) = Some HSwaggerRedirect"
    by (auto simp: findHandler_def match_routes Let_def split: if_split_asm option.split_asm)
  then have "rq_Path rq = ''/swagger''"
    by (auto simp: routes_def split: if_split_asm)
  then show "swagger_handler rq = moved (rq_Method rq) ''/swagger/''"
    by (simp add: swagger_handler_def ends_slash_def)
qed (simp_all add: server_New_routes, simp add: server_New_def HandleFunc_def routes_def)

theorem routing_witness:
  "findHandler routes ''GET'' ''/a/..//swagger/x'' = Redirect ''/swagger/x''
   \<and> findHandler routes ''GET'' ''/swagger/x'' = Serve HSwaggerUI \<and> findHandler routes ''PUT'' ''/puts'' = NoRoute
   \<and> swagger_handler \<lparr>rq_Method = ''GET'', rq_QueryKey = [], rq_Body = [], rq_Path = ''/swagger'', rq_Host = []\<rparr>
       = moved ''GET'' ''/swagger/''"
proof -
  let ?rq = "\<lparr>rq_Method = ''GET'', rq_QueryKey = [], rq_Body = [], rq_Path = ''/swagger'', rq_Host = []\<rparr> :: http_req"
  have c: "cleanPath ''/a/..//swagger/x'' = ''/swagger/x''" "cleanPath ''/swagger/x'' = ''/swagger/x''" "cleanPath ''/puts'' = ''/puts''"
      "cleanPath ''/swagger'' = ''/swagger''"
    by (simp_all add: cleanPath_def path_Clean_def Let_def)
  note r = routing [of "sv_node (ex_server ''node1'')" NewKV "[]" Map.empty]
  show ?thesis
    using r [of "''GET''" "''/a/..//swagger/x''" ?rq] r [of "''GET''" "''/swagger/x''" ?rq]
      r [of "''PUT''" "''/puts''" ?rq] r [of "''GET''" "''/swagger''" ?rq] c
    by (simp add: routes_def is_prefix_def)
qed

text \<open>
  C32: Statuses. A request for a documented path is answered with a status the document lists for it,
  except that a PUT may also be answered 405, 500 or 502 and a GET of a value 400 or 405, which the
  document leaves out.
\<close>

theorem statuses_of_documented_paths:
  assumes "serve cd enc encs sr vw (s, routes) rq fx = Some (w, fx')" and "rq_Path rq \<in> set (map fst doc_paths)"
  shows "Itoa (web_Status w) \<in> set (documented (rq_Path rq))
    \<or> (rq_Path rq = ''/put'' \<and> web_Status w \<in> {405, 500, 502}) \<or> (rq_Path rq = ''/get'' \<and> web_Status w \<in> {400, 405})"
proof -
  have itoa: "Itoa 200 = ''200''" "Itoa 400 = ''400''" "Itoa 404 = ''404''" "Itoa 503 = ''503''"
    by (simp_all add: Itoa.simps char_of_eq_iff take_bit_eq_mod)
  consider "rq_Path rq = ''/put''" | "rq_Path rq = ''/get''" | "rq_Path rq = ''/status''"
    | "rq_Path rq = ''/health''" | "rq_Path rq = ''/metrics''"
    using assms(2) by (auto simp: doc_paths_def)
  then show ?thesis
  proof cases
    case 1
    then obtain rs where "handlePut cd sr s (Request.truncate rq) fx = Some (rs, fx')" "w = web_of rs"
      using assms(1) find_route [of "''/put''" HPut "rq_Method rq"] by (auto simp: serve_def routes_def Let_def)
    then show ?thesis
      using handlePut_status 1 itoa by (fastforce simp: documented_values)
  next
    case 2
    then have "w = web_of (handleGet enc s (Request.truncate rq))"
      using assms(1) find_route [of "''/get''" HGet "rq_Method rq"] by (auto simp: serve_def routes_def Let_def)
    then show ?thesis
      using handleGet_status [of enc s "Request.truncate rq"] 2 itoa by (auto simp: documented_values)
  next
    case 3
    then have "w = web_of (handleStatus enc (vw_leader1 vw) (vw_leader2 vw) s)"
      using assms(1) find_route [of "''/status''" HStatus "rq_Method rq"] by (auto simp: serve_def routes_def Let_def)
    then show ?thesis
      using 3 itoa by (simp add: documented_values handleStatus_def ok_json_def)
  next
    case 4
    then have "w = web_of (handleHealth enc (vw_state vw) s)"
      using assms(1) find_route [of "''/health''" HHealth "rq_Method rq"] by (auto simp: serve_def routes_def Let_def)
    then show ?thesis
      using 4 itoa by (simp add: documented_values handleHealth_def ok_json_def)
  next
    case 5
    then obtain rs m where "handleMetrics encs (vw_now vw) (fx_mets fx) = Some (rs, m)" "w = web_of rs"
      using assms(1) find_route [of "''/metrics''" HMetrics "rq_Method rq"] by (auto simp: serve_def routes_def Let_def)
    then show ?thesis
      using 5 itoa handleMetrics_status by (simp add: documented_values)
  qed
qed

text \<open>A GET of a key that is not there, and one of the path of puts.\<close>

definition ex_view :: view where
  "ex_view = \<lparr>vw_leader1 = (''127.0.0.1:9001'', ''node1''), vw_leader2 = (''127.0.0.1:9001'', ''node1''), vw_state = ''Leader'',
     vw_now = 0\<rparr>"

definition ex_get :: "string \<Rightarrow> http_req" where
  "ex_get p = \<lparr>rq_Method = ''GET'', rq_QueryKey = ''j'', rq_Body = [], rq_Path = p, rq_Host = ''node1''\<rparr>"

definition ex_serve :: "http_req \<Rightarrow> (web \<times> effects) option" where
  "ex_serve rq = serve (json_codec ex_text) (\<lambda>m. []) (\<lambda>sn. []) ex_net ex_view (ex_server ''node1'', routes) rq ex_fx"

lemma ex_served:
  "ex_serve (ex_get ''/get'') = Some (web_of (http_Error ''key not found'' 404), ex_fx)"
  "\<exists>fx. ex_serve (ex_get ''/put'') = Some (web_of (http_Error ''method not allowed'' 405), fx)"
  using find_route [of "''/get''" HGet "''GET''"] find_route [of "''/put''" HPut "''GET''"]
  by (simp_all add: ex_serve_def serve_def ex_get_def routes_def Let_def Request.truncate_def handleGet_def
      handlePut_def ex_server_def kv_Get_def go_lookup_def Record_def ex_net_def ex_fx_def NewLatencyTracker_def)

theorem statuses_of_documented_paths_witness:
  "(\<exists>w fx. ex_serve (ex_get ''/get'') = Some (w, fx) \<and> web_Status w = 404
      \<and> Itoa (web_Status w) \<in> set (documented ''/get''))
   \<and> (\<exists>w fx. ex_serve (ex_get ''/put'') = Some (w, fx) \<and> web_Status w \<in> {405, 500, 502})"
proof -
  have p: "rq_Path (ex_get p) = p" for p
    by (simp add: ex_get_def)
  have d: "rq_Path (ex_get ''/get'') \<in> set (map fst doc_paths)" "rq_Path (ex_get ''/put'') \<in> set (map fst doc_paths)"
    by (simp_all add: doc_paths_def p)
  have st: "web_Status (web_of (http_Error t c)) = c" for t c
    by (simp add: http_Error_def)
  obtain fx where put: "ex_serve (ex_get ''/put'') = Some (web_of (http_Error ''method not allowed'' 405), fx)"
    using ex_served(2) by blast
  have "Itoa 405 \<notin> set (documented ''/put'')" "''/get'' \<noteq> ''/put''" "(404 :: nat) \<notin> {400, 405}"
    by (simp_all add: documented_values Itoa.simps char_of_eq_iff take_bit_eq_mod)
  then show ?thesis
    using statuses_of_documented_paths [OF ex_served(1) [unfolded ex_serve_def] d(1)]
      statuses_of_documented_paths [OF put [unfolded ex_serve_def] d(2)] ex_served(1) put
    unfolding p st by (metis st)
qed

end
