(* ===== verification/Document.thy ===== *)
theory Document
  imports Prelude Router Lifecycle
begin

text \<open>
  The OpenAPI document of \<^verbatim>\<open>server/swagger.go\<close> against the handlers: the JSON that \<^verbatim>\<open>GET /metrics\<close>
  encodes, the way of a reader through the document to the schema of an answer, and what it is for
  an answer to conform to a schema. The text of a float64, which \<^verbatim>\<open>encoding/json\<close> writes in its shortest
  form, is a parameter, of which it is only used that it is a JSON number.
\<close>

section \<open>The JSON of a snapshot\<close>

text \<open>\<^verbatim>\<open>strconv.AppendInt\<close> in base 10.\<close>

definition format_int :: "int64 \<Rightarrow> string" where
  "format_int x = (if sint x < 0 then CHR ''-'' # Itoa (nat (- sint x)) else Itoa (nat (sint x)))"

text \<open>The names of the struct tags, and the texts of the fields.\<close>

definition Snapshot_json :: "string list" where
  "Snapshot_json =
     [''total_writes'', ''total_duplicates'', ''total_errors'', ''total_forwards'', ''batch_queue_depth'',
      ''dedup_map_size'', ''writes_per_sec'', ''latency_p50_ms'', ''latency_p95_ms'', ''latency_p99_ms'']"

definition Snapshot_texts :: "(rat \<Rightarrow> string) \<Rightarrow> Snapshot \<Rightarrow> string list" where
  "Snapshot_texts fmt sn =
     map format_int [sn_TotalWrites sn, sn_TotalDuplicates sn, sn_TotalErrors sn, sn_TotalForwards sn, sn_QueueDepth sn,
       sn_DedupMapSize sn]
     @ map fmt [sn_WritesPerSec sn, sn_LatencyP50Ms sn, sn_LatencyP95Ms sn, sn_LatencyP99Ms sn]"

definition number_member :: "string \<times> string \<Rightarrow> string" where
  "number_member p = json_string (fst p) @ '':'' @ snd p"

fun number_members :: "(string \<times> string) list \<Rightarrow> string" where
  "number_members [] = []"
| "number_members [p] = number_member p"
| "number_members (p # ps) = number_member p @ '','' @ number_members ps"

definition Encode_Snapshot :: "(rat \<Rightarrow> string) \<Rightarrow> Snapshot \<Rightarrow> string" where
  "Encode_Snapshot fmt sn =
     [CHR 0x7B] @ number_members (zip Snapshot_json (Snapshot_texts fmt sn)) @ [CHR 0x7D] @ [CHR 0x0A]"

section \<open>Numbers are read back\<close>

definition number_text :: "string \<Rightarrow> bool" where
  "number_text t \<longleftrightarrow> lex_number t = Some (t, [])"

definition integer_text :: "string \<Rightarrow> bool" where
  "integer_text t \<longleftrightarrow> num_int t = Some (t, [])"

text \<open>A character that ends a number.\<close>

definition stops :: "char \<Rightarrow> bool" where
  "stops c \<longleftrightarrow> \<not> digit c \<and> c \<notin> {CHR ''.'', CHR ''e'', CHR ''E'', CHR ''+'', CHR ''-''}"

lemma stops_simps [simp]: "stops (CHR '','')" "stops (CHR 0x7D)"
  by (simp_all add: stops_def digit_def)

lemma digits_stop:
  assumes "\<not> digit c"
  shows "takeWhile digit (s @ c # r) = takeWhile digit s" "dropWhile digit (s @ c # r) = dropWhile digit s @ c # r"
  using assms by (induction s) simp_all

lemma num_int_stop: "num_int s = Some (a, u) \<Longrightarrow> stops c \<Longrightarrow> num_int (s @ c # r) = Some (a, u @ c # r)"
  by (cases s; cases "tl s") (auto simp: num_int_def Let_def digits_stop stops_def split: if_split_asm)

lemma num_frac_stop: "num_frac s = Some (a, u) \<Longrightarrow> stops c \<Longrightarrow> num_frac (s @ c # r) = Some (a, u @ c # r)"
  by (cases s) (auto simp: num_frac_def digits_stop stops_def split: if_split_asm)

lemma num_exp_stop: "num_exp s = Some (a, u) \<Longrightarrow> stops c \<Longrightarrow> num_exp (s @ c # r) = Some (a, u @ c # r)"
  by (cases s; cases "tl s") (auto simp: num_exp_def Let_def digits_stop stops_def split: if_split_asm)

lemma lex_number_stop: "number_text t \<Longrightarrow> stops c \<Longrightarrow> lex_number (t @ c # r) = Some (t, c # r)"
  by (auto simp: number_text_def lex_number_def num_int_stop num_frac_stop num_exp_stop simp del: not_None_eq
      split: option.splits)

lemma lex_number_first: "lex_number (c # s) = Some x \<Longrightarrow> c = CHR ''-'' \<or> digit c"
  by (auto simp: lex_number_def num_int_def Let_def simp del: not_None_eq split: option.splits if_split_asm)

lemma lex_number_text:
  assumes "number_text t" and "stops c"
  shows "lex (t @ c # r) = Some (TNum t, c # r)"
proof -
  have "t \<noteq> []"
    using assms(1) by (auto simp: number_text_def lex_number_def num_int_def Let_def)
  then obtain a s where t: "t = a # s"
    by (cases t) simp_all
  then have "a = CHR ''-'' \<or> digit a"
    using assms(1) lex_number_first by (auto simp: number_text_def)
  then have "\<not> is_space a" "a \<notin> {CHR 0x7B, CHR 0x7D, CHR 0x5B, CHR 0x5D, CHR '','', CHR '':'', quote_char, CHR ''t'', CHR ''f'', CHR ''n''}"
    by (auto simp: is_space_def digit_def)
  then show ?thesis
    using lex_number_stop [OF assms] by (simp add: lex_def t lex_token_def)
qed

definition as_number :: "string \<times> string \<Rightarrow> string \<times> json" where
  "as_number p = (to_valid (fst p), JNum (snd p))"

lemma read_number_members:
  assumes "m = MFirstKey \<or> m = MKey" and "es \<noteq> []" and "\<forall>p \<in> set es. number_text (snd p)"
  shows "read_value m [FObj ms k] (number_members es @ CHR 0x7D # t) = Some (JObj (rev ms @ map as_number es), t)"
  using assms
proof (induction es arbitrary: m ms k rule: number_members.induct)
  case (2 p)
  then show ?case
    by (auto simp: number_member_def as_number_def read_next [OF lex_string] read_next [OF lex_char(4)]
        read_next [OF lex_number_text] read_done [OF lex_char(2)])
next
  case (3 p q ps)
  have "read_value m [FObj ms k] (number_member p @ CHR '','' # r) = read_value MKey [FObj (as_number p # ms) []] r" for r
    using 3(2,4)
    by (auto simp: number_member_def as_number_def read_next [OF lex_string] read_next [OF lex_char(4)]
        read_next [OF lex_number_text] read_next [OF lex_char(3)])
  then show ?case
    using 3 by simp
qed simp

lemma unmarshal_line:
  assumes "read_value MValue [] (s @ [CHR 0x0A]) = Some (v, [CHR 0x0A])"
  shows "unmarshal_value (s @ [CHR 0x0A]) = Some v"
  using assms by (simp add: unmarshal_value_def is_space_def)

lemma Encode_Snapshot_read:
  assumes "\<forall>x. number_text (fmt x)" and "\<forall>x. number_text (format_int x)"
  shows "unmarshal_value (Encode_Snapshot fmt sn) = Some (JObj (map as_number (zip Snapshot_json (Snapshot_texts fmt sn))))"
proof -
  let ?es = "zip Snapshot_json (Snapshot_texts fmt sn)"
  have "\<forall>p \<in> set ?es. number_text (snd p)"
    using assms by (auto simp: Snapshot_texts_def dest!: set_zip_rightD)
  moreover have "?es \<noteq> []"
    by (simp add: Snapshot_json_def Snapshot_texts_def)
  ultimately have "read_value MFirstKey [FObj [] []] (number_members ?es @ CHR 0x7D # [CHR 0x0A]) =
      Some (JObj (map as_number ?es), [CHR 0x0A])"
    using read_number_members [of MFirstKey ?es "[]" "[]"] by simp
  then have "read_value MValue [] (([CHR 0x7B] @ number_members ?es @ [CHR 0x7D]) @ [CHR 0x0A]) =
      Some (JObj (map as_number ?es), [CHR 0x0A])"
    by (simp add: read_next [OF lex_char(1)] push_def maxNestingDepth_def)
  from unmarshal_line [OF this] show ?thesis
    by (simp add: Encode_Snapshot_def)
qed

lemma Itoa_digits: "Itoa n \<noteq> [] \<and> list_all digit (Itoa n) \<and> (hd (Itoa n) = CHR ''0'' \<longrightarrow> Itoa n = ''0'')"
proof (induction n rule: Itoa.induct)
  case (1 n)
  have d: "digit (char_of (48 + k))" if "k < 10" for k :: nat
    using that by (simp add: digit_def)
  show ?case
  proof (cases "n < 10")
    case True
    then show ?thesis
      using d [of n] by (simp add: Itoa.simps [of n])
  next
    case False
    moreover have "Itoa (n div 10) \<noteq> ''0''"
    proof
      assume "Itoa (n div 10) = ''0''"
      then have "digits_value ''0'' 0 = Some (n div 10)"
        using digits_value_Itoa [of "n div 10"] by simp
      then show False
        using False by (simp add: is_digit_def)
    qed
    ultimately show ?thesis
      using 1 d [of "n mod 10"] by (simp add: Itoa.simps [of n])
  qed
qed

lemma format_int_integer: "integer_text (format_int x)"
proof -
  have "num_int (Itoa n) = Some (Itoa n, [])" "num_int (CHR ''-'' # Itoa n) = Some (CHR ''-'' # Itoa n, [])" for n
  proof -
    note d = Itoa_digits [of n]
    have a: "digit (hd (Itoa n))" "takeWhile digit (Itoa n) = Itoa n" "dropWhile digit (Itoa n) = []"
      using d by (cases "Itoa n"; simp add: list_all_iff)+
    have "hd (Itoa n) \<noteq> CHR ''-''"
      using a(1) by (auto simp: digit_def)
    then show "num_int (Itoa n) = Some (Itoa n, [])" "num_int (CHR ''-'' # Itoa n) = Some (CHR ''-'' # Itoa n, [])"
      using d a by (auto simp: num_int_def)
  qed
  then show ?thesis
    by (simp add: integer_text_def format_int_def)
qed

lemma integer_number: "integer_text t \<Longrightarrow> number_text t"
  by (simp add: integer_text_def number_text_def lex_number_def num_frac_def num_exp_def)

section \<open>Through the document\<close>

text \<open>Along the names of members; a reference leads to a schema of the components.\<close>

fun follow :: "string list \<Rightarrow> json \<Rightarrow> json option" where
  "follow [] v = Some v"
| "follow (k # ks) v = Option.bind (member k v) (follow ks)"

definition schema_at :: "string list \<Rightarrow> json option" where
  "schema_at ks =
     (case follow (ks @ [''content'', ''application/json'', ''schema'', ''$ref'']) swagger_doc of
        Some (JStr r) \<Rightarrow> follow [''components'', ''schemas'', drop (length ''#/components/schemas/'') r] swagger_doc
      | _ \<Rightarrow> None)"

definition answer_schema :: "string \<Rightarrow> json option" where
  "answer_schema path = schema_at [''paths'', path, ''get'', ''responses'', ''200'']"

definition properties_of :: "json \<Rightarrow> string list" where
  "properties_of schema = (case follow [''properties''] schema of Some ps \<Rightarrow> keys ps | None \<Rightarrow> [])"

text \<open>A value has the type, and is one of the values, that the schema gives a property.\<close>

fun has_type :: "string \<Rightarrow> json \<Rightarrow> bool" where
  "has_type ty (JStr x) \<longleftrightarrow> ty = ''string''"
| "has_type ty (JNum t) \<longleftrightarrow> ty = ''number'' \<or> ty = ''integer'' \<and> integer_text t"
| "has_type ty v \<longleftrightarrow> False"

definition fits :: "json \<Rightarrow> string \<times> json \<Rightarrow> bool" where
  "fits schema p \<longleftrightarrow>
     (case follow [''properties'', fst p, ''type''] schema of Some (JStr ty) \<Rightarrow> has_type ty (snd p) | _ \<Rightarrow> False)
     \<and> (case follow [''properties'', fst p, ''enum''] schema of Some (JArr vs) \<Rightarrow> snd p \<in> set vs | _ \<Rightarrow> True)"

definition conforms :: "json \<Rightarrow> json \<Rightarrow> bool" where
  "conforms schema v \<longleftrightarrow>
     (case v of
        JObj ms \<Rightarrow> set (map fst ms) = set (properties_of schema) \<and> list_all (fits schema) ms
      | _ \<Rightarrow> False)"

lemma document_schemas:
  "answer_schema ''/get'' = Some doc_GetResponse" "answer_schema ''/status'' = Some doc_StatusResponse"
  "answer_schema ''/health'' = Some doc_HealthResponse" "answer_schema ''/metrics'' = Some doc_MetricsResponse"
  "schema_at [''paths'', ''/put'', ''post'', ''requestBody''] = Some doc_PutRequest"
  by (simp_all add: answer_schema_def schema_at_def swagger_doc_def doc_schemas_def doc_defs)

text \<open>An encoded map of strings conforms when its names and values do.\<close>

lemma Encode_map_conforms:
  assumes "enumerates (rng m) m" and "dom m = set (properties_of schema)" and "\<forall>k \<in> dom m. to_valid k = k"
    and "\<And>k v. m k = Some v \<Longrightarrow> fits schema (k, JStr (to_valid v))"
  shows "\<exists>v. unmarshal_value (Encode_map rng m) = Some v \<and> conforms schema v"
proof -
  let ?es = "sort_key fst (rng m)"
  have en: "enumerates ?es m"
    by (rule enumerates_sort [OF assms(1)])
  have mem: "m (fst p) = Some (snd p)" if "p \<in> set ?es" for p
    using en that map_of_is_SomeI [of ?es "fst p" "snd p"] by (auto simp: enumerates_def)
  have d: "fst ` set ?es = dom m"
    using en dom_map_of_conv_image_fst [of ?es] by (auto simp: enumerates_def)
  have as: "as_member p = (fst p, JStr (to_valid (snd p)))" if "p \<in> set ?es" for p
    using mem [OF that] assms(3) by (auto simp: as_member_def)
  then have "set (map fst (map as_member ?es)) = fst ` set ?es"
    by (force simp: image_iff)
  moreover have "fits schema (as_member p)" if "p \<in> set ?es" for p
    unfolding as [OF that] using assms(4) [OF mem [OF that]] .
  ultimately have "conforms schema (JObj (map as_member ?es))"
    unfolding conforms_def using d assms(2) by (simp add: list_all_iff)
  moreover have "unmarshal_value (Encode_map rng m) = Some (JObj (map as_member ?es))"
    using unmarshal_line [OF read_object [of ?es "[CHR 0x0A]"]] by (simp add: Encode_map_def json_map_def)
  ultimately show ?thesis by blast
qed

lemma fits_strings:
  "k \<in> {''key'', ''value''} \<Longrightarrow> fits doc_GetResponse (k, JStr v)"
  "k \<in> {''status'', ''node_id'', ''role''} \<Longrightarrow> fits doc_HealthResponse (k, JStr v)"
  "k \<in> {''node_id'', ''leader_id'', ''leader_raft'', ''leader_http''} \<Longrightarrow> fits doc_StatusResponse (k, JStr v)"
  "fits doc_StatusResponse (''role'', JStr v) \<longleftrightarrow> v \<in> {''leader'', ''follower''}"
  by (auto simp: fits_def doc_GetResponse_def doc_HealthResponse_def doc_StatusResponse_def)

lemma properties_of_schemas:
  "properties_of doc_PutRequest = PutRequest_json" "properties_of doc_GetResponse = [''key'', ''value'']"
  "properties_of doc_StatusResponse = [''node_id'', ''role'', ''leader_id'', ''leader_raft'', ''leader_http'']"
  "properties_of doc_HealthResponse = [''status'', ''node_id'', ''role'']"
  "properties_of doc_MetricsResponse = Snapshot_json"
  by (simp_all add: properties_of_def doc_PutRequest_def doc_GetResponse_def doc_StatusResponse_def doc_HealthResponse_def
      doc_MetricsResponse_def PutRequest_json_def Snapshot_json_def)

lemma to_valid_names:
  "to_valid k = k" if "k \<in> {''key'', ''value'', ''status'', ''node_id'', ''role'', ''leader_id'', ''leader_raft'', ''leader_http'', ''leader'', ''follower''}"
  using that by (auto simp: to_valid_iff ascii_valid)

lemma metrics_conform: "conforms doc_MetricsResponse (JObj (map as_number (zip Snapshot_json (Snapshot_texts fmt sn))))"
proof -
  have "to_valid n = n" if "n \<in> set Snapshot_json" for n
    using that by (auto simp: Snapshot_json_def to_valid_iff ascii_valid)
  then have "map as_number (zip Snapshot_json ts) = zip Snapshot_json (map JNum ts)" for ts
    by (auto simp: as_number_def zip_map2 dest!: set_zip_leftD)
  moreover have "list_all (fits doc_MetricsResponse) (zip Snapshot_json (map JNum (Snapshot_texts fmt sn)))"
    by (simp add: Snapshot_json_def Snapshot_texts_def fits_def doc_MetricsResponse_def format_int_integer)
  moreover have "map fst (zip Snapshot_json (map JNum (Snapshot_texts fmt sn))) = Snapshot_json"
    by (simp add: Snapshot_json_def Snapshot_texts_def)
  ultimately show ?thesis
    by (simp add: conforms_def properties_of_schemas)
qed

section \<open>Properties\<close>

text \<open>
  C33: The document describes the API. What is served at \<^verbatim>\<open>/swagger/spec\<close> is valid JSON. Its paths are
  exactly the registered ones apart from the Swagger pages, and the properties of the body it gives
  for a PUT are the fields the decoder fills. And each answer 200 that a server gives to a request for \<^verbatim>\<open>/get\<close>,
  \<^verbatim>\<open>/status\<close>, \<^verbatim>\<open>/health\<close> or \<^verbatim>\<open>/metrics\<close> is a JSON object that conforms to the schema that the document
  gives for it: its members are the properties of the schema, each of the type and, for the role in a status, one
  of the values that are listed. Maps are ranged over in any order, and the texts of floats are JSON numbers.
\<close>

theorem document_matches_code:
  assumes "serve cd (Encode_map rng) (Encode_Snapshot fmt) sr vw (s, routes) rq fx = Some (w, fx')"
    and "rq_Path rq \<in> {''/get'', ''/status'', ''/health'', ''/metrics''}" and "web_Status w = 200"
    and "\<forall>m. finite (dom m) \<longrightarrow> enumerates (rng m) m" and "\<forall>x. number_text (fmt x)"
  shows "unmarshal_value (web_Body swagger_spec_handler) = Some swagger_doc
   \<and> set (map fst doc_paths) = {p \<in> fst ` set routes. \<not> is_prefix ''/swagger'' p}
   \<and> map_option properties_of (schema_at [''paths'', ''/put'', ''post'', ''requestBody'']) = Some PutRequest_json
   \<and> (\<exists>schema v. answer_schema (rq_Path rq) = Some schema \<and> unmarshal_value (web_Body w) = Some v \<and> conforms schema v)"
proof (intro conjI)
  show "unmarshal_value (web_Body swagger_spec_handler) = Some swagger_doc"
    by (simp add: swagger_spec_handler_def swaggerSpec_parses)
  show "set (map fst doc_paths) = {p \<in> fst ` set routes. \<not> is_prefix ''/swagger'' p}"
    by (rule doc_paths_routes)
  show "map_option properties_of (schema_at [''paths'', ''/put'', ''post'', ''requestBody'']) = Some PutRequest_json"
    by (simp add: document_schemas properties_of_schemas)
  have body: "web_Body (web_of rs) = rs_Body rs" for rs
    by (simp add: web_of_def)
  have get: "\<exists>v. unmarshal_value (rs_Body (handleGet (Encode_map rng) s r)) = Some v \<and> conforms doc_GetResponse v"
    if "rs_Status (handleGet (Encode_map rng) s r) = 200" for r
  proof -
    define x where "x = fst (kv_Get (rq_QueryKey r) (sv_kv s))"
    have "handleGet (Encode_map rng) s r = ok_json (Encode_map rng [''key'' \<mapsto> rq_QueryKey r, ''value'' \<mapsto> x])"
      using that by (auto simp: x_def handleGet_def http_Error_def split: prod.splits if_split_asm)
    moreover have "\<exists>v. unmarshal_value (Encode_map rng [''key'' \<mapsto> rq_QueryKey r, ''value'' \<mapsto> x]) = Some v \<and> conforms doc_GetResponse v"
      by (rule Encode_map_conforms)
        (use assms(4) in \<open>auto simp: properties_of_schemas to_valid_names fits_strings split: if_split_asm\<close>)
    ultimately show ?thesis
      by (simp add: ok_json_def)
  qed
  have status: "\<exists>v. unmarshal_value (rs_Body (handleStatus (Encode_map rng) l1 l2 s)) = Some v \<and> conforms doc_StatusResponse v" for l1 l2
    unfolding handleStatus_def ok_json_def Response.select_convs
    by (rule Encode_map_conforms)
      (use assms(4) in \<open>auto simp: status_map_def properties_of_schemas to_valid_names fits_strings split: if_split_asm\<close>)
  have health: "\<exists>v. unmarshal_value (rs_Body (handleHealth (Encode_map rng) st s)) = Some v \<and> conforms doc_HealthResponse v" for st
    unfolding handleHealth_def ok_json_def Response.select_convs
    by (rule Encode_map_conforms)
      (use assms(4) in \<open>auto simp: properties_of_schemas to_valid_names fits_strings split: if_split_asm\<close>)
  have metrics: "\<exists>v. unmarshal_value (rs_Body rs) = Some v \<and> conforms doc_MetricsResponse v"
    if "handleMetrics (Encode_Snapshot fmt) now m = Some (rs, m')" for now m rs m'
    using that Encode_Snapshot_read [OF assms(5)] format_int_integer integer_number metrics_conform
    by (auto simp: handleMetrics_def ok_json_def split: option.splits prod.splits)
  show "\<exists>schema v. answer_schema (rq_Path rq) = Some schema \<and> unmarshal_value (web_Body w) = Some v \<and> conforms schema v"
    using assms(2)
  proof (elim insertE emptyE)
    assume p: "rq_Path rq = ''/get''"
    then have "w = web_of (handleGet (Encode_map rng) s (Request.truncate rq))"
      using assms(1) find_route [of "''/get''" HGet "rq_Method rq"] by (auto simp: serve_def routes_def Let_def)
    then show ?thesis
      using get assms(3) by (simp add: p document_schemas body)
  next
    assume p: "rq_Path rq = ''/status''"
    then have "w = web_of (handleStatus (Encode_map rng) (vw_leader1 vw) (vw_leader2 vw) s)"
      using assms(1) find_route [of "''/status''" HStatus "rq_Method rq"] by (auto simp: serve_def routes_def Let_def)
    then show ?thesis
      using status by (simp add: p document_schemas body)
  next
    assume p: "rq_Path rq = ''/health''"
    then have "w = web_of (handleHealth (Encode_map rng) (vw_state vw) s)"
      using assms(1) find_route [of "''/health''" HHealth "rq_Method rq"] by (auto simp: serve_def routes_def Let_def)
    then show ?thesis
      using health by (simp add: p document_schemas body)
  next
    assume p: "rq_Path rq = ''/metrics''"
    then obtain rs m where "handleMetrics (Encode_Snapshot fmt) (vw_now vw) (fx_mets fx) = Some (rs, m)" "w = web_of rs"
      using assms(1) find_route [of "''/metrics''" HMetrics "rq_Method rq"] by (auto simp: serve_def routes_def Let_def)
    then show ?thesis
      using metrics by (simp add: p document_schemas body)
  qed
qed

text \<open>The status and the metrics of a node that leads.\<close>

theorem document_matches_code_witness:
  "(\<exists>w v. serve (json_codec ex_text) (Encode_map ordered) (Encode_Snapshot (\<lambda>x. ''0'')) ex_net ex_view (ex_server ''node1'', routes)
        (ex_get ''/status'') ex_fx = Some (w, ex_fx) \<and> unmarshal_value (web_Body w) = Some v \<and> conforms doc_StatusResponse v)
   \<and> (\<exists>w fx v. serve (json_codec ex_text) (Encode_map ordered) (Encode_Snapshot (\<lambda>x. ''0'')) ex_net ex_view (ex_server ''node1'', routes)
        (ex_get ''/metrics'') ex_fx = Some (w, fx) \<and> unmarshal_value (web_Body w) = Some v \<and> conforms doc_MetricsResponse v)"
proof -
  let ?serve = "\<lambda>p. serve (json_codec ex_text) (Encode_map ordered) (Encode_Snapshot (\<lambda>x. ''0'')) ex_net ex_view (ex_server ''node1'', routes)
        (ex_get p) ex_fx"
  have n: "\<forall>x :: rat. number_text ''0''"
    by (simp add: number_text_def lex_number_def num_int_def num_frac_def num_exp_def digit_def)
  have o: "\<forall>m. finite (dom m) \<longrightarrow> enumerates (ordered m) m"
    using ordered_enumerates by blast
  have p: "rq_Path (ex_get q) = q" for q
    by (simp add: ex_get_def)
  obtain w where w: "?serve ''/status'' = Some (w, ex_fx)" "web_Status w = 200"
    using find_route [of "''/status''" HStatus "''GET''"]
    by (simp add: serve_def ex_get_def routes_def Let_def handleStatus_def ok_json_def)
  obtain rs m where "handleMetrics (Encode_Snapshot (\<lambda>x. ''0'')) (vw_now ex_view) (fx_mets ex_fx) = Some (rs, m)"
  proof -
    have "lt_wf (Latency (fx_mets ex_fx))" "lt_cap (Latency (fx_mets ex_fx)) \<le> 1000000"
      using lt_wf_New [of 2] by (simp_all add: ex_fx_def) (simp add: NewLatencyTracker_def)
    from metrics_Get_total [OF this, of "vw_now ex_view"] show thesis
      using that by (auto simp: handleMetrics_def)
  qed
  then obtain w' fx where w': "?serve ''/metrics'' = Some (w', fx)" "web_Status w' = 200"
    using find_route [of "''/metrics''" HMetrics "''GET''"] handleMetrics_status
    by (simp add: serve_def ex_get_def routes_def Let_def)
  show ?thesis
    using document_matches_code [OF w(1) _ w(2) o n] document_matches_code [OF w'(1) _ w'(2) o n] w(1) w'(1)
    by (simp add: p document_schemas)
qed

end
