(* ===== verification/Process.thy ===== *)
theory Process
  imports Prelude Router Shutdown Lifecycle
begin

text \<open>
  The whole process of \<^verbatim>\<open>main.go\<close>: \<^verbatim>\<open>main\<close> from its flags to the listening server, and then
  requests, raft, the batch worker, the dedup cleaner and the shutdown of \<^verbatim>\<open>main\<close> in any order.

  A request is one step, at the moment its handler reads the map; what other nodes and raft answer
  meanwhile is in its \<open>surroundings\<close> and \<open>view\<close>.
\<close>

section \<open>Start-up\<close>

record http_Server =
  hs_Addr :: string
  hs_ReadTimeout :: duration
  hs_WriteTimeout :: duration
  hs_IdleTimeout :: duration

text \<open>
  The map of keys is one object: the state machine and the server hold the same pointer. \<open>p_exit\<close> is the
  message of the \<^verbatim>\<open>log.Fatalf\<close> that has ended the process, if one has.
\<close>

record process =
  p_machine :: machine
  p_raft :: RaftNode
  p_peers :: "Peer list"
  p_httpAddrs :: "string \<rightharpoonup> string"
  p_mux :: mux
  p_http :: http_Server
  p_exit :: "string option"

abbreviation p_fsm :: "process \<Rightarrow> FSM" where
  "p_fsm p \<equiv> m_fsm (p_machine p)"

datatype started = Exit1 string | Panics | Listening process

text \<open>The calls of the start-up that leave the process, in order.\<close>

datatype boot_call = MakeDataDir string | OpenSQLite string | Setup setup_call

definition http_Server_of :: "string \<Rightarrow> http_Server" where
  "http_Server_of addr =
     \<lparr>hs_Addr = addr, hs_ReadTimeout = times_unit 15 second, hs_WriteTimeout = times_unit 15 second,
      hs_IdleTimeout = times_unit 60 second\<rparr>"

text \<open>
  The goroutines of the worker and the cleaner run as soon as they are scheduled. If the first statements
  of one panic, they end the process: before the call of \<^verbatim>\<open>main\<close> that comes \<open>lag\<close> calls later, unless
  \<^verbatim>\<open>main\<close> has ended it by then; or else once it listens.
\<close>

definition doomed :: "environment \<Rightarrow> driver \<Rightarrow> row list option \<Rightarrow> string \<Rightarrow> bool" where
  "doomed getenv d disk nid =
     ((case NewSQLiteLog d disk of
         Inl _ \<Rightarrow> False
       | Inr q \<Rightarrow> (case NewBatchWriter getenv q init_metrics of None \<Rightarrow> False | Some bw \<Rightarrow> run_start bw = None))
      \<or> (case boot_state getenv d disk nid of Up f \<Rightarrow> cleaner_start (fsm_dedup f) = None | _ \<Rightarrow> False))"

fun listens :: "started \<Rightarrow> bool" where
  "listens (Listening p) = True"
| "listens _ = False"

definition struck :: "bool \<Rightarrow> nat \<Rightarrow> boot_call list \<times> started \<Rightarrow> boot_call list \<times> started" where
  "struck dm lag r =
     (if dm \<and> (listens (snd r) \<or> 2 + lag \<le> length (fst r)) then (take (2 + lag) (fst r), Panics) else r)"

text \<open>
  \<^verbatim>\<open>main\<close> up to the goroutine that listens. \<open>mk\<close> is the answer of \<^verbatim>\<open>os.MkdirAll\<close>, \<open>disk\<close> the table found
  in the database file of a path, and \<open>oc\<close> the answers while the raft node is constructed.
\<close>

definition main_start ::
    "environment \<Rightarrow> flags \<Rightarrow> (string \<Rightarrow> go_error) \<Rightarrow> (string \<Rightarrow> row list option) \<Rightarrow> driver \<Rightarrow> raft_Config
       \<Rightarrow> outcome \<Rightarrow> nat \<Rightarrow> boot_call list \<times> started" where
  "main_start getenv flg mk disk d dflt oc lag =
     (case main_config getenv flg of
        None \<Rightarrow> ([], Exit1 ''flag -id (or env NODE_ID) is required'')
      | Some cfg \<Rightarrow>
          (let dataDir = nc_DataDir cfg
           in case mk dataDir of
                Some e \<Rightarrow> ([MakeDataDir dataDir], Exit1 (''create data dir: '' @ e))
              | None \<Rightarrow>
                  (let sqlitePath = path_Join dataDir ''kv.db'';
                       calls = [MakeDataDir dataDir, OpenSQLite sqlitePath]
                   in struck (doomed getenv d (disk sqlitePath) (nc_NodeID cfg)) lag
                     (case boot_state getenv d (disk sqlitePath) (nc_NodeID cfg) of
                        Panicked \<Rightarrow> (calls, Panics)
                      | Fatal err \<Rightarrow> (calls, Exit1 err)
                      | Up stateMachine \<Rightarrow>
                          (case cluster_New dflt oc cfg of
                             (cs, Inl err) \<Rightarrow> (calls @ map Setup cs, Exit1 (''start raft node: '' @ err))
                           | (cs, Inr raftNode) \<Rightarrow>
                               (calls @ map Setup cs,
                                case server_New [] raftNode (fsm_kv stateMachine) (nc_Peers cfg) main_httpAddrs of
                                  None \<Rightarrow> Panics
                                | Some (s, m) \<Rightarrow>
                                    Listening \<lparr>p_machine = booted stateMachine, p_raft = sv_node s, p_peers = sv_peers s,
                                      p_httpAddrs = sv_httpAddrs s, p_mux = m,
                                      p_http = http_Server_of (nc_HTTPAddr cfg), p_exit = None\<rparr>))))))"

section \<open>Steps\<close>

definition server_of :: "process \<Rightarrow> Server" where
  "server_of p =
     \<lparr>sv_node = p_raft p, sv_kv = fsm_kv (p_fsm p), sv_peers = p_peers p, sv_httpAddrs = p_httpAddrs p\<rparr>"

definition fresh_fx :: "process \<Rightarrow> effects" where
  "fresh_fx p =
     \<lparr>fx_asked = 0, fx_posts = [], fx_slept = [], fx_proposed = [], fx_sem = 0, fx_mets = mets (p_fsm p)\<rparr>"

definition set_fsm :: "FSM \<Rightarrow> process \<Rightarrow> process" where
  "set_fsm f p = p\<lparr>p_machine := (p_machine p)\<lparr>m_fsm := f\<rparr>\<rparr>"

text \<open>
  The goroutine that listens: an error other than that of a server that was shut down is fatal, and
  \<^verbatim>\<open>log.Fatalf\<close> exits at once, without the graceful shutdown.
\<close>

definition ErrServerClosed :: string where
  "ErrServerClosed = ''http: Server closed''"

definition listen_outcome :: "go_error \<Rightarrow> string option" where
  "listen_outcome err =
     (case err of
        None \<Rightarrow> None
      | Some e \<Rightarrow> (if e \<noteq> ErrServerClosed then Some (''http server: '' @ e) else None))"

text \<open>
  The surroundings of the process: the encoders of the handlers, the clock's texts of errors, and
  the order of Go's map ranges.
\<close>

record codecs =
  co_put :: codec
  co_map :: enc_map
  co_snap :: "Snapshot \<Rightarrow> string"
  co_unm :: unmarshal
  co_dec :: "string \<Rightarrow> string + (string \<rightharpoonup> string)"
  co_rng1 :: map_range
  co_rng2 :: map_range

datatype proc_event =
    PSys sys_event
  | PInstall driver string
  | PServe bool http_req surroundings view
  | PListen go_error

text \<open>
  \<open>PInstall\<close>: raft installs a snapshot, until it is shut down. \<open>PServe\<close>: a request, accepted while the
  server listens; the flag marks one that was accepted before and whose handler outlives the ten
  seconds that \<^verbatim>\<open>Shutdown\<close> waits. \<open>PListen\<close>: \<^verbatim>\<open>ListenAndServe\<close> returns. The second component is what a
  served request gives.
\<close>

fun live_step ::
    "codecs \<Rightarrow> proc_event \<Rightarrow> process \<Rightarrow> (process \<times> (web \<times> effects) option) option" where
  "live_step co (PSys e) p =
     (case sys_step (co_unm co) e (p_machine p) of
        None \<Rightarrow> None
      | Some m \<Rightarrow> Some (p\<lparr>p_machine := m\<rparr>, None))"
| "live_step co (PInstall d rc) p =
     (if NoRaft \<le> m_pc (p_machine p) then Some (p, None)
      else Some (set_fsm (snd (Restore (co_dec co) (co_rng1 co) (co_rng2 co) d rc (p_fsm p))) p, None))"
| "live_step co (PServe late rq sr vw) p =
     (if m_pc (p_machine p) \<noteq> Serving \<and> \<not> late then Some (p, None)
      else case serve (co_put co) (co_map co) (co_snap co) sr vw (server_of p, p_mux p) rq (fresh_fx p) of
             None \<Rightarrow> None
           | Some (w, fx) \<Rightarrow> Some (set_fsm ((p_fsm p)\<lparr>mets := fx_mets fx\<rparr>) p, Some (w, fx)))"
| "live_step co (PListen err) p = Some (p\<lparr>p_exit := listen_outcome err\<rparr>, None)"

text \<open>A process that has exited does nothing any more.\<close>

definition process_step ::
    "codecs \<Rightarrow> proc_event \<Rightarrow> process \<Rightarrow> (process \<times> (web \<times> effects) option) option" where
  "process_step co e p = (if p_exit p = None then live_step co e p else Some (p, None))"

fun process_run ::
    "codecs \<Rightarrow> proc_event list \<Rightarrow> process \<Rightarrow> (process \<times> (web \<times> effects) list) option" where
  "process_run co [] p = Some (p, [])"
| "process_run co (e # es) p =
     (case process_step co e p of
        None \<Rightarrow> None
      | Some (p', out) \<Rightarrow>
          (case process_run co es p' of
             None \<Rightarrow> None
           | Some (q, outs) \<Rightarrow> Some (q, (case out of None \<Rightarrow> outs | Some o' \<Rightarrow> o' # outs))))"

section \<open>A start-up that succeeds\<close>

lemma cluster_New_cases:
  obtains (down) cs err where "cluster_New dflt oc cfg = (cs, Inl err)" "\<not> list_all (\<lambda>c. \<not> fatal oc c) (setup_calls dflt cfg)"
  | (up) "cluster_New dflt oc cfg =
        (setup_calls dflt cfg, Inr \<lparr>rn_NodeID = nc_NodeID cfg, rn_HTTPAddr = nc_HTTPAddr cfg\<rparr>)"
      "list_all (\<lambda>c. \<not> fatal oc c) (setup_calls dflt cfg)"
proof -
  have all: "list_all (\<lambda>c. \<not> fatal oc c) cs \<Longrightarrow> upto_fatal oc cs = cs" for cs
    by (induction cs) simp_all
  obtain cs r where n: "cluster_New dflt oc cfg = (cs, r)"
    by (cases "cluster_New dflt oc cfg")
  show thesis
    using cluster_New_describes [of oc dflt cfg] all down up unfolding n describes_def
    by (cases "list_all (\<lambda>c. \<not> fatal oc c) (setup_calls dflt cfg)") auto
qed

text \<open>The process that a successful start-up leaves.\<close>

definition process_of :: "FSM \<Rightarrow> NodeConfig \<Rightarrow> process" where
  "process_of f cfg =
     \<lparr>p_machine = booted f, p_raft = \<lparr>rn_NodeID = nc_NodeID cfg, rn_HTTPAddr = nc_HTTPAddr cfg\<rparr>,
      p_peers = nc_Peers cfg, p_httpAddrs = main_httpAddrs, p_mux = routes, p_http = http_Server_of (nc_HTTPAddr cfg),
      p_exit = None\<rparr>"

definition boot_calls :: "raft_Config \<Rightarrow> NodeConfig \<Rightarrow> boot_call list" where
  "boot_calls dflt cfg =
     [MakeDataDir (nc_DataDir cfg), OpenSQLite (path_Join (nc_DataDir cfg) ''kv.db'')]
     @ map Setup (setup_calls dflt cfg)"

lemma struck_Listening: "struck dm lag r = (cs, Listening p) \<longleftrightarrow> \<not> dm \<and> r = (cs, Listening p)"
  by (cases r) (auto simp: struck_def)

lemma not_doomed:
  "boot_state getenv d disk nid = Up f \<Longrightarrow> doomed getenv d disk nid \<longleftrightarrow> \<not> goroutines_ok f"
  by (erule boot_state_Up)
    (auto simp: doomed_def goroutines_ok_def boot_state_def run_start_def fsm_New_def bwsys.defs)

lemma main_start_up:
  assumes "main_config getenv flg = Some cfg" and "mk (nc_DataDir cfg) = None"
    and "startup getenv d (disk (path_Join (nc_DataDir cfg) ''kv.db'')) (nc_NodeID cfg) = Up f"
    and "list_all (\<lambda>c. \<not> fatal oc c) (setup_calls dflt cfg)"
  shows "main_start getenv flg mk disk d dflt oc lag = (boot_calls dflt cfg, Listening (process_of f cfg))"
  using assms not_doomed
  by (cases rule: cluster_New_cases [of dflt oc cfg])
    (simp_all add: main_start_def Let_def server_New_routes process_of_def boot_calls_def startup_Up_iff struck_def)

lemma main_start_Listening:
  assumes "main_start getenv flg mk disk d dflt oc lag = (cs, Listening p)"
  obtains cfg f where "main_config getenv flg = Some cfg" "mk (nc_DataDir cfg) = None"
    "startup getenv d (disk (path_Join (nc_DataDir cfg) ''kv.db'')) (nc_NodeID cfg) = Up f"
    "list_all (\<lambda>c. \<not> fatal oc c) (setup_calls dflt cfg)" "cs = boot_calls dflt cfg" "p = process_of f cfg"
proof -
  obtain cfg where cfg: "main_config getenv flg = Some cfg"
    using assms by (cases "main_config getenv flg") (simp_all add: main_start_def)
  have mk: "mk (nc_DataDir cfg) = None"
    using assms cfg by (cases "mk (nc_DataDir cfg)") (simp_all add: main_start_def)
  let ?disk = "disk (path_Join (nc_DataDir cfg) ''kv.db'')"
  obtain f where b: "boot_state getenv d ?disk (nc_NodeID cfg) = Up f"
    using assms cfg mk
    by (cases "boot_state getenv d ?disk (nc_NodeID cfg)") (simp_all add: main_start_def Let_def struck_Listening)
  then have f: "startup getenv d ?disk (nc_NodeID cfg) = Up f"
    using assms cfg mk not_doomed [OF b] by (auto simp: main_start_def Let_def struck_Listening startup_Up_iff)
  show thesis
  proof (cases rule: cluster_New_cases [of dflt oc cfg])
    case (down cs' err)
    then show thesis
      using assms cfg mk b by (simp add: main_start_def Let_def struck_Listening)
  next
    case up
    then show thesis
      using main_start_up [of getenv flg cfg mk d disk f oc dflt] assms cfg mk f
      by (intro that [of cfg f]) simp_all
  qed
qed

text \<open>What makes a start-up succeed, call by call.\<close>

text \<open>
  What the settings in the environment must be for \<^verbatim>\<open>make\<close> and for the tickers: the channel and the batch fit the
  address space, and the intervals, with the wrap-around of their product, are positive.
\<close>

definition settings_ok :: "environment \<Rightarrow> bool" where
  "settings_ok getenv \<longleftrightarrow>
     make_chan_ok (nat (store_envInt getenv ''BATCH_CHAN_SIZE'' 4096))
     \<and> make_slice_ok (nat (store_envInt getenv ''BATCH_SIZE'' 200))
     \<and> 0 < sint (times_unit (store_envInt getenv ''FLUSH_INTERVAL_MS'' 10) millisecond)
     \<and> 0 < sint (times_unit (dedup_envInt getenv ''DEDUP_CLEAN_INTERVAL_MINUTES'' 1) minute)"

lemma settings_ok_iff:
  "settings_ok getenv \<longleftrightarrow>
     (\<exists>bw. NewBatchWriter getenv q m = Some bw \<and> ticker_ok (flushInterval bw) \<and> make_slice_ok (flushSize bw))
     \<and> ticker_ok (cleanInterval (dedup_New getenv))"
  by (auto simp: settings_ok_def NewBatchWriter_def writer_of_def dedup_New_def ticker_ok_def Let_def)

lemma startup_iff:
  "(\<exists>f. startup getenv d disk nid = Up f) \<longleftrightarrow>
    (\<exists>q kv. NewSQLiteLog d disk = Inr q \<and> settings_ok getenv \<and> Replay d set_entry q NewKV = (None, kv))"
  (is "?L \<longleftrightarrow> ?R")
proof
  assume ?L
  then obtain f where "boot_state getenv d disk nid = Up f" "goroutines_ok f"
    by (auto simp: startup_Up_iff)
  then show ?R
    by (elim boot_state_Up)
      (auto simp: goroutines_ok_def run_start_def cleaner_start_def fsm_New_def bwsys.defs split: if_splits
        intro!: settings_ok_iff [THEN iffD2])
next
  assume ?R
  then obtain q kv bw where "NewSQLiteLog d disk = Inr q" "Replay d set_entry q NewKV = (None, kv)"
      "NewBatchWriter getenv q init_metrics = Some bw" "ticker_ok (flushInterval bw)" "make_slice_ok (flushSize bw)"
      "ticker_ok (cleanInterval (dedup_New getenv))"
    using settings_ok_iff by metis
  then show ?L
    by (auto simp: startup_def boot_state_def goroutines_ok_def run_start_def cleaner_start_def fsm_New_def bwsys.defs)
qed

section \<open>The invariant of the process\<close>

text \<open>Nothing of it depends on the answers from outside.\<close>

definition proc_inv :: "process \<Rightarrow> bool" where
  "proc_inv p \<longleftrightarrow>
     machine_inv (p_machine p) \<and> lt_wf (Latency (mets (p_fsm p))) \<and> lt_cap (Latency (mets (p_fsm p))) = 2000
     \<and> p_mux p = routes"

lemma startup_Latency: "startup getenv d disk nid = Up f \<Longrightarrow> Latency (mets f) = NewLatencyTracker 2000"
  unfolding startup_Up_iff
  by (auto simp: writer_of_def fsm_New_def bwsys.defs init_metrics_def Let_def elim!: boot_state_Up)

lemma process_of_inv: "startup getenv d disk nid = Up f \<Longrightarrow> proc_inv (process_of f cfg)"
  using booted_inv [of getenv d disk nid f] startup_Latency [of getenv d disk nid f] lt_wf_New [of 2000]
  by (simp add: proc_inv_def process_of_def) (simp add: booted_def NewLatencyTracker_def)

lemma node_step_Latency: "Latency (mets (node_step unm ev f)) = Latency (mets f)"
proof (cases ev)
  case (NApply l env)
  have "Latency (mets (after_put env i c f)) = Latency (mets f)" for i c
    using Latency_Send [of "a_sched env" "a_driver env" "entry_for i c"
        "f\<lparr>fsm_kv := kv_Set (cmd_Key c) (cmd_Value c) (fsm_kv f)\<rparr>"]
    by (simp add: after_put_def Let_def)
  then show ?thesis
    using NApply by (cases rule: Apply_cases [of unm l env f]) simp_all
next
  case (NWork d c)
  then show ?thesis
    using Latency_worker [of d c f] by (auto simp: pump_worker_def split: option.split)
next
  case (NEvict now)
  then show ?thesis by (simp add: evict_def Let_def)
qed

lemma sys_step_Latency:
  "sys_step unm e m = Some m' \<Longrightarrow> Latency (mets (m_fsm m')) = Latency (mets (m_fsm m))"
  using node_step_Latency
  by (cases "(unm, e, m)" rule: sys_step.cases)
    (auto simp: main_step.simps dedup_Stop_def Stop_def simp del: node_step.simps split: if_splits main_pc.splits)

lemma Restore_frame:
  assumes "Restore dec r1 r2 d rc f = (err, g)"
  shows "mets g = mets f" "stop_closed g = stop_closed f" "fsm_dedup g = fsm_dedup f" "db_open (db g) = db_open (db f)"
proof -
  have "db_open db' = db_open (db f)" if "ReplaceAll d es (db f) = (err', db')" for es err' db'
    using ReplaceAll_result [OF that] that by (cases err') (auto simp: ReplaceAll_def split: if_splits option.splits sum.splits)
  then show "mets g = mets f" "stop_closed g = stop_closed f" "fsm_dedup g = fsm_dedup f" "db_open (db g) = db_open (db f)"
    using assms by (auto simp: Restore_def split: sum.splits prod.splits option.splits)
qed

text \<open>Every request is answered, with one of the statuses of the code.\<close>

definition statuses :: "nat set" where
  "statuses = {200, 301, 400, 404, 405, 500, 502, 503}"

lemma handler_statuses:
  "rs_Status (handleStatus enc ld1 ld2 s) = 200" "rs_Status (handleHealth enc st s) = 200"
  "web_Status swagger_spec_handler = 200" "web_Status (uiHandler rq) = 200" "web_Status (moved m u) = 301"
  "web_Status (swagger_handler rq) \<in> {200, 301}"
  by (simp_all add: handleStatus_def handleHealth_def ok_json_def swagger_spec_handler_def uiHandler_def moved_def
      swagger_handler_def Let_def)

lemma serve_total:
  assumes "lt_wf (Latency (fx_mets fx))" and "lt_cap (Latency (fx_mets fx)) = 2000"
  shows "\<exists>w fx'. serve cd enc encs sr vw (s, m) rq fx = Some (w, fx') \<and> web_Status w \<in> statuses
    \<and> lt_wf (Latency (fx_mets fx')) \<and> lt_cap (Latency (fx_mets fx')) = 2000"
proof (cases "findHandler m (rq_Method rq) (rq_Path rq)")
  case (Serve h)
  show ?thesis
  proof (cases h)
    case HPut
    obtain rs fx' where "handlePut cd sr s (Request.truncate rq) fx = Some (rs, fx')"
        "lt_wf (Latency (fx_mets fx'))" "lt_cap (Latency (fx_mets fx')) = 2000"
      using put_latency_recorded [OF assms(1)] assms(2) by metis
    then show ?thesis
      using handlePut_status [of cd sr s "Request.truncate rq" fx rs fx'] Serve HPut
      by (auto simp: serve_def statuses_def Let_def)
  next
    case HMetrics
    obtain sn mt where "metrics_Get (vw_now vw) (fx_mets fx) = Some (sn, mt)" "Latency mt = Latency (fx_mets fx)"
      using metrics_Get_total assms by fastforce
    then show ?thesis
      using Serve HMetrics assms by (simp add: serve_def handleMetrics_def ok_json_def statuses_def)
  next
    case HGet
    then show ?thesis
      using Serve assms handleGet_status [of enc s "Request.truncate rq"] by (auto simp: serve_def statuses_def Let_def)
  next
    case HSwaggerRedirect
    then show ?thesis
      using Serve assms handler_statuses(6) [of rq] by (auto simp: serve_def statuses_def)
  qed (use Serve assms in \<open>simp_all add: serve_def statuses_def Let_def handler_statuses(1-5)\<close>)
qed (use assms in \<open>simp_all add: serve_def statuses_def http_Error_def handler_statuses(5)\<close>)

lemma set_fsm_simps [simp]:
  "p_fsm (set_fsm f p) = f" "p_mux (set_fsm f p) = p_mux p" "p_machine (set_fsm f p) = (p_machine p)\<lparr>m_fsm := f\<rparr>"
  by (simp_all add: set_fsm_def)

lemma machine_inv_fsm:
  "machine_inv m \<Longrightarrow> dd_stopped (fsm_dedup f) = dd_stopped (fsm_dedup (m_fsm m)) \<Longrightarrow> stop_closed f = stop_closed (m_fsm m)
     \<Longrightarrow> db_open (db f) = db_open (db (m_fsm m)) \<Longrightarrow> machine_inv (m\<lparr>m_fsm := f\<rparr>)"
  by (simp add: machine_inv_def)

lemma live_step_inv:
  assumes "proc_inv p"
  shows "\<exists>p' out. live_step co e p = Some (p', out) \<and> proc_inv p'
    \<and> (case out of None \<Rightarrow> True | Some wx \<Rightarrow> web_Status (fst wx) \<in> statuses)"
proof (cases e)
  case (PSys ev)
  obtain m where m: "sys_step (co_unm co) ev (p_machine p) = Some m" "machine_inv m"
    using sys_step_inv assms by (metis proc_inv_def)
  then show ?thesis
    using PSys assms sys_step_Latency [OF m(1)] by (simp add: proc_inv_def)
next
  case (PInstall d rc)
  obtain err g where R: "Restore (co_dec co) (co_rng1 co) (co_rng2 co) d rc (p_fsm p) = (err, g)"
    by (cases "Restore (co_dec co) (co_rng1 co) (co_rng2 co) d rc (p_fsm p)")
  note g = Restore_frame [OF R]
  have "proc_inv (set_fsm g p)"
    using assms g machine_inv_fsm [of "p_machine p" g] by (simp add: proc_inv_def)
  then show ?thesis
    using PInstall assms R by simp
next
  case (PServe late rq sr vw)
  have "lt_wf (Latency (fx_mets (fresh_fx p)))" "lt_cap (Latency (fx_mets (fresh_fx p))) = 2000"
    using assms by (simp_all add: fresh_fx_def proc_inv_def)
  from serve_total [OF this, of "co_put co" "co_map co" "co_snap co" sr vw "server_of p" "p_mux p" rq]
  obtain w fx' where w: "serve (co_put co) (co_map co) (co_snap co) sr vw (server_of p, p_mux p) rq (fresh_fx p) = Some (w, fx')"
      "web_Status w \<in> statuses" "lt_wf (Latency (fx_mets fx'))" "lt_cap (Latency (fx_mets fx')) = 2000"
    by blast
  have "proc_inv (set_fsm ((p_fsm p)\<lparr>mets := fx_mets fx'\<rparr>) p)"
    using assms w(3,4) machine_inv_fsm [of "p_machine p" "(p_fsm p)\<lparr>mets := fx_mets fx'\<rparr>"] by (simp add: proc_inv_def)
  then show ?thesis
    using PServe assms w by simp
next
  case (PListen err)
  then show ?thesis
    using assms by (simp add: proc_inv_def)
qed

lemma process_step_inv:
  assumes "proc_inv p"
  shows "\<exists>p' out. process_step co e p = Some (p', out) \<and> proc_inv p'
    \<and> (case out of None \<Rightarrow> True | Some wx \<Rightarrow> web_Status (fst wx) \<in> statuses)"
  using live_step_inv [OF assms] assms by (auto simp: process_step_def)

lemma process_run_inv:
  assumes "proc_inv p"
  shows "\<exists>q outs. process_run co es p = Some (q, outs) \<and> proc_inv q \<and> (\<forall>wx \<in> set outs. web_Status (fst wx) \<in> statuses)"
  using assms
proof (induction es arbitrary: p)
  case (Cons e es)
  obtain p' out where s: "process_step co e p = Some (p', out)" "proc_inv p'"
      "case out of None \<Rightarrow> True | Some wx \<Rightarrow> web_Status (fst wx) \<in> statuses"
    using process_step_inv [OF Cons.prems] by blast
  obtain q outs where "process_run co es p' = Some (q, outs)" "proc_inv q" "\<forall>wx \<in> set outs. web_Status (fst wx) \<in> statuses"
    using Cons.IH [OF s(2)] by blast
  then show ?case
    using s(1,3) by (cases out) auto
qed simp

section \<open>Serving the log\<close>

text \<open>The steps of the node in a stretch of events, up to a failure of the listener.\<close>

fun node_events :: "proc_event list \<Rightarrow> node_event list" where
  "node_events [] = []"
| "node_events (PSys (ENode ev) # es) = ev # node_events es"
| "node_events (PListen err # es) = (if listen_outcome err = None then node_events es else [])"
| "node_events (_ # es) = node_events es"

text \<open>Neither a signal nor a snapshot.\<close>

fun undisturbed :: "proc_event \<Rightarrow> bool" where
  "undisturbed (PSys EMain) = False"
| "undisturbed (PInstall d rc) = False"
| "undisturbed _ = True"

lemma exited_run: "p_exit p \<noteq> None \<Longrightarrow> process_run co es p = Some (p, [])"
  by (induction es) (auto simp: process_step_def)

lemma exit_stays: "process_run co es p = Some (q, outs) \<Longrightarrow> p_exit q = None \<Longrightarrow> p_exit p = None"
  using exited_run [of p co es] by fastforce

lemma live_step_exit:
  assumes "live_step co e p = Some (p', out)"
  shows "p_exit p' = (case e of PListen err \<Rightarrow> listen_outcome err | _ \<Rightarrow> p_exit p)"
  using assms by (cases "(co, e, p)" rule: live_step.cases) (auto simp: set_fsm_def split: option.splits if_splits prod.splits)

lemma exit_by_listener:
  assumes "process_run co es p = Some (q, outs)" and "p_exit p = None"
  shows "p_exit q = None \<or> (\<exists>err. PListen err \<in> set es \<and> p_exit q = listen_outcome err)"
  using assms
proof (induction es arbitrary: p outs)
  case (Cons e es)
  then obtain p' out outs' where s: "live_step co e p = Some (p', out)" "process_run co es p' = Some (q, outs')"
    by (auto simp: process_step_def split: option.splits prod.splits)
  show ?case
  proof (cases "p_exit p' = None")
    case True
    then show ?thesis
      using Cons.IH [OF s(2)] by auto
  next
    case False
    then have "q = p'" "\<exists>err. e = PListen err \<and> p_exit p' = listen_outcome err"
      using exited_run [of p' co es] s(2) live_step_exit [OF s(1)] Cons.prems(2) by (auto split: proc_event.splits)
    then show ?thesis by auto
  qed
qed simp

text \<open>What a step that is not the node's leaves alone.\<close>

definition same_node :: "process \<Rightarrow> process \<Rightarrow> bool" where
  "same_node p q \<longleftrightarrow>
     fsm_kv (p_fsm q) = fsm_kv (p_fsm p) \<and> fsm_dedup (p_fsm q) = fsm_dedup (p_fsm p)
     \<and> holds_rows (p_fsm q) = holds_rows (p_fsm p) \<and> m_pc (p_machine q) = m_pc (p_machine p)
     \<and> m_cleaner (p_machine q) = m_cleaner (p_machine p)"

lemma live_step_cases:
  assumes "live_step co e p = Some (q, out)" and "undisturbed e"
    and "proc_inv p" and "m_pc (p_machine p) = Serving" and "m_cleaner (p_machine p)" and "p_exit p = None"
  obtains (node) ev where "e = PSys (ENode ev)" "p_fsm q = node_step (co_unm co) ev (p_fsm p)"
      "m_pc (p_machine q) = Serving" "m_cleaner (p_machine q)" "p_exit q = None"
  | (exit) err where "e = PListen err" "listen_outcome err \<noteq> None" "p_exit q = listen_outcome err" "same_node p q"
  | (other) "\<forall>es. node_events (e # es) = node_events es" "p_exit q = None" "same_node p q"
proof (cases e)
  case (PSys ev)
  have nodd: "\<not> dd_stopped (fsm_dedup (p_fsm p))"
    using assms(3,4) by (simp add: proc_inv_def machine_inv_def stage_defs)
  show thesis
  proof (cases ev)
    case (ENode nev)
    have "q = p\<lparr>p_machine := (p_machine p)\<lparr>m_fsm := node_step (co_unm co) nev (p_fsm p)\<rparr>\<rparr>"
      using assms(1,4,5) PSys ENode by (cases nev) (simp_all del: node_step.simps)
    then show thesis
      using PSys ENode assms(4-6) by (intro node [of nev]) simp_all
  qed (use PSys assms nodd in \<open>auto intro!: other simp: same_node_def\<close>)
next
  case (PServe late rq sr vw)
  then show thesis
    using assms by (intro other) (auto simp: same_node_def set_fsm_def split: option.splits)
next
  case (PListen err)
  then show thesis
    using assms exit [of err] other
    by (cases "listen_outcome err") (auto simp: same_node_def)
qed (use assms(2) in simp)

text \<open>
  A stretch of events without signal and snapshot does to the map and the table what the node's
  own steps in it do.
\<close>

lemma process_run_tracks:
  assumes "process_run co es p = Some (q, outs)" and "list_all undisturbed es"
    and "proc_inv p" and "m_pc (p_machine p) = Serving" and "m_cleaner (p_machine p)" and "p_exit p = None"
    and "fsm_wf (p_fsm p)" and "tracks (co_unm co) (node_events es) (p_fsm p) A"
    and "sorted (event_times (node_events es))"
    and "retry_within (co_unm co) (retention (fsm_dedup (p_fsm p))) (node_events es)"
  shows "kv_data (fsm_kv (p_fsm q)) =
      writes (map cmd_kv (first_puts A (decoded (co_unm co) (applied (node_events es))))) (kv_data (fsm_kv (p_fsm p)))
    \<and> r_key ` holds_rows (p_fsm q) \<subseteq>
        r_key ` holds_rows (p_fsm p) \<union> cmd_Key ` set (first_puts A (decoded (co_unm co) (applied (node_events es))))
    \<and> m_pc (p_machine q) = Serving"
  using assms
proof (induction es arbitrary: p A outs)
  case Nil
  then show ?case by (simp add: decoded_def)
next
  case (Cons e es)
  let ?unm = "co_unm co"
  obtain p' out where s: "live_step co e p = Some (p', out)" "proc_inv p'"
    using live_step_inv [OF Cons.prems(3)] by blast
  then obtain outs' where run: "process_run co es p' = Some (q, outs')"
    using Cons.prems(1,6) by (cases "process_run co es p'") (auto simp: process_step_def split: prod.splits)
  have u: "undisturbed e" "list_all undisturbed es"
    using Cons.prems(2) by simp_all
  from s(1) u(1) Cons.prems(3-6) show ?case
  proof (cases rule: live_step_cases)
    case (node ev)
    have evs: "node_events (e # es) = ev # node_events es"
      by (simp add: node(1))
    obtain B where B: "tracks ?unm (node_events es) (p_fsm p') B"
        "kv_data (fsm_kv (p_fsm p')) = writes (map cmd_kv (first_puts A (decoded ?unm (applied [ev])))) (kv_data (fsm_kv (p_fsm p)))"
        "r_key ` holds_rows (p_fsm p') \<subseteq> r_key ` holds_rows (p_fsm p) \<union> cmd_Key ` set (first_puts A (decoded ?unm (applied [ev])))"
        "first_puts A (decoded ?unm (applied (ev # node_events es))) =
          first_puts A (decoded ?unm (applied [ev])) @ first_puts B (decoded ?unm (applied (node_events es)))"
      using node_step_tracks [OF Cons.prems(7-10) [unfolded evs]] unfolding node(2) by metis
    have "fsm_wf (p_fsm p')" "retention (fsm_dedup (p_fsm p')) = retention (fsm_dedup (p_fsm p))"
      using node_step_wf Cons.prems(7) by (simp_all add: node(2))
    moreover have "sorted (event_times (node_events es))" "retry_within ?unm (retention (fsm_dedup (p_fsm p))) (node_events es)"
      using Cons.prems(9,10) unfolding evs by (cases ev; simp)+
    ultimately show ?thesis
      using Cons.IH [OF run u(2) s(2) node(3-5) _ B(1)] B(2,3) unfolding evs B(4)
      by (simp add: writes_append image_Un) blast
  next
    case (exit err)
    then have "q = p'" "node_events (e # es) = []"
      using exited_run [of p' co es] run by auto
    then show ?thesis
      using exit(4) Cons.prems(4) by (simp add: same_node_def decoded_def)
  next
    case other
    have "tracks ?unm (node_events es) (p_fsm p') A" "fsm_wf (p_fsm p')"
      using Cons.prems(7,8) other(3) unfolding other(1) [rule_format] by (simp_all add: tracks_def fsm_wf_def same_node_def)
    then show ?thesis
      using Cons.IH [OF run u(2) s(2) _ _ other(2)] Cons.prems(4,5,9,10) other(3)
      unfolding other(1) [rule_format] by (simp add: same_node_def)
  qed
qed

section \<open>Examples\<close>

text \<open>The first node, started with no more than its name, on an empty disk or on one row; the cluster is known.\<close>

definition ex_flags :: flags where
  "ex_flags = \<lparr>fl_id = Some ''node1'', fl_raft = None, fl_http = None, fl_data = None, fl_bootstrap = Some True\<rparr>"

definition ex_disk :: "string \<Rightarrow> row list option" where
  "ex_disk path = (if path = ''data/node1/kv.db'' then Some [ex_row] else None)"

lemma ex_main_config: "main_config no_env ex_flags = Some ex_cfg"
  by (simp add: main_config_def ex_flags_def flag_value_def envOr_def no_env_def ex_cfg_def Let_def)

lemma ex_setup: "list_all (\<lambda>c. \<not> fatal ex_outcome c) (setup_calls ex_default ex_cfg)"
  by (simp add: setup_calls_def fatal_def ex_outcome_def)

lemma ex_main_start:
  "main_start no_env ex_flags (\<lambda>path. None) disk no_fault ex_default ex_outcome 0 =
     (boot_calls ex_default ex_cfg,
      Listening (process_of (ex_node (createSchema (disk (path_Join (nc_DataDir ex_cfg) ''kv.db'')))) ex_cfg))"
  using ex_startup [of "disk (path_Join (nc_DataDir ex_cfg) ''kv.db'')"] main_start_up [OF ex_main_config _ _ ex_setup]
  by (simp add: ex_cfg_def)

abbreviation ex_process :: process where
  "ex_process \<equiv> process_of (ex_node []) ex_cfg"

lemma ex_main_empty:
  "main_start no_env ex_flags (\<lambda>path. None) Map.empty no_fault ex_default ex_outcome 0 =
     (boot_calls ex_default ex_cfg, Listening ex_process)"
  by (simp add: ex_main_start)

definition ex_codecs :: codecs where
  "ex_codecs =
     \<lparr>co_put = json_codec ex_text, co_map = (\<lambda>m. go_lookup m ''value''), co_snap = (\<lambda>sn. []), co_unm = ex_unm,
      co_dec = Decode_map ex_text, co_rng1 = ex_range, co_rng2 = ex_range\<rparr>"

text \<open>The events of \<open>ex_evs\<close> with a request of a client after them, and the five calls of the shutdown.\<close>

definition ex_requests :: "proc_event list" where
  "ex_requests = map (\<lambda>ev. PSys (ENode ev)) ex_evs @ [PServe False (ex_get ''/put'') ex_net ex_view]"

definition ex_down :: "proc_event list" where
  "ex_down = replicate 5 (PSys EMain)"

section \<open>Properties\<close>

text \<open>
  C23: Start-up. The process comes to listen, and no goroutine started on the way brings it down, exactly
  when it has a name, its data directory can be made, the database opens and replays, \<^verbatim>\<open>make\<close> can
  give the channel and the batch their sizes, the tickers of the worker and of the cleaner have positive
  intervals, and no call of the construction of the raft node fails except a bootstrap done
  before. It has then made its calls in one order, serves the eight routes under the
  configured address with its three timeouts, and its map is the replay of the table on disk.
\<close>

theorem main_start_outcome:
  "((\<exists>cs p. main_start getenv flg mk disk d dflt oc lag = (cs, Listening p)) \<longleftrightarrow>
      (\<exists>cfg q kv. main_config getenv flg = Some cfg \<and> mk (nc_DataDir cfg) = None
         \<and> NewSQLiteLog d (disk (path_Join (nc_DataDir cfg) ''kv.db'')) = Inr q
         \<and> settings_ok getenv \<and> Replay d set_entry q NewKV = (None, kv)
         \<and> list_all (\<lambda>c. \<not> fatal oc c) (setup_calls dflt cfg)))
   \<and> (main_start getenv flg mk disk d dflt oc lag = (cs, Listening p) \<longrightarrow>
       (\<exists>cfg. main_config getenv flg = Some cfg \<and> cs = boot_calls dflt cfg \<and> p_mux p = routes
         \<and> rn_NodeID (p_raft p) = nc_NodeID cfg \<and> hs_Addr (p_http p) = nc_HTTPAddr cfg
         \<and> 0 < sint (hs_ReadTimeout (p_http p)) \<and> hs_ReadTimeout (p_http p) = hs_WriteTimeout (p_http p)
         \<and> sint (hs_WriteTimeout (p_http p)) < sint (hs_IdleTimeout (p_http p))
         \<and> kv_data (fsm_kv (p_fsm p)) = replay_map (createSchema (disk (path_Join (nc_DataDir cfg) ''kv.db'')))))"
  (is "(?L \<longleftrightarrow> ?R) \<and> (?S \<longrightarrow> ?T)")
proof (intro conjI impI)
  show "?L \<longleftrightarrow> ?R"
  proof
    assume ?L
    then obtain cs p where "main_start getenv flg mk disk d dflt oc lag = (cs, Listening p)" by blast
    then show ?R
      by (rule main_start_Listening) (use startup_iff in blast)
  next
    assume ?R
    then obtain cfg f where "main_config getenv flg = Some cfg" "mk (nc_DataDir cfg) = None"
        "startup getenv d (disk (path_Join (nc_DataDir cfg) ''kv.db'')) (nc_NodeID cfg) = Up f"
        "list_all (\<lambda>c. \<not> fatal oc c) (setup_calls dflt cfg)"
      using startup_iff by metis
    then show ?L using main_start_up by blast
  qed
  assume ?S
  then obtain cfg f where m: "main_config getenv flg = Some cfg" "cs = boot_calls dflt cfg" "p = process_of f cfg"
      "startup getenv d (disk (path_Join (nc_DataDir cfg) ''kv.db'')) (nc_NodeID cfg) = Up f"
    by (rule main_start_Listening)
  moreover have "0 < sint (times_unit 15 second)" "sint (times_unit 15 second) < sint (times_unit 60 second)"
    by (simp_all add: times_unit_def second_def)
  ultimately show ?T
    using startup_Up(6) [OF m(4)] by (simp add: process_of_def booted_def http_Server_of_def)
qed

theorem main_start_outcome_witness:
  "\<exists>cs p. main_start no_env ex_flags (\<lambda>path. None) ex_disk no_fault ex_default ex_outcome 0 = (cs, Listening p)
    \<and> OpenSQLite ''data/node1/kv.db'' \<in> set cs \<and> rn_NodeID (p_raft p) = ''node1''
    \<and> kv_data (fsm_kv (p_fsm p)) = [''k'' \<mapsto> ''v1'']"
proof -
  have path: "path_Join (nc_DataDir ex_cfg) ''kv.db'' = ''data/node1/kv.db''"
    by code_simp
  have rm: "replay_map [ex_row] = [''k'' \<mapsto> ''v1'']"
    by (simp add: replay_map_def row_kv_def ex_row_def)
  obtain cs p where m: "main_start no_env ex_flags (\<lambda>path. None) ex_disk no_fault ex_default ex_outcome 0 = (cs, Listening p)"
    using ex_main_start [of ex_disk] by blast
  have "\<exists>cfg. main_config no_env ex_flags = Some cfg \<and> cs = boot_calls ex_default cfg
      \<and> rn_NodeID (p_raft p) = nc_NodeID cfg
      \<and> kv_data (fsm_kv (p_fsm p)) = replay_map (createSchema (ex_disk (path_Join (nc_DataDir cfg) ''kv.db'')))"
    using main_start_outcome [of no_env ex_flags "\<lambda>path. None" ex_disk no_fault ex_default ex_outcome 0 cs p] m by blast
  then show ?thesis
    using m path rm by (auto simp: ex_main_config boot_calls_def ex_disk_def) (auto simp: ex_cfg_def)
qed

text \<open>
  C13: The process never panics. After any start-up that comes to listen with its goroutines up, and
  as long as memory lasts, whatever the order of requests, entries, snapshots,
  steps of the worker and the cleaner and of the shutdown, and whatever the codecs, the database,
  other nodes and raft answer, no channel is closed twice and no index is out of range; every
  accepted request is answered, with a status of the code, and \<^verbatim>\<open>main\<close> has closed exactly what its
  progress says. Only an error of the listener ends the process in between.
\<close>

theorem process_never_panics:
  assumes "main_start getenv flg mk disk d dflt oc lag = (cs, Listening p)"
  shows "\<exists>q outs. process_run co es p = Some (q, outs)
    \<and> (\<forall>wx \<in> set outs. web_Status (fst wx) \<in> {200, 301, 400, 404, 405, 500, 502, 503})
    \<and> (dd_stopped (fsm_dedup (p_fsm q)) \<longleftrightarrow> NoDedup \<le> m_pc (p_machine q))
    \<and> (stop_closed (p_fsm q) \<longleftrightarrow> NoWriter \<le> m_pc (p_machine q))
    \<and> (db_open (db (p_fsm q)) \<longleftrightarrow> m_pc (p_machine q) < Down)
    \<and> (p_exit q = None \<or> (\<exists>err. PListen err \<in> set es \<and> p_exit q = listen_outcome err))"
proof -
  obtain cfg f where "startup getenv d (disk (path_Join (nc_DataDir cfg) ''kv.db'')) (nc_NodeID cfg) = Up f"
      "p = process_of f cfg"
    using main_start_Listening [OF assms] by metis
  then have "proc_inv p" and alive: "p_exit p = None"
    using process_of_inv by (blast, simp add: process_of_def)
  from process_run_inv [OF this(1), of co es] show ?thesis
    unfolding proc_inv_def machine_inv_def statuses_def using exit_by_listener [OF _ alive] by blast
qed

theorem process_never_panics_witness:
  "\<exists>q outs. process_run ex_codecs (ex_requests @ ex_down) ex_process = Some (q, outs)
     \<and> (db_open (db (p_fsm q)) \<longleftrightarrow> m_pc (p_machine q) < Down)"
  using process_never_panics [OF ex_main_empty] by blast

text \<open>
  How long a PUT waits: for its slot, for the rest of its body, for the answers of its POSTs, and asleep. What
  the handler computes in between is not counted.
\<close>

definition put_time :: "(nat \<Rightarrow> int) \<Rightarrow> int \<Rightarrow> int \<Rightarrow> effects \<Rightarrow> effects \<Rightarrow> int" where
  "put_time dur wait rd fx fx' =
     wait + rd + (\<Sum>n = length (fx_posts fx)..<length (fx_posts fx'). dur n) + (slept fx' - slept fx)"

text \<open>
  C28: A PUT can outlast the server. Whatever raft and the network answer, a PUT that is not decided by its
  own proposal waits at most 111.1 seconds in all before it is answered, if a slot is waited for five seconds, its
  body arrives within the read timeout of the server, and each POST takes no longer than the timeout of the
  client allows. This is more than the time the server gives a
  response: after one POST that times out and a second that is acknowledged, the handler writes its
  200 later than the write timeout, and the client does not learn that its value is committed.
\<close>

theorem put_outlasts_server:
  assumes "handlePut cd sr s rq fx = Some (rs, fx')" and "fx_proposed fx' = fx_proposed fx"
    and "0 \<le> wait" "wait \<le> 5000000000" and "\<forall>n. 0 \<le> dur n \<and> dur n \<le> sint (hc_Timeout forwardClient)"
    and "0 \<le> rd" "rd \<le> sint (hs_ReadTimeout (http_Server_of addr))"
  shows "put_time dur wait rd fx fx' \<le> 111100000000
    \<and> (\<exists>sr' dur' fx''. handlePut (json_codec ex_text) sr' (ex_server ''node2'') ex_json_rq ex_fx = Some (ok_empty, fx'')
        \<and> acknowledged sr' ex_fx fx'' \<and> (\<forall>n. 0 \<le> dur' n \<and> dur' n \<le> sint (hc_Timeout forwardClient))
        \<and> sint (hs_WriteTimeout (http_Server_of addr)) < put_time dur' 0 0 ex_fx fx'')"
proof
  have ten: "sint (hc_Timeout forwardClient) = 10000000000"
    by (simp add: forwardClient_def times_unit_def second_def)
  let ?A = "{length (fx_posts fx)..<length (fx_posts fx')}"
  have e: "length (fx_posts fx') \<le> length (fx_posts fx) + 9" "slept fx' \<le> slept fx + 1100000000"
    using put_effort [OF assms(1)] by simp_all
  have "(\<Sum>n \<in> ?A. dur n) \<le> of_nat (card ?A) * 10000000000"
    using assms(5) ten by (intro sum_bounded_above) simp
  also have "\<dots> \<le> 90000000000"
    using e(1) by simp
  finally show "put_time dur wait rd fx fx' \<le> 111100000000"
    using e(2) assms(4,7) by (simp add: put_time_def http_Server_of_def times_unit_def second_def)
  let ?dur = "\<lambda>n :: nat. if n = 0 then 10000000000 else 6000000000 :: int"
  obtain fx'' where fx'': "handlePut (json_codec ex_text) ex_net (ex_server ''node2'') ex_json_rq ex_fx = Some (ok_empty, fx'')"
      "length (fx_posts fx'') = 2" "fx_slept fx'' = [times_unit 100 millisecond]"
    using ex_json_put(2) by auto
  have "sint (hs_WriteTimeout (http_Server_of addr)) = 15000000000"
    by (simp add: http_Server_of_def times_unit_def second_def)
  moreover have "put_time ?dur 0 0 ex_fx fx'' = 16100000000"
    using fx''(2,3) by (simp add: put_time_def slept_def ex_fx_def numeral_2_eq_2)
  moreover have "acknowledged ex_net ex_fx fx''"
    using fx''(2) by (simp add: acknowledged_def ex_net_def ex_fx_def)
  ultimately show "\<exists>sr' dur' fx''. handlePut (json_codec ex_text) sr' (ex_server ''node2'') ex_json_rq ex_fx = Some (ok_empty, fx'')
      \<and> acknowledged sr' ex_fx fx'' \<and> (\<forall>n. 0 \<le> dur' n \<and> dur' n \<le> sint (hc_Timeout forwardClient))
      \<and> sint (hs_WriteTimeout (http_Server_of addr)) < put_time dur' 0 0 ex_fx fx''"
    using fx''(1) ten by (intro exI [of _ ex_net] exI [of _ ?dur] exI [of _ fx'']) simp
qed

theorem put_outlasts_server_witness:
  "\<exists>fx'. handlePut (json_codec ex_text) ex_net (ex_server ''node2'') ex_json_rq ex_fx = Some (ok_empty, fx')
     \<and> put_time (\<lambda>n. 10000000000) 5000000000 15000000000 ex_fx fx' \<le> 111100000000"
proof -
  obtain fx' where h: "handlePut (json_codec ex_text) ex_net (ex_server ''node2'') ex_json_rq ex_fx = Some (ok_empty, fx')"
      "length (fx_posts fx') = 2"
    using ex_json_put(2) by auto
  have "fx_proposed fx' = fx_proposed ex_fx"
    using h(1)
  proof (cases rule: handlePut_cases)
    case (body fx1 t)
    from body(3) show ?thesis
      by (cases rule: put_body_cases)
        (use body(5) in \<open>auto dest!: forwardWithRetry_frame(1) simp: ex_server_def ex_net_def IsLeader_def\<close>)
  qed simp
  from put_outlasts_server [OF h(1) this, of 5000000000 "\<lambda>n. 10000000000" 15000000000 "''127.0.0.1:8002''"] show ?thesis
    using h(1) by (simp add: forwardClient_def http_Server_of_def times_unit_def second_def)
qed

definition key_answer :: "enc_map \<Rightarrow> (string \<rightharpoonup> string) \<Rightarrow> string \<Rightarrow> web" where
  "key_answer enc m k =
     (case m k of
        None \<Rightarrow> web_of (http_Error ''key not found'' 404)
      | Some v \<Rightarrow> web_of (ok_json (enc [''key'' \<mapsto> k, ''value'' \<mapsto> v])))"

text \<open>A start leaves a process as the lemmas above want it.\<close>

lemma started_process:
  assumes "main_start getenv flg mk disk d dflt oc lag = (cs, Listening p)" and "main_config getenv flg = Some cfg"
  shows "proc_inv p" "m_pc (p_machine p) = Serving" "m_cleaner (p_machine p)" "p_exit p = None"
    "startup getenv d (disk (path_Join (nc_DataDir cfg) ''kv.db'')) (nc_NodeID cfg) = Up (p_fsm p)"
proof -
  obtain f where f: "startup getenv d (disk (path_Join (nc_DataDir cfg) ''kv.db'')) (nc_NodeID cfg) = Up f"
      "p = process_of f cfg"
    using main_start_Listening [OF assms(1)] assms(2) by (metis option.inject)
  show "proc_inv p" "m_pc (p_machine p) = Serving" "m_cleaner (p_machine p)" "p_exit p = None"
    "startup getenv d (disk (path_Join (nc_DataDir cfg) ''kv.db'')) (nc_NodeID cfg) = Up (p_fsm p)"
    using process_of_inv [OF f(1)] f by (simp_all add: process_of_def booted_def)
qed

lemma started_run:
  assumes "main_start getenv flg mk disk d dflt oc lag = (cs, Listening p)" and "main_config getenv flg = Some cfg"
    and "process_run co es p = Some (q, outs)" and "list_all undisturbed es"
    and "sorted (event_times (node_events es))"
    and "retry_within (co_unm co) (retention (fsm_dedup (p_fsm p))) (node_events es)"
  defines "t \<equiv> createSchema (disk (path_Join (nc_DataDir cfg) ''kv.db''))"
  shows "kv_data (fsm_kv (p_fsm q)) = replay_map t ++ spec_kv (co_unm co) (applied (node_events es))"
    "r_key ` holds_rows (p_fsm q) \<subseteq> r_key ` set t \<union> dom (spec_kv (co_unm co) (applied (node_events es)))"
    "m_pc (p_machine q) = Serving" "p_mux q = routes"
proof -
  note p = started_process [OF assms(1,2)]
  note T = process_run_tracks [OF assms(3,4) p(1-4) startup_Up(7) [OF p(5)] tracks_empty [OF startup_Up(8) [OF p(5)]] assms(5,6)]
  show "kv_data (fsm_kv (p_fsm q)) = replay_map t ++ spec_kv (co_unm co) (applied (node_events es))"
    using T startup_Up(6) [OF p(5)] by (simp add: t_def spec_kv_writes writes_map_of)
  show "r_key ` holds_rows (p_fsm q) \<subseteq> r_key ` set t \<union> dom (spec_kv (co_unm co) (applied (node_events es)))"
    using T startup_Up(11) [OF p(5)] by (simp add: t_def dom_spec_kv)
  show "m_pc (p_machine q) = Serving" "p_mux q = routes"
    using T process_run_inv [OF p(1), of co es] assms(3) by (auto simp: proc_inv_def)
qed

lemma get_step:
  assumes "kv_data (fsm_kv (p_fsm q)) = m" and "m_pc (p_machine q) = Serving" and "p_mux q = routes" and "p_exit q = None"
    and "rq_Method rq = ''GET''" and "rq_Path rq = ''/get''" and "rq_QueryKey rq \<noteq> []"
  shows "process_step co (PServe late rq sr vw) q =
    Some (q, Some (key_answer (co_map co) m (rq_QueryKey rq), fresh_fx q))"
proof -
  have "serve (co_put co) (co_map co) (co_snap co) sr vw (server_of q, p_mux q) rq (fresh_fx q) =
      Some (key_answer (co_map co) m (rq_QueryKey rq), fresh_fx q)"
    using find_route [of "''/get''" HGet "''GET''"] assms(1,3,5-7)
    by (simp add: serve_def routes_def Let_def Request.truncate_def handleGet_def server_of_def kv_Get_def go_lookup_def
        key_answer_def split: option.split)
  moreover have "set_fsm ((p_fsm q)\<lparr>mets := fx_mets (fresh_fx q)\<rparr>) q = q"
    by (simp add: set_fsm_def fresh_fx_def)
  ultimately show ?thesis
    using assms(2,4) by (simp add: process_step_def)
qed

text \<open>
  C7: What is served is the log. A node answers a GET of a key, at any moment between its start and the
  signal, as long as it installs no snapshot, with the value that the entries it has applied since the
  start give it, each idempotency key counting once; for a key they do not write with the value of
  the table it started on; and with 404 when there is neither; whatever requests it has served, whatever
  the worker and the database did and whenever the cleaner ran; provided that each retry came within the
  retention time of the dedup store, by a clock that does not go back (C36). On an empty disk that is the log alone. After a restart
  raft delivers the log again from its first entry, so for a while answers mix the old table with
  values that are older still, and a client can see a value go back.
\<close>

theorem served_reads_follow_the_log:
  assumes "main_start getenv flg mk disk d dflt oc lag = (cs, Listening p)" and "main_config getenv flg = Some cfg"
    and "process_run co es p = Some (q, outs)" and "list_all undisturbed es" and "p_exit q = None"
    and "sorted (event_times (node_events es))"
    and "retry_within (co_unm co) (retention (fsm_dedup (p_fsm p))) (node_events es)"
    and "rq_Method rq = ''GET''" and "rq_Path rq = ''/get''" and "rq_QueryKey rq \<noteq> []"
  shows "process_step co (PServe late rq sr vw) q =
    Some (q, Some (key_answer (co_map co)
      (replay_map (createSchema (disk (path_Join (nc_DataDir cfg) ''kv.db'')))
        ++ spec_kv (co_unm co) (applied (node_events es))) (rq_QueryKey rq), fresh_fx q))"
  by (rule get_step [OF started_run(1,3,4) [OF assms(1-4,6,7)] assms(5,8-10)])

text \<open>A node that is started again on two values of a key shows the second and then, redelivered, the first.\<close>

definition ex_rows :: "row list" where
  "ex_rows = [ex_row, ex_row\<lparr>r_idx := 2, r_value := ''v2''\<rparr>]"

lemma ex_rows_kv: "replay_map ex_rows = [''k'' \<mapsto> ''v2'']"
  by (simp add: ex_rows_def replay_map_def row_kv_def ex_row_def)

theorem served_reads_follow_the_log_witness:
  "\<exists>q outs. process_run ex_codecs ex_requests (process_of (ex_node ex_rows) ex_cfg) = Some (q, outs)
     \<and> process_step ex_codecs (PServe False ((ex_get ''/get'')\<lparr>rq_QueryKey := ''k''\<rparr>) ex_net ex_view)
         (process_of (ex_node ex_rows) ex_cfg) =
         Some (process_of (ex_node ex_rows) ex_cfg, Some (web_of (ok_json ''v2''), fresh_fx (process_of (ex_node ex_rows) ex_cfg)))
     \<and> process_step ex_codecs (PServe False ((ex_get ''/get'')\<lparr>rq_QueryKey := ''k''\<rparr>) ex_net ex_view) q =
         Some (q, Some (web_of (ok_json ''v1''), fresh_fx q))"
proof -
  let ?p = "process_of (ex_node ex_rows) ex_cfg" and ?rq = "(ex_get ''/get'')\<lparr>rq_QueryKey := ''k''\<rparr>"
  have main: "main_start no_env ex_flags (\<lambda>path. None) (\<lambda>path. Some ex_rows) no_fault ex_default ex_outcome 0 =
      (boot_calls ex_default ex_cfg, Listening ?p)"
    by (simp add: ex_main_start)
  have "proc_inv ?p"
    using process_of_inv [of no_env no_fault "Some ex_rows" "''node1''"] by (simp add: ex_startup)
  then obtain q outs where r: "process_run ex_codecs ex_requests ?p = Some (q, outs)"
    using process_run_inv by blast
  have u: "list_all undisturbed ex_requests" and alive: "p_exit q = None"
    using exit_by_listener [OF r] by (auto simp: ex_requests_def list_all_iff process_of_def)
  have n: "node_events ex_requests = ex_evs"
    by (simp add: ex_requests_def ex_evs_def)
  have f: "fsm_dedup (p_fsm ?p) = dedup_New no_env" "co_unm ex_codecs = ex_unm"
    "co_map ex_codecs = (\<lambda>m. go_lookup m ''value'')"
    by (simp_all add: process_of_def booted_def ex_codecs_def)
  have get: "rq_Method ?rq = ''GET''" "rq_Path ?rq = ''/get''" "rq_QueryKey ?rq \<noteq> []"
    by (simp_all add: ex_get_def)
  have r0: "process_run ex_codecs [] ?p = Some (?p, [])" "list_all undisturbed []" "p_exit ?p = None"
    by (simp_all add: process_of_def)
  note g = served_reads_follow_the_log [OF main ex_main_config _ _ _ _ _ get, where co = ex_codecs]
  have "process_step ex_codecs (PServe False ?rq ex_net ex_view) ?p =
      Some (?p, Some (web_of (ok_json ''v2''), fresh_fx ?p))"
    using g [OF r0, of False ex_net ex_view]
    by (simp add: f ex_rows_kv key_answer_def spec_kv_def go_lookup_def)
  moreover have "process_step ex_codecs (PServe False ?rq ex_net ex_view) q =
      Some (q, Some (web_of (ok_json ''v1''), fresh_fx q))"
    using g [OF r u alive, of False ex_net ex_view] ex_evs_kv
    by (simp add: n f ex_runs key_answer_def go_lookup_def map_add_def)
  ultimately show ?thesis
    using r by blast
qed

text \<open>
  C8: A restarted process serves the log. A process starts on an empty disk and serves, applies and
  writes until it ends, by a kill that loses any rows of its table, or by \<^verbatim>\<open>log.Fatalf\<close> because its
  listener failed, without any of the calls of the graceful shutdown. It is started again, perhaps
  with other flags, on what the disk kept, and raft delivers the log again. Once it has delivered at
  least what the first life had applied, a GET is answered as the log determines; provided that neither life
  installed a snapshot or was shut down by a signal, and that in both each retry came within the
  retention time, by a clock that does not go back.
\<close>

theorem restart_serves_the_log:
  assumes "main_start getenv flg mk Map.empty d dflt oc lag = (cs, Listening p)" and "main_config getenv flg = Some cfg"
    and "process_run co es p = Some (q, outs)" and "list_all undisturbed es"
    and "sorted (event_times (node_events es))"
    and "retry_within (co_unm co) (retention (fsm_dedup (p_fsm p))) (node_events es)"
    and "main_start getenv' flg' mk' disk d' dflt' oc' lag' = (cs', Listening p')" and "main_config getenv' flg' = Some cfg'"
    and "disk (path_Join (nc_DataDir cfg') ''kv.db'') = Some (filter kept (tbl (db (p_fsm q))))"
    and "process_run co es' p' = Some (q', outs')" and "list_all undisturbed es'" and "p_exit q' = None"
    and "sorted (event_times (node_events es'))"
    and "retry_within (co_unm co) (retention (fsm_dedup (p_fsm p'))) (node_events es')"
    and "applied (node_events es') = applied (node_events es) @ ls"
    and "rq_Method rq = ''GET''" and "rq_Path rq = ''/get''" and "rq_QueryKey rq \<noteq> []"
  shows "process_step co (PServe late rq sr vw) q' =
    Some (q', Some (key_answer (co_map co) (spec_kv (co_unm co) (applied (node_events es'))) (rq_QueryKey rq), fresh_fx q'))"
proof -
  let ?t = "filter kept (tbl (db (p_fsm q)))" and ?m = "spec_kv (co_unm co) (applied (node_events es'))"
  note run = started_run [OF assms(7,8,10,11,13,14), unfolded assms(9) createSchema_simps]
  have "r_key ` set ?t \<subseteq> r_key ` holds_rows (p_fsm q)"
    by (auto simp: holds_rows_def)
  also have "\<dots> \<subseteq> dom (spec_kv (co_unm co) (applied (node_events es)))"
    using started_run(2) [OF assms(1-6)] by simp
  also have "\<dots> \<subseteq> dom ?m"
    unfolding assms(15) by (rule dom_spec_kv_append)
  finally have "replay_map ?t ++ ?m = ?m"
    by (intro map_add_covered) (simp add: dom_replay_map)
  then have "kv_data (fsm_kv (p_fsm q')) = ?m"
    using run(1) by simp
  then show ?thesis
    using get_step run(3,4) assms(12,16-18) by blast
qed

definition ex_bind :: proc_event where
  "ex_bind = PListen (Some ''listen tcp 127.0.0.1:8001: bind: address already in use'')"

theorem restart_serves_the_log_witness:
  "\<exists>q outs q' outs'. process_run ex_codecs (ex_requests @ [ex_bind]) ex_process = Some (q, outs)
     \<and> process_run ex_codecs ex_requests (process_of (ex_node (tbl (db (p_fsm q)))) ex_cfg) = Some (q', outs')
     \<and> process_step ex_codecs (PServe False ((ex_get ''/get'')\<lparr>rq_QueryKey := ''k''\<rparr>) ex_net ex_view) q' =
         Some (q', Some (web_of (ok_json ''v1''), fresh_fx q'))"
proof -
  let ?es = "ex_requests @ [ex_bind]"
  obtain q outs where r: "process_run ex_codecs ?es ex_process = Some (q, outs)"
    using process_run_inv [OF started_process(1) [OF ex_main_empty ex_main_config]] by blast
  let ?disk = "\<lambda>path. Some (filter (\<lambda>_. True) (tbl (db (p_fsm q))))"
  let ?p = "process_of (ex_node (tbl (db (p_fsm q)))) ex_cfg"
  have main: "main_start no_env ex_flags (\<lambda>path. None) ?disk no_fault ex_default ex_outcome 0 =
      (boot_calls ex_default ex_cfg, Listening ?p)"
    by (simp add: ex_main_start)
  obtain q' outs' where r': "process_run ex_codecs ex_requests ?p = Some (q', outs')"
    using process_run_inv [OF started_process(1) [OF main ex_main_config]] by blast
  have u: "list_all undisturbed ?es" "list_all undisturbed ex_requests" "p_exit q' = None"
    using exit_by_listener [OF r'] by (auto simp: ex_requests_def ex_bind_def list_all_iff process_of_def)
  have n: "node_events ?es = ex_evs" "node_events ex_requests = ex_evs"
    by (simp_all add: ex_requests_def ex_evs_def ex_bind_def)
  have f: "fsm_dedup (p_fsm (process_of (ex_node t) ex_cfg)) = dedup_New no_env" "co_unm ex_codecs = ex_unm"
    "co_map ex_codecs = (\<lambda>m. go_lookup m ''value'')" for t
    by (simp_all add: process_of_def booted_def ex_codecs_def)
  have "process_step ex_codecs (PServe False ((ex_get ''/get'')\<lparr>rq_QueryKey := ''k''\<rparr>) ex_net ex_view) q' =
      Some (q', Some (key_answer (co_map ex_codecs) (spec_kv (co_unm ex_codecs) (applied (node_events ex_requests)))
        (rq_QueryKey ((ex_get ''/get'')\<lparr>rq_QueryKey := ''k''\<rparr>)), fresh_fx q'))"
    by (rule restart_serves_the_log [OF ex_main_empty ex_main_config r u(1) _ _ main ex_main_config refl r' u(2,3), where ls = "[]"])
      (simp_all add: n f ex_runs ex_get_def)
  moreover have "spec_kv ex_unm (applied ex_evs) ''k'' = Some ''v1''"
    by (rule ex_evs_kv)
  ultimately show ?thesis
    using r r' by (auto simp: n f key_answer_def go_lookup_def)
qed

end
