(* ===== verification/Forwarding.thy ===== *)
theory Forwarding
  imports Prelude Codec Replication Lifecycle
begin

text \<open>
  PUTs across nodes: where a node that does not lead sends a request, how often it can be sent on,
  and what an answer 200 means for the log when it has come through any number of nodes.
\<close>

section \<open>Where the POSTs go\<close>

text \<open>Every POST added between two effects goes to an URL with a property.\<close>

definition posts_to :: "(string \<Rightarrow> bool) \<Rightarrow> effects \<Rightarrow> effects \<Rightarrow> bool" where
  "posts_to P fx fx' \<longleftrightarrow> (\<exists>ps. fx_posts fx' = fx_posts fx @ ps \<and> (\<forall>p \<in> set ps. P (fst p)))"

lemma posts_to_same [simp]: "fx_posts fx' = fx_posts fx \<Longrightarrow> posts_to P fx fx'"
  by (simp add: posts_to_def)

lemma posts_to_trans: "posts_to P fx fx1 \<Longrightarrow> posts_to P fx1 fx2 \<Longrightarrow> posts_to P fx fx2"
  by (fastforce simp: posts_to_def)

lemma posts_to_post: "P url \<Longrightarrow> posts_to P fx (snd (post sr url body fx))"
  by (simp add: posts_to_def post_def)

lemma posts_to_length: "posts_to P fx fx' \<Longrightarrow> length (fx_posts fx) \<le> length (fx_posts fx')"
  by (auto simp: posts_to_def)

lemma posts_to_nth:
  "posts_to P fx fx' \<Longrightarrow> length (fx_posts fx) \<le> i \<Longrightarrow> i < length (fx_posts fx') \<Longrightarrow> P (fst (fx_posts fx' ! i))"
  by (auto simp: posts_to_def nth_append)

lemma fx_posts_simps [simp]:
  "fx_posts (snd (ask sr fx)) = fx_posts fx" "fx_posts (go_sleep d fx) = fx_posts fx"
  by (simp_all add: ask_def go_sleep_def)

lemma post_attempts_to:
  assumes "post_attempts sr addr body as e fx = (err, fx')"
  shows "posts_to (\<lambda>u. u = put_url addr) fx fx'"
    and "as \<noteq> [] \<Longrightarrow> length (fx_posts fx) < length (fx_posts fx')"
proof -
  have "posts_to (\<lambda>u. u = put_url addr) fx fx' \<and> (as \<noteq> [] \<longrightarrow> length (fx_posts fx) < length (fx_posts fx'))"
    using assms
  proof (induction as arbitrary: e fx)
    case (Cons a as)
    define fx1 where "fx1 = (if 0 < a then go_sleep (times_unit (int a * 100) millisecond) fx else fx)"
    obtain ans fx2 where p: "post sr (put_url addr) body fx1 = (ans, fx2)"
      by (cases "post sr (put_url addr) body fx1")
    have f1: "fx_posts fx1 = fx_posts fx"
      by (simp add: fx1_def)
    then have f2: "posts_to (\<lambda>u. u = put_url addr) fx fx2" "length (fx_posts fx2) = Suc (length (fx_posts fx))"
      using p by (auto simp: post_def posts_to_def)
    note step = Cons.prems [unfolded post_attempts.simps Let_def, folded fx1_def, unfolded p prod.case]
    show ?case
    proof (cases ans)
      case (ConnErr x)
      note r = step [unfolded ConnErr http_answer.case]
      show ?thesis
        using posts_to_trans [OF f2(1)] Cons.IH [OF r] posts_to_length [of _ fx2 fx'] f2(2) by fastforce
    next
      case (Answer code b)
      then have "fx' = fx2"
        using step by (auto split: if_splits)
      then show ?thesis using f2 by simp
    qed
  qed simp
  then show "posts_to (\<lambda>u. u = put_url addr) fx fx'" "as \<noteq> [] \<Longrightarrow> length (fx_posts fx) < length (fx_posts fx')"
    by blast+
qed

lemma forwardToLeader_to:
  assumes "forwardToLeader cd sr addr req fx = (err, fx')"
  shows "posts_to (\<lambda>u. u = put_url addr \<and> addr \<noteq> []) fx fx'"
    and "addr \<noteq> [] \<Longrightarrow> cd_enc_put cd req = Inr b \<Longrightarrow> length (fx_posts fx) < length (fx_posts fx')"
proof -
  have "posts_to (\<lambda>u. u = put_url addr \<and> addr \<noteq> []) fx fx'
    \<and> (addr \<noteq> [] \<longrightarrow> cd_enc_put cd req = Inr b \<longrightarrow> length (fx_posts fx) < length (fx_posts fx'))"
  proof (cases "addr = [] \<or> (\<exists>e. cd_enc_put cd req = Inl e)")
    case True
    then show ?thesis
      using assms by (auto simp: forwardToLeader_def split: if_splits)
  next
    case False
    then obtain body where r: "post_attempts sr addr body [0..<maxForwardRetries] None fx = (err, fx')"
      using assms by (cases "cd_enc_put cd req") (auto simp: forwardToLeader_def)
    show ?thesis
      using post_attempts_to [OF r] False by (auto simp: posts_to_def maxForwardRetries_def)
  qed
  then show "posts_to (\<lambda>u. u = put_url addr \<and> addr \<noteq> []) fx fx'"
    and "addr \<noteq> [] \<Longrightarrow> cd_enc_put cd req = Inr b \<Longrightarrow> length (fx_posts fx) < length (fx_posts fx')"
    by blast+
qed

text \<open>The addresses a node knows of the leaders that raft names to it.\<close>

definition leader_url :: "surroundings \<Rightarrow> Server \<Rightarrow> string \<Rightarrow> bool" where
  "leader_url sr s u \<longleftrightarrow>
     (\<exists>i. LeaderHTTPAddr (sr_leader sr i) (sv_peers s) (sv_httpAddrs s) \<noteq> []
        \<and> u = put_url (LeaderHTTPAddr (sr_leader sr i) (sv_peers s) (sv_httpAddrs s)))"

lemma posts_to_mono: "posts_to P fx fx' \<Longrightarrow> (\<And>u. P u \<Longrightarrow> Q u) \<Longrightarrow> posts_to Q fx fx'"
  by (auto simp: posts_to_def)

lemma forward_loop_to:
  assumes "forward_loop cd sr s req is fx = (rs, fx')"
  shows "posts_to (leader_url sr s) fx fx'"
  using assms
proof (induction "is" arbitrary: fx)
  case (Cons i rest)
  let ?fx2 = "snd (ask sr (snd (ask sr fx)))"
  let ?addr = "LeaderHTTPAddr (fst (ask sr fx)) (sv_peers s) (sv_httpAddrs s)"
  show ?case
  proof (cases "?addr = []")
    case True
    then have "forward_loop cd sr s req rest (go_sleep (times_unit 150 millisecond) ?fx2) = (rs, fx') \<or> fx' = ?fx2"
      using Cons.prems by (auto simp: split_beta Let_def split: if_splits)
    then show ?thesis
      using Cons.IH posts_to_trans [of _ fx "go_sleep (times_unit 150 millisecond) ?fx2" fx'] by fastforce
  next
    case False
    obtain err fx3 where F: "forwardToLeader cd sr ?addr req ?fx2 = (err, fx3)"
      by (cases "forwardToLeader cd sr ?addr req ?fx2")
    have "posts_to (leader_url sr s) ?fx2 fx3"
      by (rule posts_to_mono [OF forwardToLeader_to(1) [OF F]]) (auto simp: leader_url_def ask_def)
    then have f3: "posts_to (leader_url sr s) fx fx3"
      by (simp add: posts_to_def)
    have "forward_loop cd sr s req rest (go_sleep (times_unit 100 millisecond) fx3) = (rs, fx') \<or> fx' = fx3"
      using Cons.prems False F by (auto simp: split_beta Let_def split: if_splits option.splits)
    then show ?thesis
      using Cons.IH f3 posts_to_trans [OF f3, of "go_sleep (times_unit 100 millisecond) fx3"]
        posts_to_trans [of _ fx "go_sleep (times_unit 100 millisecond) fx3" fx'] by fastforce
  qed
qed simp

lemma forward_loop_posts:
  assumes "forward_loop cd sr s req (i # is) fx = (rs, fx')" and "cd_enc_put cd req = Inr b"
    and "LeaderHTTPAddr (sr_leader sr (fx_asked fx)) (sv_peers s) (sv_httpAddrs s) \<noteq> []"
  shows "length (fx_posts fx) < length (fx_posts fx')"
proof -
  let ?fx2 = "snd (ask sr (snd (ask sr fx)))"
  let ?addr = "LeaderHTTPAddr (fst (ask sr fx)) (sv_peers s) (sv_httpAddrs s)"
  have a: "?addr \<noteq> []" using assms(3) by (simp add: ask_def)
  obtain err fx3 where F: "forwardToLeader cd sr ?addr req ?fx2 = (err, fx3)"
    by (cases "forwardToLeader cd sr ?addr req ?fx2")
  have l: "length (fx_posts fx) < length (fx_posts fx3)"
    using forwardToLeader_to(2) [OF F a assms(2)] by simp
  have "forward_loop cd sr s req is (go_sleep (times_unit 100 millisecond) fx3) = (rs, fx') \<or> fx' = fx3"
    using assms(1) a F by (auto simp: split_beta Let_def split: if_splits option.splits)
  then show ?thesis
    using l posts_to_length [OF forward_loop_to, of cd sr s req "is" _ rs fx'] by fastforce
qed

lemma handlePut_to:
  assumes "handlePut cd sr s rq fx = Some (rs, fx')"
  shows "posts_to (leader_url sr s) fx fx'"
  using assms
proof (cases rule: handlePut_cases)
  case (body fx1 t)
  from body(3) have "posts_to (leader_url sr s) (fx\<lparr>fx_sem := fx_sem fx + 1\<rparr>) fx1"
  proof (cases rule: put_body_cases)
    case (follower req)
    show ?thesis
      using forward_loop_to [OF follower(3) [unfolded forwardWithRetry_def]] by (simp add: posts_to_def)
  next
    case (lost req data)
    show ?thesis
      using forward_loop_to [OF lost(5) [unfolded forwardWithRetry_def]] by (simp add: posts_to_def)
  qed simp_all
  then show ?thesis
    using body(5) by (simp add: posts_to_def)
qed simp

section \<open>How often a request is sent on\<close>

text \<open>A node of the default cluster, and the request another node receives by a POST.\<close>

definition member_of_cluster :: "string \<Rightarrow> Server \<Rightarrow> bool" where
  "member_of_cluster n s \<longleftrightarrow>
     rn_NodeID (sv_node s) = n \<and> sv_peers s = DefaultClusterPeers \<and> sv_httpAddrs s = main_httpAddrs"

definition post_request :: "string \<Rightarrow> Request" where
  "post_request b = \<lparr>rq_Method = ''POST'', rq_QueryKey = [], rq_Body = b\<rparr>"

definition received :: "string \<times> string \<Rightarrow> string \<Rightarrow> Request \<Rightarrow> bool" where
  "received p n rq \<longleftrightarrow> (\<exists>a. main_httpAddrs n = Some a \<and> fst p = put_url a) \<and> rq = post_request (snd p)"

text \<open>
  Node and request of one hop, while each node \<open>n\<close> is told by raft that \<open>view n\<close> leads, and no node
  loses its leadership while it proposes.
\<close>

inductive forwards ::
    "(string \<Rightarrow> string) \<Rightarrow> (string \<Rightarrow> string) \<Rightarrow> string \<times> Request \<Rightarrow> string \<times> Request \<Rightarrow> bool" for errt view where
  hop: "handlePut (json_codec errt) sr s rq fx = Some (rs, fx') \<Longrightarrow> member_of_cluster n s \<Longrightarrow>
    \<forall>i. fst (sr_leader sr i) \<noteq> [] \<and> snd (sr_leader sr i) = view n \<Longrightarrow> sr_future sr = None \<Longrightarrow>
    length (fx_posts fx) \<le> i \<Longrightarrow> i < length (fx_posts fx') \<Longrightarrow> received (fx_posts fx' ! i) n' rq' \<Longrightarrow>
    forwards errt view (n, rq) (n', rq')"

inductive_cases forwardsE: "forwards errt view (n, rq) (n', rq')"

lemma put_url_inject: "put_url a = put_url b \<longleftrightarrow> a = b"
  by (simp add: put_url_def)

lemma addrs_inject: "main_httpAddrs n = Some a \<Longrightarrow> main_httpAddrs m = Some a \<Longrightarrow> n = m"
  by (auto simp: main_httpAddrs_def split: if_split_asm)

lemma addrs_nonempty: "main_httpAddrs n \<noteq> Some []"
  by (simp add: main_httpAddrs_def)

lemma LeaderHTTPAddr_iff:
  "fst ld \<noteq> [] \<Longrightarrow> LeaderHTTPAddr ld peers main_httpAddrs = a \<and> a \<noteq> [] \<longleftrightarrow> main_httpAddrs (snd ld) = Some a"
  using addrs_nonempty [of "snd ld"] by (auto simp: LeaderHTTPAddr_def go_lookup_def split: option.split)

lemma leader_url_member:
  assumes "member_of_cluster n s" and "\<forall>i. fst (sr_leader sr i) \<noteq> [] \<and> snd (sr_leader sr i) = l" and "leader_url sr s u"
  shows "\<exists>a. main_httpAddrs l = Some a \<and> u = put_url a"
proof -
  obtain i where i: "LeaderHTTPAddr (sr_leader sr i) (sv_peers s) main_httpAddrs \<noteq> []"
      "u = put_url (LeaderHTTPAddr (sr_leader sr i) (sv_peers s) main_httpAddrs)"
    using assms(1,3) by (auto simp: leader_url_def member_of_cluster_def)
  then show ?thesis
    using LeaderHTTPAddr_iff [of "sr_leader sr i" "sv_peers s"] assms(2) by metis
qed

text \<open>A leader that does not lose its leadership posts nothing.\<close>

lemma leader_posts_nothing:
  assumes "handlePut cd sr s rq fx = Some (rs, fx')" and "sr_future sr = None"
    and "\<forall>i. IsLeader (sr_leader sr i) (sv_node s)"
  shows "fx_posts fx' = fx_posts fx"
  using assms(1)
proof (cases rule: handlePut_cases)
  case (body fx1 t)
  from body(3) show ?thesis
    by (cases rule: put_body_cases) (use body(5) assms(2,3) in auto)
qed simp

lemma follower_posts:
  assumes "handlePut (json_codec errt) sr s rq fx = Some (rs, fx')" and "valid_put (json_codec errt) rq req"
    and "rq_Method rq = ''POST''" and "sr_slot sr" and "\<forall>i. \<not> IsLeader (sr_leader sr i) (sv_node s)"
    and "\<forall>i. LeaderHTTPAddr (sr_leader sr i) (sv_peers s) (sv_httpAddrs s) \<noteq> []"
  shows "length (fx_posts fx) < length (fx_posts fx')"
  using assms(1)
proof (cases rule: handlePut_cases)
  case (body fx1 t)
  from body(3) show ?thesis
  proof (cases rule: put_body_cases)
    case (follower req')
    have t: "[0..<forward_tries] = 0 # [1, 2]"
      by (simp add: forward_tries_def upt_rec)
    show ?thesis
      using forward_loop_posts [OF follower(3) [unfolded forwardWithRetry_def t], of "Marshal_PutRequest req'"]
        assms(6) body(5) by simp
  qed (use assms(2,5) body in \<open>auto simp: valid_put_def\<close>)
qed (use assms in simp)

lemma forwarded_valid:
  "valid_put (json_codec errt) rq req \<Longrightarrow> valid_put (json_codec errt') (post_request (Marshal_PutRequest req)) req"
  using Decode_ok [of errt "rq_Body rq" req] Decode_Marshal [of errt' req "[]"]
  by (simp add: valid_put_def post_request_def valid_PutRequest_iff [THEN iffD2])

lemma forwardsD:
  assumes "valid_put (json_codec errt) rq req" and "rq_Method rq = ''POST''" and "forwards errt view (n, rq) (n', rq')"
  shows "view n = n' \<and> n' \<noteq> n \<and> n' \<in> dom main_httpAddrs \<and> rq' = post_request (Marshal_PutRequest req)"
proof -
  obtain sr s fx rs fx' i where h: "handlePut (json_codec errt) sr s rq fx = Some (rs, fx')" "member_of_cluster n s"
      "\<forall>i. fst (sr_leader sr i) \<noteq> [] \<and> snd (sr_leader sr i) = view n" "sr_future sr = None"
      "length (fx_posts fx) \<le> i" "i < length (fx_posts fx')" "received (fx_posts fx' ! i) n' rq'"
    using assms(3) by (rule forwardsE)
  have "leader_url sr s (fst (fx_posts fx' ! i))"
    using posts_to_nth [OF handlePut_to [OF h(1)] h(5,6)] .
  then obtain a where "main_httpAddrs (view n) = Some a" "fst (fx_posts fx' ! i) = put_url a"
    using leader_url_member [OF h(2,3)] by blast
  then have v: "view n = n'" "n' \<in> dom main_httpAddrs"
    using h(7) addrs_inject [of "view n" a n'] by (auto simp: received_def put_url_inject)
  moreover have "n' \<noteq> n"
  proof
    assume "n' = n"
    then have "\<forall>i. IsLeader (sr_leader sr i) (sv_node s)"
      using h(2,3) v(1) by (simp add: IsLeader_def member_of_cluster_def)
    then show False
      using leader_posts_nothing [OF h(1,4)] h(5,6) by simp
  qed
  moreover have "rq' = post_request (Marshal_PutRequest req)"
    using handlePut_json(1) [OF h(1) valid_put_json [OF assms(1)]] h(5-7)
    by (auto simp: received_def nth_append)
  ultimately show ?thesis
    by simp
qed

text \<open>A node that is told of another leader does send the request there.\<close>

lemma forwardsI:
  assumes "valid_put (json_codec errt) rq req" and "rq_Method rq = ''POST''"
    and "view n = n'" and "n' \<noteq> n" and "n' \<in> dom main_httpAddrs"
  shows "forwards errt view (n, rq) (n', post_request (Marshal_PutRequest req))"
proof -
  obtain a where a: "main_httpAddrs n' = Some a"
    using assms(5) by blast
  define sr where "sr = ex_net\<lparr>sr_leader := (\<lambda>i. (''raft'', n'))\<rparr>"
  define s where "s = ex_server n"
  have s: "member_of_cluster n s"
    by (simp add: s_def ex_server_def member_of_cluster_def)
  have sr: "\<forall>i. fst (sr_leader sr i) \<noteq> [] \<and> snd (sr_leader sr i) = view n" "sr_future sr = None" "sr_slot sr"
    using assms(3) by (simp_all add: sr_def ex_net_def)
  obtain rs fx' where h: "handlePut (json_codec errt) sr s rq ex_fx = Some (rs, fx')"
    using put_latency_recorded [OF ex_lat(1)] by blast
  have ld: "\<forall>i. \<not> IsLeader (sr_leader sr i) (sv_node s)"
    "\<forall>i. LeaderHTTPAddr (sr_leader sr i) (sv_peers s) (sv_httpAddrs s) = a \<and> a \<noteq> []"
    using assms(4) s a LeaderHTTPAddr_iff [of "(''raft'', n')" "sv_peers s" a]
    by (auto simp: sr_def IsLeader_def member_of_cluster_def)
  have len: "length (fx_posts ex_fx) < length (fx_posts fx')"
    using follower_posts [OF h assms(1,2) sr(3) ld(1)] ld(2) by simp
  then have i: "length (fx_posts ex_fx) \<le> 0" "0 < length (fx_posts fx')"
    by (simp_all add: ex_fx_def)
  have "leader_url sr s (fst (fx_posts fx' ! 0))"
    using posts_to_nth [OF handlePut_to [OF h] i] .
  then have "fst (fx_posts fx' ! 0) = put_url a"
    using ld(2) by (simp add: leader_url_def)
  moreover have "snd (fx_posts fx' ! 0) = Marshal_PutRequest req"
    using handlePut_json(1) [OF h valid_put_json [OF assms(1)]] i by (auto simp: nth_append)
  ultimately have "received (fx_posts fx' ! 0) n' (post_request (Marshal_PutRequest req))"
    using a by (auto simp: received_def)
  then show ?thesis
    by (rule forwards.hop [where view = view, OF h s sr(1,2) i])
qed

lemma forwards_iff:
  assumes "valid_put (json_codec errt) rq req" and "rq_Method rq = ''POST''"
  shows "forwards errt view (n, rq) (n', rq') \<longleftrightarrow>
    view n = n' \<and> n' \<noteq> n \<and> n' \<in> dom main_httpAddrs \<and> rq' = post_request (Marshal_PutRequest req)"
  using forwardsD [OF assms] forwardsI [OF assms] by blast

text \<open>The nodes a request visits: each step goes to the leader the node is told of.\<close>

lemma chain_follows_view:
  assumes "valid_put (json_codec errt) rq req" and "rq_Method rq = ''POST''"
    and "chain 0 = (n, rq)" and "\<forall>i. forwards errt view (chain i) (chain (Suc i))"
  shows "fst (chain i) = (view ^^ i) n \<and> valid_put (json_codec errt) (snd (chain i)) req
    \<and> rq_Method (snd (chain i)) = ''POST''
    \<and> fst (chain (Suc i)) \<noteq> fst (chain i) \<and> fst (chain (Suc i)) \<in> dom main_httpAddrs"
proof (induction i)
  case 0
  then show ?case
    using assms(4) [rule_format, of 0] forwards_iff [OF assms(1,2), of view n "fst (chain 1)" "snd (chain 1)"] assms
    by simp
next
  case (Suc i)
  obtain x r y r' z r'' where c: "chain i = (x, r)" "chain (Suc i) = (y, r')" "chain (Suc (Suc i)) = (z, r'')"
    by (metis prod.exhaust)
  have "forwards errt view (x, r) (y, r')" "forwards errt view (y, r') (z, r'')"
    using assms(4) c by metis+
  moreover have "valid_put (json_codec errt) r req" "rq_Method r = ''POST''" "x = (view ^^ i) n"
    using Suc c by simp_all
  ultimately show ?case
    using forwards_iff [of errt r req view x y r'] forwards_iff [of errt r' req view y z r''] forwarded_valid [of errt r req errt] c
    by (simp add: post_request_def)
qed

section \<open>Properties\<close>

text \<open>
  C26: Forwarding ends exactly when the views of the leader lead somewhere. A valid request can be sent
  on for ever if and only if following from node to node the leader each is told of never comes to a
  node that takes itself for the leader, nor to one that is not in the cluster. So it stops after
  one hop when all nodes are told the same leader; and when two are told of each other they send it
  back and forth without end, since a request carries no count of its hops.
\<close>

theorem forwarding_ends_iff:
  assumes "valid_put (json_codec errt) rq req" and "rq_Method rq = ''POST''"
  shows "(\<exists>chain. chain 0 = (n, rq) \<and> (\<forall>i. forwards errt view (chain i) (chain (Suc i)))) \<longleftrightarrow>
    (\<forall>i. (view ^^ Suc i) n \<noteq> (view ^^ i) n \<and> (view ^^ Suc i) n \<in> dom main_httpAddrs)"
  (is "?L \<longleftrightarrow> ?R")
proof
  assume ?L
  then obtain chain where c: "chain 0 = (n, rq)" "\<forall>i. forwards errt view (chain i) (chain (Suc i))"
    by blast
  then show ?R
    using chain_follows_view [OF assms c] by metis
next
  assume r: ?R
  let ?chain = "\<lambda>i. ((view ^^ i) n, if i = 0 then rq else post_request (Marshal_PutRequest req))"
  have "forwards errt view (?chain i) (?chain (Suc i))" for i
  proof -
    have "valid_put (json_codec errt) (snd (?chain i)) req" "rq_Method (snd (?chain i)) = ''POST''"
      using assms forwarded_valid [OF assms(1)] by (simp_all add: post_request_def)
    from forwards_iff [OF this, of view "(view ^^ i) n" "(view ^^ Suc i) n"] show ?thesis
      using r by simp
  qed
  then show ?L
    by (intro exI [of _ ?chain]) simp
qed

text \<open>With one leader for all the chain ends; two nodes told of each other keep it going.\<close>

lemma ex_json_post: "rq_Method ex_json_rq = ''POST''"
  by (simp add: ex_json_rq_def ex_rq_def)

definition ex_views :: "string \<Rightarrow> string" where
  "ex_views n = (if n = ''node1'' then ''node2'' else ''node1'')"

lemma ex_views_iter: "(ex_views ^^ i) ''node1'' = (if even i then ''node1'' else ''node2'')"
  by (induction i) (simp_all add: ex_views_def)

theorem forwarding_ends_iff_witness:
  "\<not> (\<exists>chain. chain 0 = (''node2'', ex_json_rq) \<and> (\<forall>i. forwards ex_text (\<lambda>n. ''node3'') (chain i) (chain (Suc i))))
   \<and> (\<exists>chain. chain 0 = (''node1'', ex_json_rq) \<and> (\<forall>i. forwards ex_text ex_views (chain i) (chain (Suc i))))"
proof
  have v: "valid_put (json_codec ex_text) ex_json_rq ex_json_req"
    using ex_json_decoded by (simp add: valid_put_def ex_json_req_def)
  note iff = forwarding_ends_iff [OF v ex_json_post]
  have "((\<lambda>n. ''node3'') ^^ Suc 1) ''node2'' = ((\<lambda>n. ''node3'') ^^ 1) ''node2''"
    by simp
  then show "\<not> (\<exists>chain. chain 0 = (''node2'', ex_json_rq) \<and> (\<forall>i. forwards ex_text (\<lambda>n. ''node3'') (chain i) (chain (Suc i))))"
    unfolding iff by blast
  show "\<exists>chain. chain 0 = (''node1'', ex_json_rq) \<and> (\<forall>i. forwards ex_text ex_views (chain i) (chain (Suc i)))"
    unfolding iff ex_views_iter by (simp add: main_httpAddrs_def)
qed

end
