(* ===== verification/EndToEnd.thy ===== *)
theory EndToEnd
  imports Prelude Forwarding "HOL-Library.Sublist"
begin

text \<open>
  A PUT through the whole system: a client's request that any node answers, by itself or by sending
  it on, and what the log and the nodes hold afterwards.
\<close>

section \<open>The first put of an idempotency key\<close>






section \<open>Answers\<close>





section \<open>Properties\<close>


section \<open>An instance\<close>










end
