(* ===== verification/Url.thy ===== *)
theory Url
  imports Prelude Router Lifecycle
begin

text \<open>
  The query of a request: \<^verbatim>\<open>url.ParseQuery\<close> and \<^verbatim>\<open>Values.Get\<close> of the Go standard library, through which
  \<^verbatim>\<open>handleGet\<close> of \<^verbatim>\<open>server/http.go\<close> reads the key, and \<^verbatim>\<open>url.QueryEscape\<close>, with which clients write it.
\<close>

section \<open>Escapes\<close>

definition hex_value :: "char \<Rightarrow> nat option" where
  "hex_value c =
     (let n = byte c
      in if 48 \<le> n \<and> n \<le> 57 then Some (n - 48)
         else if 97 \<le> n \<and> n \<le> 102 then Some (n - 87)
         else if 65 \<le> n \<and> n \<le> 70 then Some (n - 55)
         else None)"

text \<open>\<^verbatim>\<open>QueryUnescape\<close>; \<open>None\<close> is an invalid escape.\<close>

fun QueryUnescape :: "string \<Rightarrow> string option" where
  "QueryUnescape [] = Some []"
| "QueryUnescape (c # s) =
     (if c = CHR ''%'' then
        (case s of
           a # b # t \<Rightarrow>
             (case (hex_value a, hex_value b, QueryUnescape t) of
                (Some x, Some y, Some u) \<Rightarrow> Some (char_of (16 * x + y) # u)
              | _ \<Rightarrow> None)
         | _ \<Rightarrow> None)
      else if c = CHR ''+'' then map_option (Cons (CHR 0x20)) (QueryUnescape s)
      else map_option (Cons c) (QueryUnescape s))"

definition upper_hex :: "nat \<Rightarrow> char" where
  "upper_hex n = (if n < 10 then char_of (48 + n) else char_of (55 + n))"

definition unreserved :: "char \<Rightarrow> bool" where
  "unreserved c \<longleftrightarrow>
     (let n = byte c
      in 48 \<le> n \<and> n \<le> 57 \<or> 65 \<le> n \<and> n \<le> 90 \<or> 97 \<le> n \<and> n \<le> 122
         \<or> c = CHR ''-'' \<or> c = CHR ''_'' \<or> c = CHR ''.'' \<or> c = CHR ''~'')"

definition escape_char :: "char \<Rightarrow> string" where
  "escape_char c =
     (if c = CHR 0x20 then ''+''
      else if unreserved c then [c]
      else [CHR ''%'', upper_hex (byte c div 16), upper_hex (byte c mod 16)])"

definition QueryEscape :: "string \<Rightarrow> string" where
  "QueryEscape s = concat (map escape_char s)"

section \<open>Parsing\<close>

text \<open>\<^verbatim>\<open>strings.Cut\<close> at the first occurrence of a character.\<close>

definition cut :: "char \<Rightarrow> string \<Rightarrow> string \<times> string" where
  "cut c s = (takeWhile (\<lambda>x. x \<noteq> c) s, tl (dropWhile (\<lambda>x. x \<noteq> c) s))"

lemma cut_shorter:
  assumes "s \<noteq> []"
  shows "length (snd (cut c s)) < length s"
proof -
  have "length (tl s') < length s" if "length s' \<le> length s" for s' :: string
    using that assms by (cases s') auto
  then show ?thesis
    by (simp add: cut_def length_dropWhile_le)
qed

text \<open>One setting between two \<^verbatim>\<open>&\<close>; those that are malformed are skipped.\<close>

definition setting :: "string \<Rightarrow> (string \<times> string) option" where
  "setting s =
     (if CHR '';'' \<in> set s \<or> s = [] then None
      else case (QueryUnescape (fst (cut (CHR ''='') s)), QueryUnescape (snd (cut (CHR ''='') s))) of
             (Some k, Some v) \<Rightarrow> Some (k, v)
           | _ \<Rightarrow> None)"

function ParseQuery :: "string \<Rightarrow> (string \<times> string) list" where
  "ParseQuery query =
     (if query = [] then []
      else let rest = ParseQuery (snd (cut (CHR ''&'') query))
           in case setting (fst (cut (CHR ''&'') query)) of
                None \<Rightarrow> rest
              | Some kv \<Rightarrow> kv # rest)"
  by pat_completeness auto
termination
  by (relation "measure length") (simp_all add: cut_shorter)

declare ParseQuery.simps [simp del]

text \<open>\<^verbatim>\<open>r.URL.Query().Get(name)\<close>: the first value, or the empty string.\<close>

definition Query_Get :: "string \<Rightarrow> string \<Rightarrow> string" where
  "Query_Get name query = (case map_of (ParseQuery query) name of Some v \<Rightarrow> v | None \<Rightarrow> [])"

definition with_query :: "string \<Rightarrow> 'a Request_scheme \<Rightarrow> 'a Request_scheme" where
  "with_query query rq = rq\<lparr>rq_QueryKey := Query_Get ''key'' query\<rparr>"

section \<open>What is escaped is read back\<close>

lemma hex_value_upper: "n < 16 \<Longrightarrow> hex_value (upper_hex n) = Some n"
  by (auto simp: hex_value_def upper_hex_def Let_def of_char_of take_bit_eq_mod)

lemma byte_bound: "byte c < 256"
  by (cases c) (simp add: of_char_def horner_sum_simps)

lemma unescape_char: "QueryUnescape (escape_char c @ s) = map_option (Cons c) (QueryUnescape s)"
proof -
  have "\<not> unreserved (CHR ''%'')" "\<not> unreserved (CHR ''+'')" "CHR ''+'' \<noteq> CHR ''%''"
    by (simp_all add: unreserved_def)
  moreover have "char_of (byte c) = c"
    by simp
  moreover have "16 * (byte c div 16) + byte c mod 16 = byte c"
    by simp
  moreover have "byte c div 16 < 16" "byte c mod 16 < 16"
    using byte_bound [of c] by (simp_all add: less_mult_imp_div_less)
  ultimately show ?thesis
    by (cases "QueryUnescape s") (auto simp: escape_char_def hex_value_upper simp del: char_of_char split: if_split)
qed

lemma QueryUnescape_Escape: "QueryUnescape (QueryEscape s) = Some s"
  by (induction s) (simp_all add: QueryEscape_def unescape_char)

text \<open>Escaped text has none of the characters the parser cuts at.\<close>

lemma upper_hex_range: "n < 16 \<Longrightarrow> 48 \<le> byte (upper_hex n) \<and> byte (upper_hex n) \<le> 70 \<and> byte (upper_hex n) \<notin> {59, 61}"
  by (auto simp: upper_hex_def of_char_of take_bit_eq_mod)

lemma escape_plain:
  assumes "x \<in> set (QueryEscape s)"
  shows "x \<noteq> CHR ''&''" "x \<noteq> CHR ''='' " "x \<noteq> CHR '';''"
proof -
  obtain c where x: "x \<in> set (escape_char c)"
    using assms by (auto simp: QueryEscape_def)
  have h: "byte c div 16 < 16" "byte c mod 16 < 16"
    using byte_bound [of c] by (simp_all add: less_mult_imp_div_less)
  have "x \<noteq> CHR ''&'' \<and> x \<noteq> CHR ''='' \<and> x \<noteq> CHR '';''"
    using x upper_hex_range [OF h(1)] upper_hex_range [OF h(2)]
    by (auto simp: escape_char_def unreserved_def split: if_split_asm)
  then show "x \<noteq> CHR ''&''" "x \<noteq> CHR ''='' " "x \<noteq> CHR '';''"
    by blast+
qed

lemma QueryEscape_settings: "t = [] \<or> hd t = CHR ''&'' \<Longrightarrow> cut (CHR ''&'') (''key='' @ QueryEscape k @ t) = (''key='' @ QueryEscape k, tl t)"
proof -
  assume t: "t = [] \<or> hd t = CHR ''&''"
  have "\<forall>x \<in> set (''key='' @ QueryEscape k). x \<noteq> CHR ''&''"
    using escape_plain(1) by auto
  then have "takeWhile (\<lambda>x. x \<noteq> CHR ''&'') ((''key='' @ QueryEscape k) @ t) = ''key='' @ QueryEscape k
    \<and> dropWhile (\<lambda>x. x \<noteq> CHR ''&'') ((''key='' @ QueryEscape k) @ t) = t"
    using t by (subst takeWhile_append2, blast, subst dropWhile_append2, blast) (cases t; simp)
  then show ?thesis
    by (simp add: cut_def)
qed

lemma setting_key: "setting (''key='' @ QueryEscape k) = Some (''key'', k)"
proof -
  have "CHR '';'' \<notin> set (QueryEscape k)"
    using escape_plain(3) by blast
  then show ?thesis
    by (simp add: setting_def cut_def QueryUnescape_Escape)
qed

lemma Query_Get_key: "t = [] \<or> hd t = CHR ''&'' \<Longrightarrow> Query_Get ''key'' (''key='' @ QueryEscape k @ t) = k"
  by (simp add: Query_Get_def ParseQuery.simps [of "''key='' @ QueryEscape k @ t"] QueryEscape_settings setting_key
      del: append_Cons)

section \<open>Properties\<close>

lemma serve_get:
  assumes "rq_Method rq = ''GET''" and "rq_Path rq = ''/get''"
  shows "serve cd enc encs sr vw (s, routes) (with_query q rq) fx =
    Some (web_of (handleGet enc s \<lparr>rq_Method = ''GET'', rq_QueryKey = Query_Get ''key'' q, rq_Body = rq_Body rq\<rparr>), fx)"
  using find_route [of "''/get''" HGet "''GET''"] assms
  by (simp add: serve_def routes_def Let_def Request.truncate_def with_query_def)

text \<open>
  C22: A value can be fetched by its URL. A client that asks any node, in any state of its life, for
  \<^verbatim>\<open>/get?key=\<close> followed by its key as \<^verbatim>\<open>url.QueryEscape\<close> writes it, and by any further settings,
  is answered 200 with JSON in which it reads exactly its key and the value the node holds, or 404
  when the node holds none; whatever bytes the key has. A query that gives no key, or only settings
  with broken escapes or semicolons, is answered 400.
\<close>

theorem get_by_url:
  assumes "node_reach errt f" and "sv_kv s = fsm_kv f" and "\<forall>m. finite (dom m) \<longrightarrow> enumerates (rng m) m"
    and "k \<noteq> []" and "t = [] \<or> hd t = CHR ''&''" and "rq_Method rq = ''GET''" and "rq_Path rq = ''/get''"
  shows "(\<exists>w. serve cd (Encode_map rng) encs sr vw (s, routes) (with_query (''key='' @ QueryEscape k @ t) rq) fx = Some (w, fx)
      \<and> (case kv_data (fsm_kv f) k of
           Some v \<Rightarrow> web_Status w = 200 \<and> Decode_map errt' (web_Body w) = Inr [''key'' \<mapsto> k, ''value'' \<mapsto> v]
         | None \<Rightarrow> web_Status w = 404))
    \<and> (\<exists>w. serve cd (Encode_map rng) encs sr vw (s, routes) (with_query q rq) fx = Some (w, fx)
      \<and> (list_all (\<lambda>(name, v). name = ''key'' \<longrightarrow> v = []) (ParseQuery q) \<longrightarrow> web_Status w = 400))"
proof
  show "\<exists>w. serve cd (Encode_map rng) encs sr vw (s, routes) (with_query (''key='' @ QueryEscape k @ t) rq) fx = Some (w, fx)
      \<and> (case kv_data (fsm_kv f) k of
           Some v \<Rightarrow> web_Status w = 200 \<and> Decode_map errt' (web_Body w) = Inr [''key'' \<mapsto> k, ''value'' \<mapsto> v]
         | None \<Rightarrow> web_Status w = 404)"
    using get_gives_back [OF assms(1-4) refl, of "rq_Body rq" errt']
    unfolding serve_get [OF assms(6,7)] Query_Get_key [OF assms(5)]
    by (auto simp: web_of_def split: option.splits)
  have "Query_Get ''key'' q = []" if "list_all (\<lambda>(name, v). name = ''key'' \<longrightarrow> v = []) (ParseQuery q)"
    using that map_of_SomeD [of "ParseQuery q" "''key''"]
    by (auto simp: Query_Get_def list_all_iff split: option.split)
  then show "\<exists>w. serve cd (Encode_map rng) encs sr vw (s, routes) (with_query q rq) fx = Some (w, fx)
      \<and> (list_all (\<lambda>(name, v). name = ''key'' \<longrightarrow> v = []) (ParseQuery q) \<longrightarrow> web_Status w = 400)"
    unfolding serve_get [OF assms(6,7)] by (simp add: handleGet_def http_Error_def)
qed

theorem get_by_url_witness:
  "\<exists>w. serve (json_codec ex_text) (Encode_map ordered) (\<lambda>sn. []) ex_net ex_view
      ((ex_server ''node1'')\<lparr>sv_kv := fsm_kv ex_lived\<rparr>, routes) (with_query ''key=k&x=%'' (ex_get ''/get'')) ex_fx = Some (w, ex_fx)
    \<and> web_Status w = 200 \<and> Decode_map ex_text (web_Body w) = Inr [''key'' \<mapsto> ''k'', ''value'' \<mapsto> ''<v>'']"
proof -
  have kv: "kv_data (fsm_kv ex_lived) ''k'' = Some ''<v>''"
    using ex_json_unmarshals [of ex_text]
    by (simp add: ex_lived_def ex_life_def Apply_put IsDuplicate_def dedup_New_def put_command_def ex_json_req_def
        ex_at_def)
  have q: "''key='' @ QueryEscape ''k'' @ ''&x=%'' = ''key=k&x=%''"
    by (simp add: QueryEscape_def escape_char_def unreserved_def)
  have "\<forall>m. finite (dom m) \<longrightarrow> enumerates (ordered m) m"
    using ordered_enumerates by blast
  note g = get_by_url [OF ex_lived_reach _ this, where s = "(ex_server ''node1'')\<lparr>sv_kv := fsm_kv ex_lived\<rparr>" and k = "''k''"
      and t = "''&x=%''" and rq = "ex_get ''/get''" and errt' = ex_text and cd = "json_codec ex_text" and encs = "\<lambda>sn. []"
      and sr = ex_net and vw = ex_view and fx = ex_fx]
  show ?thesis
    using g [unfolded q] kv by (simp add: ex_get_def)
qed

end
