(* ===== verification/Snapshots.thy ===== *)
theory Snapshots
  imports Prelude Replication Lifecycle EndToEnd
begin

text \<open>
  A cluster with snapshots. Nodes persist the bytes of snapshots, and install those of others or, after
  a restart, their own; raft then delivers them the log from the index of the snapshot on. Whether
  every node that was delivered everything holds the same map depends on what it met, and what the
  snapshots it installed were taken from. A node is \<^emph>\<open>disciplined\<close> as long as each retry came within
  the retention time, no entry it was delivered repeats a put that it only knows through a
  snapshot, and the snapshots were \<^emph>\<open>orderly\<close>: taken by a disciplined node with nothing in its
  queues, whose database had answered every call since it started on an empty disk. All this is read
  off the log, the clock, the answers of the database and the queues; that the dedup store then knows the
  retries, and the snapshots are the maps of their takers, is proved.
\<close>

section \<open>What is left of the log\<close>

text \<open>The idempotency keys a log has applied, and the writes that the entries from \<open>p\<close> on contribute.\<close>

definition keys_at :: "unmarshal \<Rightarrow> raft_Log list \<Rightarrow> string set" where
  "keys_at unm ls = fst (fold spec_step (decoded unm ls) ({}, Map.empty))"

definition left_writes :: "unmarshal \<Rightarrow> raft_Log list \<Rightarrow> nat \<Rightarrow> (string \<times> string) list" where
  "left_writes unm ls p = map cmd_kv (first_puts (keys_at unm (take p ls)) (decoded unm (drop p ls)))"

text \<open>A map from which the rest of the log leads to what the whole log determines.\<close>

definition on_course :: "unmarshal \<Rightarrow> raft_Log list \<Rightarrow> nat \<Rightarrow> (string \<rightharpoonup> string) \<Rightarrow> bool" where
  "on_course unm ls p m \<longleftrightarrow> writes (left_writes unm ls p) m = spec_kv unm ls"

lemma keys_at_append:
  "keys_at unm (xs @ ys) = fst (fold spec_step (decoded unm ys) (keys_at unm xs, Map.empty))"
  using spec_fold_fst [of "decoded unm ys" "keys_at unm xs" "snd (fold spec_step (decoded unm xs) ({}, Map.empty))" Map.empty]
  by (simp add: keys_at_def decoded_append)

lemma spec_kv_snoc:
  "spec_kv unm (xs @ ys) = writes (map cmd_kv (first_puts (keys_at unm xs) (decoded unm ys))) (spec_kv unm xs)"
  by (simp add: spec_kv_writes decoded_append first_puts_append keys_at_def)

lemma left_writes_snoc:
  assumes "p \<le> length ls"
  shows "left_writes unm (ls @ [l]) p = left_writes unm ls p @ map cmd_kv (first_puts (keys_at unm ls) (decoded unm [l]))"
proof -
  have "keys_at unm ls = fst (fold spec_step (decoded unm (drop p ls)) (keys_at unm (take p ls), Map.empty))"
    using keys_at_append [of unm "take p ls" "drop p ls"] by simp
  then show ?thesis
    using assms by (simp add: left_writes_def decoded_append first_puts_append)
qed

lemma left_writes_step:
  assumes "p < length ls"
  shows "left_writes unm ls p =
    map cmd_kv (first_puts (keys_at unm (take p ls)) (decoded unm [ls ! p])) @ left_writes unm ls (Suc p)"
proof -
  have "decoded unm (drop p ls) = decoded unm [ls ! p] @ decoded unm (drop (Suc p) ls)"
    using Cons_nth_drop_Suc [OF assms] decoded_append [of unm "[ls ! p]" "drop (Suc p) ls"] by simp
  moreover have "keys_at unm (take (Suc p) ls) =
      fst (fold spec_step (decoded unm [ls ! p]) (keys_at unm (take p ls), Map.empty))"
    using keys_at_append [of unm "take p ls" "[ls ! p]"] assms by (simp add: take_Suc_conv_app_nth)
  ultimately show ?thesis
    by (simp add: left_writes_def first_puts_append)
qed

lemma on_course_snoc:
  "p \<le> length ls \<Longrightarrow> on_course unm ls p m \<Longrightarrow> on_course unm (ls @ [l]) p m"
  by (simp add: on_course_def left_writes_snoc spec_kv_snoc)

lemma on_course_end: "on_course unm ls (length ls) m \<Longrightarrow> m = spec_kv unm ls"
  by (simp add: on_course_def left_writes_def decoded_def)

text \<open>Keys that the log writes anyway do no harm below a map that is on course.\<close>

lemma on_course_below:
  assumes "on_course unm ls p m" and "dom b \<subseteq> dom (spec_kv unm ls)"
  shows "on_course unm ls p (b ++ m)"
  using assms(1) map_add_covered [OF assms(2)] by (simp add: on_course_def writes_add)

lemma on_course_start: "on_course unm ls 0 Map.empty"
  by (simp add: on_course_def left_writes_def keys_at_def decoded_def spec_kv_writes)

text \<open>Under the discipline of clients every put of the log writes its key.\<close>

lemma puts_keys:
  assumes "one_command (decoded unm ls)"
  shows "cmd_Key ` puts unm ls \<subseteq> dom (spec_kv unm ls)"
proof -
  have "puts unm ls \<subseteq> set (first_puts {} (decoded unm ls))"
    using put_is_first [OF _ _ assms, of _ "{}"] by (auto simp: puts_def)
  then show ?thesis
    unfolding dom_spec_kv by (rule image_mono)
qed

lemma dom_of_puts: "(\<forall>k v. m k = Some v \<longrightarrow> (k, v) \<in> cmd_kv ` P) \<Longrightarrow> dom m \<subseteq> cmd_Key ` P"
  by (force simp: cmd_kv_def)

lemma sound_below:
  assumes "sound unm ls f" and "one_command (decoded unm ls)" and "on_course unm ls p m"
  shows "on_course unm ls p (kv_data (fsm_kv f) ++ m)"
proof (rule on_course_below [OF assms(3)])
  have "dom (kv_data (fsm_kv f)) \<subseteq> cmd_Key ` puts unm ls"
    using assms(1) unfolding sound_def by (intro dom_of_puts) blast
  then show "dom (kv_data (fsm_kv f)) \<subseteq> dom (spec_kv unm ls)"
    using puts_keys [OF assms(2)] by blast
qed

lemma one_command_prefix: "one_command (decoded unm (ls @ [l])) \<Longrightarrow> one_command (decoded unm ls)"
  by (auto simp: one_command_def decoded_append)

lemma on_course_spec: "on_course unm ls p (spec_kv unm (take p ls))"
  using spec_kv_snoc [of unm "take p ls" "drop p ls"] by (simp add: on_course_def left_writes_def)

lemma keys_fold:
  "k \<in> fst (fold spec_step cs (A, m)) \<longleftrightarrow>
     k \<in> A \<or> (\<exists>c \<in> set cs. cmd_Op c = ''put'' \<and> cmd_IdempotencyKey c = k \<and> k \<noteq> [])"
proof (induction cs arbitrary: A m)
  case (Cons c cs)
  obtain B n where s: "spec_step c (A, m) = (B, n)"
    by (cases "spec_step c (A, m)")
  then have "k \<in> B \<longleftrightarrow> k \<in> A \<or> cmd_Op c = ''put'' \<and> cmd_IdempotencyKey c = k \<and> k \<noteq> []"
    by (auto simp: spec_step_def takes_def split: if_splits)
  then show ?case
    using Cons.IH [of B n] s by auto
qed simp

lemma decoded_mem: "c \<in> set (decoded unm ls) \<longleftrightarrow> (\<exists>l \<in> set ls. unm (log_Data l) = Inr c)"
  by (induction ls) (auto simp: decoded_def split: sum.split)

text \<open>The keys a log has applied are those of its puts.\<close>

lemma keys_at_iff:
  "k \<in> keys_at unm ls \<longleftrightarrow>
     (\<exists>l \<in> set ls. \<exists>c. unm (log_Data l) = Inr c \<and> cmd_Op c = ''put'' \<and> cmd_IdempotencyKey c = k \<and> k \<noteq> [])"
  unfolding keys_at_def keys_fold Bex_def decoded_mem by blast

lemma card_dom_spec_kv: "card (dom (spec_kv unm ls)) \<le> length ls"
proof -
  have "length (first_puts A cs) \<le> length cs" for A cs
    by (induction A cs rule: first_puts.induct) auto
  moreover have "length (decoded unm ls) \<le> length ls"
    by (induction ls) (auto simp: decoded_def split: sum.split)
  ultimately have "length (first_puts {} (decoded unm ls)) \<le> length ls"
    by (rule order_trans)
  then show ?thesis
    unfolding dom_spec_kv using card_image_le [of "set (first_puts {} (decoded unm ls))" cmd_Key] card_length
    by (meson List.finite_set order_trans)
qed

section \<open>The cluster\<close>

text \<open>
  A shot is a persisted snapshot with the index raft files it under. A host is a state machine and the
  index up to which raft has brought it; the rest is history: the state its last start gave, the events
  since, the positions of the log it was delivered, and the shots it has installed, each with whether the
  queues were empty then.
\<close>

record shot =
  st_at :: nat
  st_bytes :: string
  st_orderly :: bool

record shost =
  sh_fsm :: FSM
  sh_pos :: nat
  sh_boot :: FSM
  sh_life :: "node_event list"
  sh_got :: "nat list"
  sh_sources :: "(shot \<times> bool) list"

record scluster =
  sc_log :: "raft_Log list"
  sc_node :: "string \<Rightarrow> shost"
  sc_shots :: "shot list"

definition fresh_host :: "FSM \<Rightarrow> shost" where
  "fresh_host f = \<lparr>sh_fsm = f, sh_pos = 0, sh_boot = f, sh_life = [], sh_got = [], sh_sources = []\<rparr>"

definition put_host :: "string \<Rightarrow> shost \<Rightarrow> scluster \<Rightarrow> scluster" where
  "put_host n h c = c\<lparr>sc_node := (sc_node c)(n := h)\<rparr>"

definition run_host :: "unmarshal \<Rightarrow> node_event \<Rightarrow> shost \<Rightarrow> shost" where
  "run_host unm ev h = h\<lparr>sh_fsm := node_step unm ev (sh_fsm h), sh_life := sh_life h @ [ev]\<rparr>"

definition deliver_host :: "unmarshal \<Rightarrow> apply_env \<Rightarrow> raft_Log list \<Rightarrow> shost \<Rightarrow> shost" where
  "deliver_host unm env ls h =
     (run_host unm (NApply (ls ! sh_pos h) env) h)\<lparr>sh_pos := Suc (sh_pos h), sh_got := sh_got h @ [sh_pos h]\<rparr>"

definition idle :: "'a bwsys_scheme \<Rightarrow> bool" where
  "idle s \<longleftrightarrow> ch s = [] \<and> batch s = []"

text \<open>A failing \<^verbatim>\<open>Restore\<close> leaves the host where it was.\<close>

definition install_host :: "(string \<Rightarrow> string) \<Rightarrow> map_range \<Rightarrow> map_range \<Rightarrow> driver \<Rightarrow> shot \<Rightarrow> shost \<Rightarrow> shost" where
  "install_host errt r1 r2 d st h =
     (case Restore (Decode_map errt) r1 r2 d (st_bytes st) (sh_fsm h) of
        (None, g) \<Rightarrow> h\<lparr>sh_fsm := g, sh_pos := st_at st, sh_sources := (st, idle (sh_fsm h)) # sh_sources h\<rparr>
      | (Some _, g) \<Rightarrow> h\<lparr>sh_fsm := g\<rparr>)"

text \<open>The second entry is a put with the idempotency key of a put that is the first.\<close>

definition repeats :: "unmarshal \<Rightarrow> raft_Log \<Rightarrow> raft_Log \<Rightarrow> bool" where
  "repeats unm l l' \<longleftrightarrow>
     (case (unm (log_Data l), unm (log_Data l')) of
        (Inr c, Inr c') \<Rightarrow> cmd_Op c = ''put'' \<and> cmd_Op c' = ''put'' \<and> cmd_IdempotencyKey c \<noteq> []
          \<and> cmd_IdempotencyKey c = cmd_IdempotencyKey c'
      | _ \<Rightarrow> False)"

definition disciplined :: "unmarshal \<Rightarrow> raft_Log list \<Rightarrow> shost \<Rightarrow> bool" where
  "disciplined unm ls h \<longleftrightarrow>
     sorted (event_times (sh_life h)) \<and> retry_within unm (retention (fsm_dedup (sh_boot h))) (sh_life h)
     \<and> (\<forall>i < sh_pos h. i \<notin> set (sh_got h) \<longrightarrow> (\<forall>j \<in> set (sh_got h). i < j \<longrightarrow> \<not> repeats unm (ls ! i) (ls ! j)))
     \<and> (\<forall>s \<in> set (sh_sources h). st_orderly (fst s))"

text \<open>Nothing of what the node was given has missed its table.\<close>

definition stored_all :: "shost \<Rightarrow> bool" where
  "stored_all h \<longleftrightarrow>
     tbl (db (sh_boot h)) = [] \<and> list_all event_healthy (sh_life h) \<and> (\<forall>s \<in> set (sh_sources h). snd s)"

definition shot_of :: "unmarshal \<Rightarrow> raft_Log list \<Rightarrow> string \<Rightarrow> shost \<Rightarrow> shot" where
  "shot_of unm ls bytes h =
     \<lparr>st_at = sh_pos h, st_bytes = bytes, st_orderly = (disciplined unm ls h \<and> stored_all h \<and> idle (sh_fsm h))\<rparr>"

inductive sn_step :: "(string \<Rightarrow> string) \<Rightarrow> scluster \<Rightarrow> scluster \<Rightarrow> bool" for errt where
  commit: "\<forall>l' \<in> set (sc_log c). log_Index l' < log_Index l \<Longrightarrow>
    sn_step errt c (c\<lparr>sc_log := sc_log c @ [l]\<rparr>)"
| deliver: "sh_pos (sc_node c n) < length (sc_log c) \<Longrightarrow>
    sn_step errt c (put_host n (deliver_host (Unmarshal_Command errt) env (sc_log c) (sc_node c n)) c)"
| work: "sn_step errt c (put_host n (run_host (Unmarshal_Command errt) (NWork d w) (sc_node c n)) c)"
| evict: "sn_step errt c (put_host n (run_host (Unmarshal_Command errt) (NEvict now) (sc_node c n)) c)"
| crash: "startup getenv d (Some (filter kept (tbl (db (sh_fsm (sc_node c n)))))) n = Up f \<Longrightarrow>
    sn_step errt c (put_host n (fresh_host f) c)"
| snapshot: "Snapshot d (sh_fsm (sc_node c n)) = Inr m \<Longrightarrow> enumerates (r0 m) m \<Longrightarrow>
    Persist (\<lambda>m. Inr (Encode_map r0 m)) None m = (None, SinkClosed bytes) \<Longrightarrow>
    sn_step errt c (c\<lparr>sc_shots := shot_of (Unmarshal_Command errt) (sc_log c) bytes (sc_node c n) # sc_shots c\<rparr>)"
| install: "st \<in> set (sc_shots c) \<Longrightarrow> sh_pos (sc_node c n) \<le> st_at st \<Longrightarrow>
    \<forall>m. Decode_map errt (st_bytes st) = Inr m \<longrightarrow> enumerates (r1 m) m \<and> enumerates (r2 m) m \<Longrightarrow>
    sn_step errt c (put_host n (install_host errt r1 r2 d st (sc_node c n)) c)"

inductive sn_reach :: "(string \<Rightarrow> string) \<Rightarrow> scluster \<Rightarrow> bool" for errt where
  start: "sc_log c = [] \<Longrightarrow> sc_shots c = [] \<Longrightarrow>
    \<forall>n. \<exists>getenv d f. startup getenv d None n = Up f \<and> sc_node c n = fresh_host f \<Longrightarrow> sn_reach errt c"
| step: "sn_reach errt c \<Longrightarrow> sn_step errt c c' \<Longrightarrow> sn_reach errt c'"

lemma put_host_simps [simp]:
  "sc_log (put_host n h c) = sc_log c" "sc_shots (put_host n h c) = sc_shots c"
  "sc_node (put_host n h c) = (sc_node c)(n := h)"
  by (simp_all add: put_host_def)

section \<open>The invariant\<close>

text \<open>An index past those of the first \<open>p\<close> entries is past all that is stored.\<close>

definition above :: "raft_Log list \<Rightarrow> nat \<Rightarrow> FSM \<Rightarrow> bool" where
  "above ls p f \<longleftrightarrow> (\<forall>w. (\<forall>l \<in> set (take p ls). log_Index l < w) \<longrightarrow> index_above w f)"

definition history_ok :: "unmarshal \<Rightarrow> raft_Log list \<Rightarrow> shost \<Rightarrow> bool" where
  "history_ok unm ls h \<longleftrightarrow>
     (\<exists>getenv d disk nid. startup getenv d disk nid = Up (sh_boot h))
     \<and> fsm_dedup (sh_fsm h) = fsm_dedup (node_run unm (sh_life h) (sh_boot h))
     \<and> set (sh_got h) \<subseteq> {..<sh_pos h} \<and> applied (sh_life h) = map ((!) ls) (sh_got h)"

definition content_ok :: "unmarshal \<Rightarrow> raft_Log list \<Rightarrow> shost \<Rightarrow> bool" where
  "content_ok unm ls h \<longleftrightarrow>
     (one_command (decoded unm ls) \<longrightarrow> on_course unm ls (sh_pos h) (kv_data (fsm_kv (sh_fsm h))))
     \<and> (tbl (db (sh_boot h)) = [] \<longrightarrow> kv_data (fsm_kv (sh_fsm h)) = spec_kv unm (take (sh_pos h) ls))
     \<and> (stored_all h \<longrightarrow> bw_good (sh_fsm h) \<and> coherent (sh_fsm h) \<and> above ls (sh_pos h) (sh_fsm h))"

definition host_ok :: "(string \<Rightarrow> string) \<Rightarrow> raft_Log list \<Rightarrow> shost \<Rightarrow> bool" where
  "host_ok errt ls h \<longleftrightarrow>
     sh_pos h \<le> length ls \<and> node_reach errt (sh_fsm h) \<and> sound (Unmarshal_Command errt) ls (sh_fsm h)
     \<and> dom (map_of (seen (fsm_dedup (sh_fsm h)))) \<subseteq> keys_at (Unmarshal_Command errt) (take (sh_pos h) ls)
     \<and> history_ok (Unmarshal_Command errt) ls h
     \<and> (disciplined (Unmarshal_Command errt) ls h \<longrightarrow> content_ok (Unmarshal_Command errt) ls h)"

definition shot_ok :: "(string \<Rightarrow> string) \<Rightarrow> raft_Log list \<Rightarrow> shot \<Rightarrow> bool" where
  "shot_ok errt ls st \<longleftrightarrow>
     st_at st \<le> length ls
     \<and> (\<exists>m. Decode_map errt (st_bytes st) = Inr m
          \<and> (\<forall>k v. m k = Some v \<longrightarrow> (k, v) \<in> cmd_kv ` puts (Unmarshal_Command errt) ls)
          \<and> (st_orderly st \<longrightarrow> m = spec_kv (Unmarshal_Command errt) (take (st_at st) ls)))"

lemma host_okD:
  assumes "host_ok errt ls h"
  shows "sh_pos h \<le> length ls" "node_reach errt (sh_fsm h)" "sound (Unmarshal_Command errt) ls (sh_fsm h)"
    "dom (map_of (seen (fsm_dedup (sh_fsm h)))) \<subseteq> keys_at (Unmarshal_Command errt) (take (sh_pos h) ls)"
    "history_ok (Unmarshal_Command errt) ls h"
    "disciplined (Unmarshal_Command errt) ls h \<Longrightarrow> content_ok (Unmarshal_Command errt) ls h"
  using assms unfolding host_ok_def by blast+

lemma content_okD:
  assumes "content_ok unm ls h"
  shows "one_command (decoded unm ls) \<Longrightarrow> on_course unm ls (sh_pos h) (kv_data (fsm_kv (sh_fsm h)))"
    "tbl (db (sh_boot h)) = [] \<Longrightarrow> kv_data (fsm_kv (sh_fsm h)) = spec_kv unm (take (sh_pos h) ls)"
    "stored_all h \<Longrightarrow> bw_good (sh_fsm h)" "stored_all h \<Longrightarrow> coherent (sh_fsm h)"
    "stored_all h \<Longrightarrow> above ls (sh_pos h) (sh_fsm h)"
  using assms unfolding content_ok_def by blast+

text \<open>The discipline of an earlier moment follows from that of a later one.\<close>

lemma disciplined_run: "disciplined unm ls (run_host unm ev h) \<Longrightarrow> disciplined unm ls h"
  by (auto simp: disciplined_def run_host_def event_times_append sorted_append dest: retry_within_prefix)

lemma disciplined_deliver: "disciplined unm ls (deliver_host unm env ls h) \<Longrightarrow> disciplined unm ls h"
  by (auto simp: disciplined_def deliver_host_def run_host_def event_times_append sorted_append less_Suc_eq
      dest: retry_within_prefix)

lemma disciplined_commit:
  assumes "history_ok unm ls h" and "sh_pos h \<le> length ls"
  shows "disciplined unm (ls @ [l]) h \<longleftrightarrow> disciplined unm ls h"
proof -
  have "(ls @ [l]) ! i = ls ! i" if "i < sh_pos h" for i
    using that assms(2) by (simp add: nth_append)
  moreover have "j < sh_pos h" if "j \<in> set (sh_got h)" for j
    using that assms(1) by (auto simp: history_ok_def)
  ultimately show ?thesis
    unfolding disciplined_def by (intro arg_cong2 [where f = "(\<and>)"] refl) auto
qed

lemma stored_all_step:
  "stored_all (run_host unm ev h) \<longleftrightarrow> stored_all h \<and> event_healthy ev"
  "stored_all (deliver_host unm env ls h) \<longleftrightarrow> stored_all h \<and> env_healthy env"
  by (auto simp: stored_all_def run_host_def deliver_host_def)

lemma spec_keys_grow: "A \<subseteq> fst (fold spec_step cs (A, m))"
proof (induction cs arbitrary: A m)
  case (Cons c cs)
  obtain B n where s: "spec_step c (A, m) = (B, n)"
    by (cases "spec_step c (A, m)")
  then have "A \<subseteq> B"
    by (auto simp: spec_step_def split: if_splits)
  then show ?case
    using Cons.IH [of B n] s by simp
qed simp

lemma keys_at_mono:
  assumes "p \<le> k"
  shows "keys_at unm (take p ls) \<subseteq> keys_at unm (take k ls)"
proof -
  have "take k ls = take p ls @ take (k - p) (drop p ls)"
    using take_add [of p "k - p" ls] assms by simp
  then show ?thesis
    using spec_keys_grow by (simp add: keys_at_append)
qed

lemma host_ok_commit:
  assumes "host_ok errt ls h"
  shows "host_ok errt (ls @ [l]) h"
proof -
  let ?unm = "Unmarshal_Command errt"
  note h = host_okD [OF assms]
  have H: "history_ok ?unm (ls @ [l]) h"
    using h(1,5) by (auto simp: history_ok_def nth_append intro!: map_cong)
  have "content_ok ?unm (ls @ [l]) h" if "disciplined ?unm (ls @ [l]) h"
    using content_okD [OF h(6)] that disciplined_commit [OF h(5,1)] h(1) one_command_prefix on_course_snoc
    unfolding content_ok_def above_def by auto
  then show ?thesis
    using h sound_mono H by (simp add: host_ok_def)
qed

lemma shot_ok_commit:
  assumes "shot_ok errt ls st"
  shows "shot_ok errt (ls @ [l]) st"
  using assms unfolding shot_ok_def puts_append image_Un by auto

text \<open>One delivered entry contributes exactly what the host makes of it.\<close>

lemma seen_MarkSeen_dom: "dom (map_of (seen (MarkSeen t j s))) = (if j = [] then {} else {j}) \<union> dom (map_of (seen s))"
  by (auto simp: MarkSeen_def update_conv')

lemma IsDuplicate_dom: "IsDuplicate j s \<longleftrightarrow> j \<noteq> [] \<and> j \<in> dom (map_of (seen s))"
  by (auto simp: IsDuplicate_def)

lemma keys_at_Suc:
  assumes "p < length ls"
  shows "keys_at unm (take (Suc p) ls) = fst (fold spec_step (decoded unm [ls ! p]) (keys_at unm (take p ls), Map.empty))"
  using keys_at_append [of unm "take p ls" "[ls ! p]"] assms by (simp add: take_Suc_conv_app_nth)

text \<open>
  The dedup store knows the key of a put that an earlier entry of the log made: because the node was
  delivered that entry itself, and the retention time is not over.
\<close>

definition remembers :: "unmarshal \<Rightarrow> raft_Log list \<Rightarrow> shost \<Rightarrow> bool" where
  "remembers unm ls h \<longleftrightarrow>
     (\<forall>c. unm (log_Data (ls ! sh_pos h)) = Inr c \<and> cmd_Op c = ''put'' \<and> cmd_IdempotencyKey c \<noteq> []
        \<and> cmd_IdempotencyKey c \<in> keys_at unm (take (sh_pos h) ls)
        \<longrightarrow> IsDuplicate (cmd_IdempotencyKey c) (fsm_dedup (sh_fsm h)))"

lemma disciplined_remembers:
  assumes "history_ok unm ls h" and "sh_pos h < length ls" and "disciplined unm ls (deliver_host unm env ls h)"
  shows "remembers unm ls h"
  unfolding remembers_def
proof (intro allI impI, elim conjE)
  fix c :: Command
  let ?p = "sh_pos h" and ?k = "cmd_IdempotencyKey c" and ?evs = "sh_life h" and ?f0 = "sh_boot h"
  let ?ev = "NApply (ls ! ?p) env"
  assume c: "unm (log_Data (ls ! ?p)) = Inr c" "cmd_Op c = ''put''" "?k \<noteq> []" "?k \<in> keys_at unm (take ?p ls)"
  obtain i c' where i: "i < ?p" "unm (log_Data (ls ! i)) = Inr c'" "cmd_Op c' = ''put''" "cmd_IdempotencyKey c' = ?k"
    using c(4) assms(2) unfolding keys_at_iff by (auto simp: in_set_conv_nth)
  have d: "sorted (event_times (?evs @ [?ev]))" "retry_within unm (retention (fsm_dedup ?f0)) (?evs @ [?ev])"
    "i \<notin> set (sh_got h) \<Longrightarrow> \<not> repeats unm (ls ! i) (ls ! ?p)"
    using assms(3) i(1) by (auto simp: disciplined_def deliver_host_def run_host_def)
  have "i \<in> set (sh_got h)"
    using d(3) i(2-4) c(1-3) by (auto simp: repeats_def)
  then have "ls ! i \<in> set (applied ?evs)"
    using assms(1) by (simp add: history_ok_def)
  then have key: "?k \<in> keys_at unm (applied ?evs)"
    unfolding keys_at_iff using i(2-4) c(3) by blast
  obtain getenv dr disk nid where up: "startup getenv dr disk nid = Up ?f0"
    using assms(1) unfolding history_ok_def by blast
  have "tracks unm [?ev] (node_run unm ?evs ?f0) (keys_at unm (applied ?evs))"
    unfolding keys_at_def by (rule tracks_run [OF startup_Up(7) [OF up] tracks_empty [OF startup_Up(8) [OF up]] d(1,2)])
  from tracksD [OF this key c(3), of "a_now env"] c(1)
  obtain u where "map_of (seen (fsm_dedup (node_run unm ?evs ?f0))) ?k = Some u"
    by auto
  then show "IsDuplicate ?k (fsm_dedup (sh_fsm h))"
    using assms(1) c(3) by (simp add: history_ok_def IsDuplicate_def)
qed

lemma deliver_contributes:
  fixes unm ls h env
  defines "p \<equiv> sh_pos h" and "g \<equiv> sh_fsm (deliver_host unm env ls h)"
  assumes p: "p < length ls"
    and seen: "dom (map_of (seen (fsm_dedup (sh_fsm h)))) \<subseteq> keys_at unm (take p ls)"
  shows "dom (map_of (seen (fsm_dedup g))) \<subseteq> keys_at unm (take (Suc p) ls)"
    and "remembers unm ls h \<Longrightarrow> kv_data (fsm_kv g) =
      writes (map cmd_kv (first_puts (keys_at unm (take p ls)) (decoded unm [ls ! p]))) (kv_data (fsm_kv (sh_fsm h)))"
proof -
  let ?f = "sh_fsm h" and ?K = "keys_at unm (take p ls)"
  have g: "g = fst (Apply unm env (ls ! p) ?f)"
    by (simp add: g_def p_def deliver_host_def run_host_def)
  have K: "?K \<subseteq> keys_at unm (take (Suc p) ls)"
    by (rule keys_at_mono) simp
  have "dom (map_of (seen (fsm_dedup g))) \<subseteq> keys_at unm (take (Suc p) ls)
    \<and> (remembers unm ls h \<longrightarrow> kv_data (fsm_kv g) =
        writes (map cmd_kv (first_puts ?K (decoded unm [ls ! p]))) (kv_data (fsm_kv ?f)))"
  proof (cases rule: Apply_cases [of unm "ls ! p" env ?f])
    case (decode err)
    then show ?thesis
      using seen K g by (simp add: decoded_def)
  next
    case (dup cmd)
    have "\<not> takes cmd ?K"
      using dup(2) seen by (auto simp: IsDuplicate_dom takes_def)
    then show ?thesis
      using dup(1,3) seen K g by (simp add: decoded_def)
  next
    case (unknown cmd)
    then show ?thesis
      using seen K g by (simp add: decoded_def takes_def)
  next
    case (put cmd)
    have "cmd_IdempotencyKey cmd \<noteq> [] \<longrightarrow> cmd_IdempotencyKey cmd \<in> keys_at unm (take (Suc p) ls)"
      unfolding keys_at_Suc [OF p] using put(1,3) by (simp add: decoded_def spec_step_def takes_def)
    moreover have "remembers unm ls h \<Longrightarrow> takes cmd ?K"
      using put(1-3) by (auto simp: remembers_def takes_def p_def)
    ultimately show ?thesis
      using put(1,4) seen K g
      by (auto simp: decoded_def seen_MarkSeen_dom cmd_kv_def simp del: fun_upd_apply)
  qed
  then show "dom (map_of (seen (fsm_dedup g))) \<subseteq> keys_at unm (take (Suc p) ls)"
    and "remembers unm ls h \<Longrightarrow> kv_data (fsm_kv g) =
      writes (map cmd_kv (first_puts ?K (decoded unm [ls ! p]))) (kv_data (fsm_kv ?f))"
    by blast+
qed

lemma fsm_dedup_step:
  "fsm_dedup f = fsm_dedup g \<Longrightarrow> fsm_dedup (node_step unm ev f) = fsm_dedup (node_step unm ev g)"
proof (cases ev)
  case (NApply l env)
  assume same: "fsm_dedup f = fsm_dedup g"
  then show ?thesis
    using NApply
    by (cases "unm (log_Data l)")
      (auto simp: Apply_decode Apply_def Let_def split: if_splits)
qed (auto simp: node_step_evict simp del: node_step.simps(3))

lemma history_ok_run:
  assumes "history_ok unm ls h"
  shows "applied [ev] = [] \<Longrightarrow> history_ok unm ls (run_host unm ev h)"
    and "sh_pos h < length ls \<Longrightarrow> history_ok unm ls (deliver_host unm env ls h)"
proof -
  have "fsm_dedup (node_step unm ev (sh_fsm h)) = fsm_dedup (node_step unm ev (node_run unm (sh_life h) (sh_boot h)))" for ev
    by (rule fsm_dedup_step) (use assms in \<open>simp add: history_ok_def\<close>)
  then show "applied [ev] = [] \<Longrightarrow> history_ok unm ls (run_host unm ev h)"
    and "sh_pos h < length ls \<Longrightarrow> history_ok unm ls (deliver_host unm env ls h)"
    using assms by (auto simp: history_ok_def run_host_def deliver_host_def less_Suc_eq simp del: node_step.simps)
qed

text \<open>The log, whose indices increase, puts nothing stored past the next entry.\<close>

lemma above_next:
  assumes "above ls p f" and "p < length ls" and "sorted_wrt (<) (map log_Index ls)"
  shows "index_above (log_Index (ls ! p)) f"
proof -
  have "log_Index l < log_Index (ls ! p)" if "l \<in> set (take p ls)" for l
    using that assms(2,3) by (auto simp: in_set_conv_nth sorted_wrt_map sorted_wrt_iff_nth_less)
  then show ?thesis
    using assms(1) unfolding above_def by blast
qed

lemma content_ok_deliver:
  assumes "host_ok errt ls h" and "sh_pos h < length ls" and "sorted_wrt (<) (map log_Index ls)"
    and "disciplined (Unmarshal_Command errt) ls (deliver_host (Unmarshal_Command errt) env ls h)"
  shows "content_ok (Unmarshal_Command errt) ls (deliver_host (Unmarshal_Command errt) env ls h)"
proof -
  let ?unm = "Unmarshal_Command errt" and ?p = "sh_pos h" and ?f = "sh_fsm h"
  let ?h = "deliver_host ?unm env ls h"
  have fsm: "sh_fsm ?h = fst (Apply ?unm env (ls ! ?p) ?f)" "sh_pos ?h = Suc ?p" "sh_boot ?h = sh_boot h"
    by (simp_all add: deliver_host_def run_host_def)
  note C = content_okD [OF host_okD(6) [OF assms(1) disciplined_deliver [OF assms(4)]]]
  have kv: "kv_data (fsm_kv (sh_fsm ?h)) =
      writes (map cmd_kv (first_puts (keys_at ?unm (take ?p ls)) (decoded ?unm [ls ! ?p]))) (kv_data (fsm_kv ?f))"
    by (rule deliver_contributes(2) [OF assms(2) host_okD(4) [OF assms(1)]
        disciplined_remembers [OF host_okD(5) [OF assms(1)] assms(2,4)]])
  have "on_course ?unm ls (Suc ?p) (kv_data (fsm_kv (sh_fsm ?h)))" if "one_command (decoded ?unm ls)"
    using C(1) [OF that] left_writes_step [OF assms(2), of ?unm] by (simp add: on_course_def kv writes_append)
  moreover have "kv_data (fsm_kv (sh_fsm ?h)) = spec_kv ?unm (take (Suc ?p) ls)" if "tbl (db (sh_boot h)) = []"
    using C(2) [OF that] spec_kv_snoc [of ?unm "take ?p ls" "[ls ! ?p]"] assms(2)
    by (simp add: kv take_Suc_conv_app_nth)
  moreover have "bw_good (sh_fsm ?h) \<and> coherent (sh_fsm ?h) \<and> above ls (Suc ?p) (sh_fsm ?h)" if "stored_all ?h"
  proof -
    have s: "stored_all h" "env_healthy env"
      using that by (simp_all add: stored_all_step)
    have "bw_good (sh_fsm ?h) \<and> coherent (sh_fsm ?h)
        \<and> (\<forall>j. log_Index (ls ! ?p) < j \<longrightarrow> index_above j (sh_fsm ?h))"
      unfolding fsm(1)
      by (rule Apply_coherent [OF C(3) [OF s(1)] s(2) C(4) [OF s(1)] above_next [OF C(5) [OF s(1)] assms(2,3)]])
    then show ?thesis
      using assms(2) by (simp add: above_def take_Suc_conv_app_nth)
  qed
  ultimately show ?thesis
    unfolding content_ok_def fsm(2,3) by blast
qed

lemma host_ok_deliver:
  assumes "host_ok errt ls h" and "sh_pos h < length ls" and "sorted_wrt (<) (map log_Index ls)"
  shows "host_ok errt ls (deliver_host (Unmarshal_Command errt) env ls h)"
proof -
  let ?unm = "Unmarshal_Command errt"
  let ?h = "deliver_host ?unm env ls h"
  have fsm: "sh_fsm ?h = node_step ?unm (NApply (ls ! sh_pos h) env) (sh_fsm h)" "sh_pos ?h = Suc (sh_pos h)"
    by (simp_all add: deliver_host_def run_host_def)
  have "node_reach errt (sh_fsm ?h)"
    unfolding fsm by (rule node_reach.step [OF host_okD(2) [OF assms(1)]])
  moreover have "sound ?unm ls (sh_fsm ?h)"
    unfolding fsm by (rule sound_step [OF host_okD(3) [OF assms(1)]]) (use assms(2) in auto)
  ultimately show ?thesis
    using deliver_contributes(1) [where unm = ?unm and env = env, OF assms(2) host_okD(4) [OF assms(1)]]
      history_ok_run(2) [OF host_okD(5) [OF assms(1)] assms(2)] content_ok_deliver [OF assms] assms(2)
    by (simp add: host_ok_def fsm(2))
qed

lemma above_stored: "above ls p f \<Longrightarrow> stored g = stored f \<Longrightarrow> above ls p g"
  by (auto simp: above_def intro: stored_settled_eq)

lemma host_ok_run:
  assumes "host_ok errt ls h" and "applied [ev] = []"
  shows "host_ok errt ls (run_host (Unmarshal_Command errt) ev h)"
proof -
  let ?unm = "Unmarshal_Command errt"
  let ?g = "node_step ?unm ev (sh_fsm h)" and ?h = "run_host ?unm ev h"
  note h = host_okD [OF assms(1)]
  have fsm: "sh_fsm ?h = ?g" "sh_pos ?h = sh_pos h" "sh_boot ?h = sh_boot h"
    by (simp_all add: run_host_def)
  have same: "fsm_kv ?g = fsm_kv (sh_fsm h)" "dom (map_of (seen (fsm_dedup ?g))) \<subseteq> dom (map_of (seen (fsm_dedup (sh_fsm h))))"
    using assms(2) by (cases ev; auto simp: node_step_evict purge_store_def dom_map_of_conv_image_fst
        simp del: node_step.simps(3))+
  have "sound ?unm ls ?g"
    by (rule sound_step [OF h(3)]) (use assms(2) in auto)
  moreover have "content_ok ?unm ls ?h" if "disciplined ?unm ls ?h"
  proof -
    note C = content_okD [OF h(6) [OF disciplined_run [OF that]]]
    have "bw_good ?g \<and> coherent ?g \<and> above ls (sh_pos h) ?g" if "stored_all ?h"
    proof -
      have s: "stored_all h" "event_healthy ev"
        using that by (simp_all add: stored_all_step)
      show ?thesis
      proof (cases ev)
        case (NWork d c)
        then show ?thesis
          using pump_coherent [OF C(3,4) [OF s(1)], of d c] s(2) above_stored [OF C(5) [OF s(1)]] by auto
      next
        case (NEvict now)
        then show ?thesis
          using C(3-5) [OF s(1)] above_stored [of ls "sh_pos h" "sh_fsm h" ?g]
          by (simp add: node_step_evict coherent_def stored_def del: node_step.simps(3))
      qed (use assms(2) in simp)
    qed
    then show ?thesis
      using C(1,2) same(1) unfolding content_ok_def fsm by simp
  qed
  ultimately show ?thesis
    using h(1,2,4) same history_ok_run(1) [OF h(5) assms(2)] node_reach.step [of errt "sh_fsm h" ev]
    unfolding host_ok_def fsm by blast
qed

text \<open>What a start builds from a table of pairs the log has written is on course from the start of the log.\<close>

lemma host_ok_fresh:
  assumes "startup getenv d disk n = Up f" and "node_reach errt f"
    and "row_kv ` set (createSchema disk) \<subseteq> cmd_kv ` puts (Unmarshal_Command errt) ls"
  shows "host_ok errt ls (fresh_host f)"
proof -
  let ?unm = "Unmarshal_Command errt"
  have S: "sound ?unm ls f"
    using sound_startup [OF assms(1,3)] .
  have "one_command (decoded ?unm ls) \<Longrightarrow> on_course ?unm ls 0 (kv_data (fsm_kv f))"
    using sound_below [OF S _ on_course_start] by simp
  moreover have "spec_kv ?unm [] = Map.empty"
    by (simp add: spec_kv_writes decoded_def)
  ultimately have "content_ok ?unm ls (fresh_host f)"
    using startup_Up(1,2,6,10) [OF assms(1)]
    by (auto simp: content_ok_def fresh_host_def stored_all_def above_def index_above_def bw_good_def pk_ok_def
        coherent_def replay_map_def)
  moreover have "history_ok ?unm ls (fresh_host f)"
    using assms(1) by (auto simp: history_ok_def fresh_host_def)
  ultimately show ?thesis
    using S assms(2) startup_Up(8) [OF assms(1)] by (simp add: host_ok_def fresh_host_def)
qed

lemma host_ok_crash:
  assumes "host_ok errt ls h" and "startup getenv d (Some (filter kept (tbl (db (sh_fsm h))))) n = Up f"
  shows "host_ok errt ls (fresh_host f)"
proof (rule host_ok_fresh [OF assms(2)])
  show "node_reach errt f"
    using node_reach.restart [OF host_okD(2) [OF assms(1)] assms(2)] .
  show "row_kv ` set (createSchema (Some (filter kept (tbl (db (sh_fsm h)))))) \<subseteq> cmd_kv ` puts (Unmarshal_Command errt) ls"
    using host_okD(3) [OF assms(1)] by (auto simp: sound_def holds_rows_def)
qed

lemma map_ok_table: "\<forall>r \<in> set t. row_ok r \<Longrightarrow> map_ok (replay_map t)"
  unfolding replay_map_def by (rule map_ok_writes) (simp_all add: list_all_iff row_kv_def row_ok_def)

lemma shot_ok_snapshot:
  assumes "host_ok errt ls h" and "Snapshot d (sh_fsm h) = Inr m" and "enumerates (r0 m) m"
    and "Persist (\<lambda>m. Inr (Encode_map r0 m)) None m = (None, SinkClosed bytes)"
  shows "shot_ok errt ls (shot_of (Unmarshal_Command errt) ls bytes h)"
proof -
  let ?unm = "Unmarshal_Command errt" and ?t = "tbl (db (sh_fsm h))"
  note h = host_okD [OF assms(1)]
  have m: "m = replay_map ?t"
    using assms(2) by (rule Snapshot_Inr)
  have "map_ok m"
    unfolding m using node_reach_ok [OF h(2)]
    by (intro map_ok_table) (auto simp: node_ok_def holds_rows_def)
  moreover have "bytes = Encode_map r0 m"
    using assms(4) by (simp add: Persist_def)
  ultimately have "Decode_map errt bytes = Inr m"
    using Decode_Encode_map assms(3) by blast
  moreover have "(k, v) \<in> cmd_kv ` puts ?unm ls" if "m k = Some v" for k v
  proof -
    have "(k, v) \<in> row_kv ` holds_rows (sh_fsm h)"
      using that by (auto simp: m replay_map_def holds_rows_def dest!: writes_Some)
    then show ?thesis
      using h(3) by (auto simp: sound_def)
  qed
  moreover have "m = spec_kv ?unm (take (sh_pos h) ls)"
    if "disciplined ?unm ls h" "stored_all h" "idle (sh_fsm h)"
  proof -
    note C = content_okD [OF h(6) [OF that(1)]]
    have "replay_map (settled (sh_fsm h)) = m"
      using that(3) by (simp add: m idle_def settled_idle)
    moreover have "tbl (db (sh_boot h)) = []"
      using that(2) by (simp add: stored_all_def)
    ultimately show ?thesis
      using C(2) C(4) [OF that(2)] by (simp add: coherent_def)
  qed
  ultimately show ?thesis
    using h(1) by (simp add: shot_ok_def shot_of_def)
qed

lemma Restore_queues:
  assumes "Restore dec r1 r2 d rc f = (err, g)"
  shows "fsm_dedup g = fsm_dedup f" "ch g = ch f" "batch g = batch f" "db_open (db g) = db_open (db f)"
proof -
  have "db_open x = db_open (db f)" if "ReplaceAll d es (db f) = (e, x)" for es e x
    using db_open_ReplaceAll [of d es "db f"] that by simp
  then show "fsm_dedup g = fsm_dedup f" "ch g = ch f" "batch g = batch f" "db_open (db g) = db_open (db f)"
    using assms by (auto simp: Restore_def split: sum.splits prod.splits option.splits)
qed

lemma image_into_Un: "f ` A \<subseteq> P \<Longrightarrow> f ` B \<subseteq> P \<Longrightarrow> C \<subseteq> A \<union> B \<Longrightarrow> f ` C \<subseteq> P"
  by blast

text \<open>What a successful \<^verbatim>\<open>Restore\<close> makes of a state machine.\<close>

lemma Restore_sound:
  assumes "Restore dec r1 r2 d rc f = (None, g)" and "dec rc = Inr m" and "enumerates (r1 m) m" and "enumerates (r2 m) m"
    and "sound unm ls f" and "\<forall>k v. m k = Some v \<longrightarrow> (k, v) \<in> cmd_kv ` puts unm ls"
  shows "sound unm ls g" "kv_data (fsm_kv g) = kv_data (fsm_kv f) ++ m"
proof -
  show g: "kv_data (fsm_kv g) = kv_data (fsm_kv f) ++ m"
    using Restore_Inr [where dec = dec and rc = rc and d = d and f = f and ?r1.0 = r1 and ?r2.0 = r2, OF assms(2-4)] assms(1)
    by simp
  have t: "tbl (db g) = snap_rows 0 (r1 m)"
    using Restore_Inr [where dec = dec and rc = rc and d = d and f = f and ?r1.0 = r1 and ?r2.0 = r2, OF assms(2-4)] assms(1)
    by simp
  have "set (r1 m) \<subseteq> cmd_kv ` puts unm ls"
  proof
    fix p assume "p \<in> set (r1 m)"
    then have "m (fst p) = Some (snd p)"
      using assms(3) map_of_is_SomeI [of "r1 m" "fst p" "snd p"] by (auto simp: enumerates_def)
    then show "p \<in> cmd_kv ` puts unm ls"
      using assms(6) by (metis prod.collapse)
  qed
  then have "row_kv ` set (snap_rows 0 (r1 m)) \<subseteq> cmd_kv ` puts unm ls"
    using snap_rows_kv [of 0 "r1 m"] by (metis list.set_map)
  moreover have "row_kv ` holds_rows f \<subseteq> cmd_kv ` puts unm ls"
    using assms(5) by (simp add: sound_def)
  moreover have "holds_rows g \<subseteq> set (snap_rows 0 (r1 m)) \<union> holds_rows f"
    using Restore_queues [OF assms(1)] by (auto simp: holds_rows_def t)
  ultimately have "row_kv ` holds_rows g \<subseteq> cmd_kv ` puts unm ls"
    by (rule image_into_Un)
  moreover have "(k, v) \<in> cmd_kv ` puts unm ls" if "kv_data (fsm_kv g) k = Some v" for k v
    using that assms(5,6) unfolding g sound_def by (metis map_add_Some_iff)
  ultimately show "sound unm ls g"
    unfolding sound_def by blast
qed

lemma sorted_indices_length:
  "sorted_wrt (<) (map log_Index ls) \<Longrightarrow> \<forall>l \<in> set ls. log_Index l < w \<Longrightarrow> length ls \<le> unat w"
proof (induction ls arbitrary: w rule: rev_induct)
  case (snoc l ls)
  then have "length ls \<le> unat (log_Index l)"
    by (intro snoc.IH) (auto simp: sorted_wrt_append)
  moreover have "unat (log_Index l) < unat w"
    using snoc.prems(2) by (simp add: word_less_nat_alt)
  ultimately show ?case by simp
qed simp

lemma disciplined_source:
  assumes "disciplined unm ls h'" and "sh_boot h' = sh_boot h" and "sh_life h' = sh_life h" and "sh_got h' = sh_got h"
    and "sh_pos h \<le> sh_pos h'" and "sh_sources h' = s # sh_sources h"
  shows "disciplined unm ls h" "st_orderly (fst s)"
  using assms unfolding disciplined_def by auto

text \<open>What a successful installation makes of a host.\<close>

lemma content_ok_install:
  fixes h st b g
  defines "h' \<equiv> h\<lparr>sh_fsm := g, sh_pos := st_at st, sh_sources := (st, idle (sh_fsm h)) # sh_sources h\<rparr>"
  assumes ok: "host_ok errt ls h" "shot_ok errt ls st" "sh_pos h \<le> st_at st" "sorted_wrt (<) (map log_Index ls)"
    and dec: "Decode_map errt (st_bytes st) = Inr m" and en: "enumerates (r1 m) m" "enumerates (r2 m) m"
    and R: "Restore (Decode_map errt) r1 r2 d (st_bytes st) (sh_fsm h) = (None, g)"
    and disc: "disciplined (Unmarshal_Command errt) ls h'"
  shows "content_ok (Unmarshal_Command errt) ls h'"
proof -
  let ?unm = "Unmarshal_Command errt" and ?f = "sh_fsm h" and ?p = "st_at st"
  note D = disciplined_source [OF disc, of h "(st, idle ?f)", unfolded h'_def, simplified, OF ok(3)]
  note C = content_okD [OF host_okD(6) [OF ok(1) D(1)]]
  have m: "m = spec_kv ?unm (take ?p ls)" "?p \<le> length ls"
    using ok(2) D(2) dec by (auto simp: shot_ok_def)
  have pairs: "\<forall>k v. m k = Some v \<longrightarrow> (k, v) \<in> cmd_kv ` puts ?unm ls"
    using ok(2) dec by (auto simp: shot_ok_def)
  have kv: "kv_data (fsm_kv g) = kv_data (fsm_kv ?f) ++ m" and t: "tbl (db g) = snap_rows 0 (r1 m)"
    using Restore_Inr [where dec = "Decode_map errt" and d = d and f = ?f and ?r1.0 = r1 and ?r2.0 = r2, OF dec en] R
    by auto
  have "on_course ?unm ls ?p (kv_data (fsm_kv g))" if "one_command (decoded ?unm ls)"
    unfolding kv by (rule sound_below [OF host_okD(3) [OF ok(1)] that]) (simp add: m(1) on_course_spec)
  moreover have first: "kv_data (fsm_kv g) = m" if "tbl (db (sh_boot h)) = []"
  proof -
    have "take ?p ls = take (sh_pos h) ls @ take (?p - sh_pos h) (drop (sh_pos h) ls)"
      using take_add [of "sh_pos h" "?p - sh_pos h" ls] ok(3) by simp
    then have "dom (spec_kv ?unm (take (sh_pos h) ls)) \<subseteq> dom m"
      unfolding m(1) by (metis dom_spec_kv_append)
    then show ?thesis
      unfolding kv C(2) [OF that] by (rule map_add_covered)
  qed
  moreover have "bw_good g \<and> coherent g \<and> above ls ?p g" if "stored_all h'"
  proof -
    have s: "stored_all h" "idle ?f" "tbl (db (sh_boot h)) = []"
      using that by (auto simp: stored_all_def h'_def)
    have st: "settled g = snap_rows 0 (r1 m)"
      using Restore_queues [OF R] s(2) by (simp add: settled_def t idle_def)
    have good: "bw_good g"
      using C(3) [OF s(1)] Restore_queues(4) [OF R] pk_ok_snap_rows [of 0 "r1 m"] by (simp add: bw_good_def t)
    have "coherent g"
      using first [OF s(3)] writes_enumerates [OF en(1), of Map.empty] by (simp add: coherent_def st replay_map_snap_rows)
    moreover have "above ls ?p g"
      unfolding above_def index_above_def st
    proof (intro allI impI ballI)
      fix w r assume w: "\<forall>l \<in> set (take ?p ls). log_Index l < w" and r: "r \<in> set (snap_rows 0 (r1 m))"
      have "length (r1 m) \<le> length (take ?p ls)"
        using card_dom_spec_kv [of ?unm "take ?p ls"] enumerates_card [OF en(1)] m(1) by simp
      also have "\<dots> \<le> unat w"
        by (rule sorted_indices_length [OF _ w]) (simp only: take_map [symmetric] sorted_wrt_take ok(4))
      finally have "int (length (r1 m)) \<le> uint w"
        unfolding uint_nat by (rule zle_int [THEN iffD2])
      then show "r_idx r < uint w"
        using snap_rows_idx_bound [OF r] by simp
    qed
    ultimately show ?thesis using good by blast
  qed
  ultimately show ?thesis
    unfolding content_ok_def h'_def by (simp add: m(1))
qed

lemma host_ok_install:
  assumes "host_ok errt ls h" and "shot_ok errt ls st" and "sh_pos h \<le> st_at st" and "sorted_wrt (<) (map log_Index ls)"
    and "\<forall>m. Decode_map errt (st_bytes st) = Inr m \<longrightarrow> enumerates (r1 m) m \<and> enumerates (r2 m) m"
  shows "host_ok errt ls (install_host errt r1 r2 d st h)"
proof -
  let ?unm = "Unmarshal_Command errt" and ?f = "sh_fsm h"
  obtain m where dec: "Decode_map errt (st_bytes st) = Inr m" and at: "st_at st \<le> length ls"
      and pairs: "\<forall>k v. m k = Some v \<longrightarrow> (k, v) \<in> cmd_kv ` puts ?unm ls"
    using assms(2) unfolding shot_ok_def by blast
  have en: "enumerates (r1 m) m" "enumerates (r2 m) m"
    using assms(5) dec by blast+
  obtain err g where R: "Restore (Decode_map errt) r1 r2 d (st_bytes st) ?f = (err, g)"
    by (cases "Restore (Decode_map errt) r1 r2 d (st_bytes st) ?f")
  show ?thesis
  proof (cases err)
    case (Some e)
    then have "g = ?f"
      using Restore_Inr [where dec = "Decode_map errt" and d = d and f = ?f and ?r1.0 = r1 and ?r2.0 = r2, OF dec en] R
      by simp
    then show ?thesis
      using R Some assms(1) by (simp add: install_host_def)
  next
    case None
    let ?h = "h\<lparr>sh_fsm := g, sh_pos := st_at st, sh_sources := (st, idle ?f) # sh_sources h\<rparr>"
    note R' = R [unfolded None]
    have "sound ?unm ls g"
      by (rule Restore_sound(1) [where dec = "Decode_map errt" and ?r1.0 = r1 and ?r2.0 = r2, OF R' dec en
          host_okD(3) [OF assms(1)] pairs])
    moreover have "node_reach errt g"
      by (rule node_reach.install [OF host_okD(2) [OF assms(1)] _ R]) (use dec en in auto)
    moreover have "dom (map_of (seen (fsm_dedup g))) \<subseteq> keys_at ?unm (take (st_at st) ls)"
      using host_okD(4) [OF assms(1)] keys_at_mono [OF assms(3)] unfolding Restore_queues(1) [OF R] by blast
    moreover have "history_ok ?unm ls ?h"
      using host_okD(5) [OF assms(1)] assms(3) Restore_queues(1) [OF R] by (auto simp: history_ok_def)
    moreover have "content_ok ?unm ls ?h" if "disciplined ?unm ls ?h"
      by (rule content_ok_install [OF assms(1-4) dec en R' that])
    moreover have "install_host errt r1 r2 d st h = ?h"
      using R None by (simp add: install_host_def)
    ultimately show ?thesis
      using at by (simp add: host_ok_def)
  qed
qed

definition cluster_inv :: "(string \<Rightarrow> string) \<Rightarrow> scluster \<Rightarrow> bool" where
  "cluster_inv errt c \<longleftrightarrow>
     sorted_wrt (<) (map log_Index (sc_log c)) \<and> (\<forall>n. host_ok errt (sc_log c) (sc_node c n))
     \<and> (\<forall>st \<in> set (sc_shots c). shot_ok errt (sc_log c) st)"

lemma sn_step_inv:
  assumes "sn_step errt c c'" and inv: "cluster_inv errt c"
  shows "cluster_inv errt c'"
proof -
  have host: "cluster_inv errt (put_host n h c)" if "host_ok errt (sc_log c) h" for n h
    using inv that by (simp add: cluster_inv_def)
  note ok = inv [unfolded cluster_inv_def, THEN conjunct1] inv [unfolded cluster_inv_def, THEN conjunct2, THEN conjunct1, rule_format]
    inv [unfolded cluster_inv_def, THEN conjunct2, THEN conjunct2, rule_format]
  from assms(1) show ?thesis
  proof cases
    case (commit l)
    then show ?thesis
      using inv by (auto simp: cluster_inv_def host_ok_commit shot_ok_commit sorted_wrt_append)
  next
    case (deliver n env)
    then show ?thesis
      using host host_ok_deliver [OF ok(2) _ ok(1)] by blast
  next
    case (work n d w)
    then show ?thesis
      using host host_ok_run [OF ok(2)] by simp
  next
    case (evict n now)
    then show ?thesis
      using host host_ok_run [OF ok(2)] by simp
  next
    case (crash getenv d kept n f)
    then show ?thesis
      using host host_ok_crash [OF ok(2) crash(2)] by blast
  next
    case (snapshot d n m r0 bytes)
    then show ?thesis
      using inv shot_ok_snapshot [OF ok(2) snapshot(2-4)] by (simp add: cluster_inv_def)
  next
    case (install st n r1 r2 d)
    then show ?thesis
      using host host_ok_install [OF ok(2) ok(3) _ ok(1)] by blast
  qed
qed

lemma sn_reach_inv:
  assumes "sn_reach errt c"
  shows "cluster_inv errt c"
  using assms
proof induction
  case (start c)
  have "host_ok errt (sc_log c) (sc_node c n)" for n
    using start.hyps(3) host_ok_fresh node_reach.boot by (metis createSchema_simps(1) image_empty empty_subsetI list.set(1))
  then show ?case
    by (simp add: start.hyps(1,2) cluster_inv_def)
next
  case (step c c')
  then show ?case
    using sn_step_inv by blast
qed

lemma sn_reach_host: "sn_reach errt c \<Longrightarrow> host_ok errt (sc_log c) (sc_node c n)"
  using sn_reach_inv unfolding cluster_inv_def by blast

section \<open>Properties\<close>

lemma disciplined_map:
  assumes "sn_reach errt c" and "one_command (decoded (Unmarshal_Command errt) (sc_log c))"
    and "sh_pos (sc_node c n) = length (sc_log c)" and "disciplined (Unmarshal_Command errt) (sc_log c) (sc_node c n)"
  shows "kv_data (fsm_kv (sh_fsm (sc_node c n))) = spec_kv (Unmarshal_Command errt) (sc_log c)"
  using content_okD(1) [OF host_okD(6) [OF sn_reach_host [OF assms(1)] assms(4)] assms(2)] on_course_end assms(3)
  by simp


text \<open>
  C15: Reads are committed. Whatever value a node shows in any reachable state, even in the middle of
  a redelivery, after evictions, with a failing database, or out of a snapshot taken and installed at
  any moment, was written to that key by a put that is committed in the log.
\<close>

theorem shown_values_are_committed:
  assumes "sn_reach errt c" and "kv_Get k (fsm_kv (sh_fsm (sc_node c n))) = (v, True)"
  shows "\<exists>cmd \<in> set (decoded (Unmarshal_Command errt) (sc_log c)).
    cmd_Op cmd = ''put'' \<and> cmd_Key cmd = k \<and> cmd_Value cmd = v"
  by (rule sound_read [OF host_okD(3) [OF sn_reach_host [OF assms(1)]] assms(2)])


section \<open>An instance\<close>

text \<open>
  A put, its retry and a put of another value are committed. The first node applies the put, writes
  it, evicts and applies the retry; it persists a snapshot, which the second node, delivered nothing so
  far, installs; then both are delivered the last entry.
\<close>

definition ex_other :: Command where
  "ex_other = \<lparr>cmd_Op = ''put'', cmd_Key = ''k'', cmd_Value = ''w'', cmd_IdempotencyKey = ''b''\<rparr>"

definition ex_log3 :: "raft_Log list" where
  "ex_log3 = [ex_json_log, ex_json_log\<lparr>log_Index := 2\<rparr>, \<lparr>log_Index = 3, log_Data = Marshal_Command ex_other\<rparr>]"

abbreviation ex_unm3 :: unmarshal where
  "ex_unm3 \<equiv> Unmarshal_Command ex_text"

definition ex_hosts :: "string \<Rightarrow> shost" where
  "ex_hosts n = fresh_host (ex_up [] n)"

definition ex_taker :: shost where
  "ex_taker = deliver_host ex_unm3 (ex_at 1000000000) ex_log3 (run_host ex_unm3 (NEvict 5)
     (run_host ex_unm3 (NWork no_fault WTick) (run_host ex_unm3 (NWork no_fault WRecv)
       (deliver_host ex_unm3 (ex_at 0) ex_log3 (ex_hosts ''node1'')))))"

definition ex_shot :: shot where
  "ex_shot = shot_of ex_unm3 ex_log3 (Encode_map ex_rng [''k'' \<mapsto> ''<v>'']) ex_taker"

definition ex_installed :: shost where
  "ex_installed = install_host ex_text ex_rng ex_rng no_fault ex_shot (ex_hosts ''node2'')"

definition ex_shared :: scluster where
  "ex_shared = \<lparr>sc_log = ex_log3,
     sc_node = ex_hosts(''node1'' := deliver_host ex_unm3 (ex_at 2000000000) ex_log3 ex_taker,
       ''node2'' := deliver_host ex_unm3 (ex_at 7) ex_log3 ex_installed),
     sc_shots = [ex_shot]\<rparr>"

lemma ex_other_unmarshals: "ex_unm3 (Marshal_Command ex_other) = Inr ex_other"
  by (simp add: Unmarshal_Marshal valid_Command_iff [THEN iffD2] Command_ok_def Command_values_def ex_other_def
      valid_utf8_ascii)

lemma ex_log3_decoded: "decoded ex_unm3 ex_log3 = [put_command ex_json_req, put_command ex_json_req, ex_other]"
  using ex_json_unmarshals [of ex_text] by (simp add: ex_log3_def decoded_def ex_other_unmarshals)

lemma ex_log3_nth:
  "ex_log3 ! 0 = ex_json_log" "ex_log3 ! Suc 0 = ex_json_log\<lparr>log_Index := 2\<rparr>"
  "ex_log3 ! 2 = \<lparr>log_Index = 3, log_Data = Marshal_Command ex_other\<rparr>" "length ex_log3 = 3"
  by (simp_all add: ex_log3_def)

lemma ex_taker_fsm:
  "tbl (db (sh_fsm ex_taker)) = [\<lparr>r_idx = 1, r_idem = ''a'', r_key = ''k'', r_value = ''<v>''\<rparr>]"
  "db_open (db (sh_fsm ex_taker))" "idle (sh_fsm ex_taker)"
proof -
  have node1: "ex_up [] ''node1'' = ex_node []"
    by (simp add: ex_up_def ex_node_def)
  have ttl: "sint (- times_unit 10 minute) = - 600000000000"
    using retention_of_minutes(2) [of 10] by (simp add: int64_max_def)
  show "tbl (db (sh_fsm ex_taker)) = [\<lparr>r_idx = 1, r_idem = ''a'', r_key = ''k'', r_value = ''<v>''\<rparr>]"
    "db_open (db (sh_fsm ex_taker))" "idle (sh_fsm ex_taker)"
    using ex_json_unmarshals [of ex_text]
    by (simp_all add: ex_taker_def deliver_host_def run_host_def ex_hosts_def fresh_host_def node1 ex_log3_def
        Apply_put Apply_dup after_put_def run_defs idle_def dedup_New_def put_command_def ex_json_req_def
        ex_json_log_def ex_at_def entry_for_def row_of_def ttl)
qed

lemma ex_taker_history:
  "sh_pos ex_taker = 2" "sh_got ex_taker = [0, 1]" "sh_sources ex_taker = []" "sh_boot ex_taker = ex_up [] ''node1''"
  "sh_life ex_taker = [NApply (ex_log3 ! 0) (ex_at 0), NWork no_fault WRecv, NWork no_fault WTick, NEvict 5,
     NApply (ex_log3 ! 1) (ex_at 1000000000)]"
  by (simp_all add: ex_taker_def deliver_host_def run_host_def ex_hosts_def fresh_host_def)

lemma ex_shot_simps: "st_at ex_shot = 2" "st_orderly ex_shot"
proof -
  have "disciplined ex_unm3 ex_log3 ex_taker"
    using ex_json_unmarshals [of ex_text]
    by (simp add: disciplined_def ex_taker_history ex_at_def ex_log3_nth less_2_cases_iff)
  moreover have "stored_all ex_taker"
    using startup_Up(1) [OF ex_up_startup [of None]]
    by (simp add: stored_all_def ex_taker_history ex_at_def env_healthy_def send_env_def)
  ultimately show "st_at ex_shot = 2" "st_orderly ex_shot"
    by (simp_all add: ex_shot_def shot_of_def ex_taker_history ex_taker_fsm)
qed

lemma ex_shot_map:
  "enumerates (ex_rng [''k'' \<mapsto> ''<v>'']) [''k'' \<mapsto> ''<v>'']" "Decode_map ex_text (st_bytes ex_shot) = Inr [''k'' \<mapsto> ''<v>'']"
proof -
  show en: "enumerates (ex_rng [''k'' \<mapsto> ''<v>'']) [''k'' \<mapsto> ''<v>'']"
    by (simp add: ex_rng_def enumerates_def)
  show "Decode_map ex_text (st_bytes ex_shot) = Inr [''k'' \<mapsto> ''<v>'']"
    unfolding ex_shot_def shot_of_def using en
    by (simp add: Decode_Encode_map map_ok_def valid_utf8_ascii)
qed

lemma ex_installed_history:
  "sh_pos ex_installed = 2" "sh_got ex_installed = []" "sh_life ex_installed = []"
  "sh_sources ex_installed = [(ex_shot, True)]" "sh_boot ex_installed = ex_up [] ''node2''"
proof -
  obtain g where "Restore (Decode_map ex_text) ex_rng ex_rng no_fault (st_bytes ex_shot) (ex_up [] ''node2'') = (None, g)"
    using startup_Up(2) [OF ex_up_startup [of None "''node2''"]] by (simp add: Restore_def ex_shot_map ReplaceAll_no_fault)
  moreover have "idle (ex_up [] ''node2'')"
    using startup_Up(3,4) [OF ex_up_startup [of None "''node2''"]] by (simp add: idle_def)
  ultimately show "sh_pos ex_installed = 2" "sh_got ex_installed = []" "sh_life ex_installed = []"
    "sh_sources ex_installed = [(ex_shot, True)]" "sh_boot ex_installed = ex_up [] ''node2''"
    by (simp_all add: ex_installed_def install_host_def ex_hosts_def fresh_host_def ex_shot_simps)
qed

lemma ex_shared_reach: "sn_reach ex_text ex_shared"
proof -
  let ?c = "\<lambda>N S. \<lparr>sc_log = ex_log3, sc_node = N, sc_shots = S\<rparr>" and ?m = "[''k'' \<mapsto> ''<v>''] :: string \<rightharpoonup> string"
  have commit: "sn_reach ex_text \<lparr>sc_log = L @ [l], sc_node = ex_hosts, sc_shots = []\<rparr>"
    if "sn_reach ex_text \<lparr>sc_log = L, sc_node = ex_hosts, sc_shots = []\<rparr>" "\<forall>l' \<in> set L. log_Index l' < log_Index l" for L l
    using sn_reach.step [OF that(1) sn_step.commit [of _ l ex_text]] that(2) by simp
  have "sn_reach ex_text \<lparr>sc_log = [], sc_node = ex_hosts, sc_shots = []\<rparr>"
    using ex_up_startup [of None] by (intro sn_reach.start) (auto simp: ex_hosts_def)
  from commit [OF commit [OF commit [OF this, of ex_json_log], of "ex_json_log\<lparr>log_Index := 2\<rparr>"],
      of "\<lparr>log_Index = 3, log_Data = Marshal_Command ex_other\<rparr>"]
  have start: "sn_reach ex_text (?c ex_hosts [])"
    by (simp add: ex_log3_def ex_json_log_def)
  have put: "sn_reach ex_text (?c (N(n := deliver_host ex_unm3 env ex_log3 h)) S)"
    if "sn_reach ex_text (?c (N(n := h)) S)" "sh_pos h < 3" for N n h S env
    using sn_reach.step [OF that(1) sn_step.deliver [where n = n and env = env]] that(2)
    by (simp add: put_host_def ex_log3_def)
  have work: "sn_reach ex_text (?c (N(n := run_host ex_unm3 (NWork d w) h)) S)"
    if "sn_reach ex_text (?c (N(n := h)) S)" for N n h S d w
    using sn_reach.step [OF that(1) sn_step.work [where n = n and d = d and w = w]] by (simp add: put_host_def)
  have evict: "sn_reach ex_text (?c (N(n := run_host ex_unm3 (NEvict t) h)) S)"
    if "sn_reach ex_text (?c (N(n := h)) S)" for N n h S t
    using sn_reach.step [OF that(1) sn_step.evict [where n = n and now = t]] by (simp add: put_host_def)
  have pos: "sh_pos (run_host unm ev h) = sh_pos h" "sh_pos (deliver_host unm env ls h) = Suc (sh_pos h)"
      "sh_pos (ex_hosts n) = 0" for unm ev h env ls n
    by (simp_all add: run_host_def deliver_host_def ex_hosts_def fresh_host_def)
  have "sn_reach ex_text (?c (ex_hosts(''node1'' := ex_taker)) [])"
    unfolding ex_taker_def by (intro put work evict) (simp_all add: pos start fun_upd_idem)
  moreover have "Snapshot no_fault (sh_fsm ex_taker) = Inr ?m"
    using Snapshot_no_fault [of "sh_fsm ex_taker"] ex_taker_fsm by (simp add: replay_map_def row_kv_def)
  ultimately have "sn_reach ex_text (?c (ex_hosts(''node1'' := ex_taker)) [ex_shot])"
    using sn_step.snapshot [of no_fault "?c (ex_hosts(''node1'' := ex_taker)) []" "''node1''" ?m ex_rng _ ex_text]
      ex_shot_map(1) sn_reach.step by (fastforce simp: ex_shot_def Persist_def)
  then have "sn_reach ex_text (?c (ex_hosts(''node1'' := ex_taker, ''node2'' := ex_installed)) [ex_shot])"
    using sn_step.install [of ex_shot "?c (ex_hosts(''node1'' := ex_taker)) [ex_shot]" "''node2''" ex_text ex_rng ex_rng no_fault]
      sn_reach.step ex_shot_map by (fastforce simp: put_host_def pos ex_installed_def)
  from put [OF this, of "ex_at 7"]
  have "sn_reach ex_text (?c (ex_hosts(''node1'' := ex_taker, ''node2'' := deliver_host ex_unm3 (ex_at 7) ex_log3 ex_installed)) [ex_shot])"
    by (simp add: ex_installed_history)
  then have "sn_reach ex_text (?c ((ex_hosts(''node2'' := deliver_host ex_unm3 (ex_at 7) ex_log3 ex_installed))
      (''node1'' := ex_taker)) [ex_shot])"
    by (simp add: fun_upd_twist)
  from put [OF this, of "ex_at 2000000000"] show ?thesis
    by (simp add: ex_shared_def ex_taker_history fun_upd_twist)
qed

lemma ex_shared_hosts:
  "sc_log ex_shared = ex_log3" "one_command (decoded ex_unm3 (sc_log ex_shared))"
  "n \<in> {''node1'', ''node2''} \<Longrightarrow> sh_pos (sc_node ex_shared n) = length (sc_log ex_shared)
     \<and> disciplined ex_unm3 (sc_log ex_shared) (sc_node ex_shared n)"
  "spec_kv ex_unm3 ex_log3 ''k'' = Some ''w''"
proof -
  note unm = ex_json_unmarshals [of ex_text] ex_other_unmarshals
  have keys: "cmd_IdempotencyKey (put_command ex_json_req) = ''a''" "cmd_IdempotencyKey ex_other = ''b''"
    by (simp_all add: put_command_def ex_json_req_def ex_other_def)
  show "sc_log ex_shared = ex_log3"
    by (simp add: ex_shared_def)
  then show "one_command (decoded ex_unm3 (sc_log ex_shared))"
    by (simp add: ex_log3_decoded one_command_def keys)
  show "sh_pos (sc_node ex_shared n) = length (sc_log ex_shared)
     \<and> disciplined ex_unm3 (sc_log ex_shared) (sc_node ex_shared n)" if "n \<in> {''node1'', ''node2''}"
  proof -
    have fresh: "\<not> repeats ex_unm3 (ex_log3 ! i) (ex_log3 ! 2)" if "i < 2" for i
      using that unm keys by (auto simp: less_2_cases_iff repeats_def ex_log3_nth)
    have "disciplined ex_unm3 ex_log3 (sc_node ex_shared ''node1'')"
      using unm keys
      by (auto simp: ex_shared_def deliver_host_def run_host_def disciplined_def ex_taker_history ex_at_def ex_log3_nth)
    moreover have "disciplined ex_unm3 ex_log3 (sc_node ex_shared ''node2'')"
      using unm fresh
      by (auto simp: ex_shared_def deliver_host_def run_host_def disciplined_def ex_installed_history ex_shot_simps
          split: sum.split)
    ultimately show ?thesis
      using that by (auto simp: ex_shared_def deliver_host_def run_host_def ex_taker_history ex_installed_history ex_log3_nth)
  qed
  show "spec_kv ex_unm3 ex_log3 ''k'' = Some ''w''"
    by (simp add: spec_kv_writes ex_log3_decoded takes_def spec_step_def keys cmd_kv_def)
      (simp add: put_command_def ex_other_def)
qed



theorem shown_values_are_committed_witness:
  "\<exists>cmd \<in> set (decoded ex_unm3 (sc_log ex_shared)).
     cmd_Op cmd = ''put'' \<and> cmd_Key cmd = ''k'' \<and> cmd_Value cmd = ''w''"
proof -
  have "kv_data (fsm_kv (sh_fsm (sc_node ex_shared ''node2''))) ''k'' = Some ''w''"
    using disciplined_map [OF ex_shared_reach ex_shared_hosts(2), of "''node2''"] ex_shared_hosts(1,3,4) by simp
  then have "kv_Get ''k'' (fsm_kv (sh_fsm (sc_node ex_shared ''node2''))) = (''w'', True)"
    by (simp add: kv_Get_def)
  then show ?thesis
    by (rule shown_values_are_committed [OF ex_shared_reach])
qed

end
