(* ===== verification/Concurrency.thy ===== *)
theory Concurrency
  imports Prelude Process
begin

text \<open>
  Requests and goroutines overlap: while the handler of a PUT waits for raft or another node, raft
  applies entries, the batch worker flushes, the cleaner evicts and snapshots are installed. The
  theories before take a request as one step. Here \<^verbatim>\<open>handlePut\<close> and what it calls are written once more,
  in small steps, of which each is one access to what the handler shares with others, and these steps
  are interleaved with those of the process. It is shown that the small steps are the handler of the
  theory \<^verbatim>\<open>Server\<close>, and that the moment of its step there does not matter: what the handler shares with the
  goroutines of the node are counters, and the atomic operations on those commute.
\<close>

section \<open>Operations on the counters\<close>

text \<open>Changes of the metrics that commute with those the goroutines of a node make.\<close>

definition aside :: "(metrics \<Rightarrow> metrics) \<Rightarrow> bool" where
  "aside h \<longleftrightarrow>
     (\<forall>m. h (RecordWrite m) = RecordWrite (h m)) \<and> (\<forall>m. h (RecordDuplicate m) = RecordDuplicate (h m))
     \<and> (\<forall>m. h (RecordError m) = RecordError (h m)) \<and> (\<forall>n m. h (SetQueueDepth n m) = SetQueueDepth n (h m))
     \<and> (\<forall>n m. h (SetDedupMapSize n m) = SetDedupMapSize n (h m))"

lemma asideD:
  assumes "aside h"
  shows "h (RecordWrite m) = RecordWrite (h m)" "h (RecordDuplicate m) = RecordDuplicate (h m)"
    "h (RecordError m) = RecordError (h m)" "h (SetQueueDepth n m) = SetQueueDepth n (h m)"
    "h (SetDedupMapSize n m) = SetDedupMapSize n (h m)"
  using assms unfolding aside_def by blast+

lemma aside_handlers:
  "aside (\<lambda>m. m)" "aside RecordForward" "aside RecordError" "aside (\<lambda>m. m\<lparr>Latency := t\<rparr>)"
  by (simp_all add: aside_def metrics_defs)

lemma aside_comp: "aside g \<Longrightarrow> aside h \<Longrightarrow> aside (\<lambda>m. g (h m))"
  by (simp add: aside_def)

definition under :: "(metrics \<Rightarrow> metrics) \<Rightarrow> 'a bwsys_scheme \<Rightarrow> 'a bwsys_scheme" where
  "under h s = s\<lparr>mets := h (mets s)\<rparr>"

lemma under_simps [simp]:
  "ch (under h s) = ch s" "chan_cap (under h s) = chan_cap s" "stop_closed (under h s) = stop_closed s"
  "flushSize (under h s) = flushSize s" "batch (under h s) = batch s" "wpc (under h s) = wpc s" "db (under h s) = db s"
  "mets (under h s) = h (mets s)"
  by (simp_all add: under_def)

lemma under_fsm [simp]:
  "fsm_kv (under h (f :: FSM)) = fsm_kv f" "fsm_dedup (under h f) = fsm_dedup f"
  by (simp_all add: under_def)

section \<open>The goroutines of a node\<close>

lemma flush_under: "aside h \<Longrightarrow> flush d (under h s) = under h (flush d s)"
  by (auto simp: flush_def under_def asideD Let_def split: prod.splits)

lemma worker_under:
  assumes "aside h"
  shows "worker_step d c (under h s) = map_option (under h) (worker_step d c s)"
proof -
  have "(under h s)\<lparr>ch := x, batch := y\<rparr> = under h (s\<lparr>ch := x, batch := y\<rparr>)"
    "(under h s)\<lparr>wpc := w\<rparr> = under h (s\<lparr>wpc := w\<rparr>)" for x y w and s :: "'a bwsys_scheme"
    by (simp_all add: under_def)
  then show ?thesis
    by (cases c) (simp_all add: flush_under [OF assms] Let_def split: list.split)
qed

lemma pump_under: "aside h \<Longrightarrow> pump_worker dc (under h s) = under h (pump_worker dc s)"
  by (auto simp: pump_worker_def worker_under split: option.split)

lemma Send_under:
  assumes "aside h"
  shows "Send sched d e (under h s) = under h (Send sched d e s)"
proof (induction sched arbitrary: s)
  case Nil
  show ?case
    using assms by (auto simp: Send.simps Let_def under_def asideD split: prod.splits)
next
  case (Cons dc sched)
  obtain dw c where dc: "dc = (dw, c)" by (cases dc)
  have "(case worker_step dw c (under h s) of None \<Rightarrow> under h s | Some s' \<Rightarrow> s') =
      under h (case worker_step dw c s of None \<Rightarrow> s | Some s' \<Rightarrow> s')"
    using worker_under [OF assms, of dw c s] by (cases "worker_step dw c s") simp_all
  then have "Send (dc # sched) d e (under h s) = under h (Send (dc # sched) d e s)" if "\<not> length (ch s) < chan_cap s"
    using that Cons by (simp add: Send.simps dc)
  then show ?case
    using assms by (cases "length (ch s) < chan_cap s") (simp_all add: Send.simps dc Let_def, simp add: under_def asideD)
qed

lemma Apply_under:
  assumes "aside h"
  shows "fst (Apply unm env l (under h f)) = under h (fst (Apply unm env l f))"
proof (cases "unm (log_Data l)")
  case (Inr c)
  have put: "after_put env i c (under h f) = under h (after_put env i c f)" for i
  proof -
    let ?f = "f\<lparr>fsm_kv := kv_Set (cmd_Key c) (cmd_Value c) (fsm_kv f)\<rparr>"
    have "(under h f)\<lparr>fsm_kv := kv_Set (cmd_Key c) (cmd_Value c) (fsm_kv (under h f))\<rparr> = under h ?f"
      by (simp add: under_def)
    then show ?thesis
      using assms by (simp add: after_put_def Let_def Send_under [OF assms]) (simp add: under_def asideD)
  qed
  have dup: "(under h f)\<lparr>mets := RecordDuplicate (mets (under h f))\<rparr> = under h (f\<lparr>mets := RecordDuplicate (mets f)\<rparr>)"
    using assms by (simp add: under_def asideD)
  show ?thesis
    using Inr put dup by (cases rule: Apply_cases [of unm l env f]) (simp_all add: Apply_dup Apply_put Apply_unknown)
qed (simp add: Apply_decode)

lemma node_step_under:
  assumes "aside h"
  shows "node_step unm ev (under h f) = under h (node_step unm ev f)"
proof (cases ev)
  case (NEvict now)
  then show ?thesis
    using assms by (simp add: evict_def Let_def) (simp add: under_def asideD)
qed (simp_all add: Apply_under pump_under assms)

lemma Restore_under:
  "snd (Restore dec r1 r2 d rc (under h f)) = under h (snd (Restore dec r1 r2 d rc f))"
  by (auto simp: Restore_def under_def split: sum.split prod.splits option.split)

section \<open>A PUT in small steps\<close>

text \<open>
  Where \<^verbatim>\<open>handlePut\<close> stands: before its first line; holding a slot, before it decodes the body, asks
  for the leader, counts a forward, proposes, waits for the future, counts an error, or asks who
  took over; in turn \<open>i\<close> of \<^verbatim>\<open>forwardWithRetry\<close>, before it resolves the leader's address, asks for the leader's
  name, backs off before a POST, sends it, or sleeps before the next turn; before each of
  the two deferred calls; and answered.
\<close>

datatype put_pc =
    PutStart
  | PutDecode
  | PutAsk PutRequest
  | PutForward PutRequest
  | PutPropose PutRequest
  | PutFuture PutRequest
  | PutFailed string
  | PutLost PutRequest
  | PutResolve PutRequest nat
  | PutName PutRequest nat string
  | PutBackoff PutRequest nat string string nat
  | PutPost PutRequest nat string string nat
  | PutWait PutRequest nat duration
  | PutRelease Response
  | PutLatency Response
  | PutDone Response

definition turn_failed :: "PutRequest \<Rightarrow> nat \<Rightarrow> string \<Rightarrow> put_pc" where
  "turn_failed req i err =
     (if i < forward_tries - 1 then PutWait req i (times_unit 100 millisecond)
      else PutRelease (http_Error (''forward error: '' @ err) 502))"

text \<open>
  One step is one access to what the handler shares with others: the semaphore, raft, the network, a
  counter, the latency window. \<open>None\<close> is a panic of the recorder.
\<close>

fun handlePut_step ::
    "codec \<Rightarrow> surroundings \<Rightarrow> Server \<Rightarrow> Request \<Rightarrow> put_pc \<times> effects \<Rightarrow> (put_pc \<times> effects) option" where
  "handlePut_step cd sr s rq (PutStart, fx) =
     Some (if rq_Method rq \<noteq> ''POST'' then (PutLatency (http_Error ''method not allowed'' 405), fx)
           else if \<not> sr_slot sr then (PutLatency (http_Error ''server overloaded, try again'' 503), fx)
           else (PutDecode, fx\<lparr>fx_sem := fx_sem fx + 1\<rparr>))"
| "handlePut_step cd sr s rq (PutDecode, fx) =
     Some (case cd_dec_put cd (rq_Body rq) of
             Inl e \<Rightarrow> PutRelease (http_Error (''bad request: '' @ e) 400)
           | Inr req \<Rightarrow>
               (if pr_Key req = [] then PutRelease (http_Error ''key is required'' 400)
                else if pr_IdempotencyKey req = [] then PutRelease (http_Error ''idempotency_key is required'' 400)
                else PutAsk req), fx)"
| "handlePut_step cd sr s rq (PutAsk req, fx) =
     (let (ld, fx1) = ask sr fx in Some (if \<not> IsLeader ld (sv_node s) then PutForward req else PutPropose req, fx1))"
| "handlePut_step cd sr s rq (PutForward req, fx) =
     Some (PutResolve req 0, fx\<lparr>fx_mets := RecordForward (fx_mets fx)\<rparr>)"
| "handlePut_step cd sr s rq (PutPropose req, fx) =
     Some (case cd_enc_cmd cd (put_command req) of
             Inl e \<Rightarrow> (PutRelease (http_Error ''encode error'' 500), fx)
           | Inr data \<Rightarrow> (PutFuture req, fx\<lparr>fx_proposed := fx_proposed fx @ [data]\<rparr>))"
| "handlePut_step cd sr s rq (PutFuture req, fx) =
     (let (applied, err) = cluster_Apply (sr_future sr)
      in Some (case err of
                 Some e \<Rightarrow> PutFailed e
               | None \<Rightarrow> (if \<not> applied then PutLost req else PutRelease ok_empty), fx))"
| "handlePut_step cd sr s rq (PutFailed e, fx) =
     Some (PutRelease (http_Error (''raft apply: '' @ e) 500), fx\<lparr>fx_mets := RecordError (fx_mets fx)\<rparr>)"
| "handlePut_step cd sr s rq (PutLost req, fx) = Some (PutForward req, snd (ask sr fx))"
| "handlePut_step cd sr s rq (PutResolve req i, fx) =
     (if i < forward_tries then
        let (ld, fx1) = ask sr fx in Some (PutName req i (LeaderHTTPAddr ld (sv_peers s) (sv_httpAddrs s)), fx1)
      else Some (PutRelease ok_empty, fx))"
| "handlePut_step cd sr s rq (PutName req i addr, fx) =
     Some (if addr = [] then
             (if i < forward_tries - 1 then PutWait req i (times_unit 150 millisecond)
              else PutRelease (http_Error (''no leader elected '' @ em_dash @ '' try again shortly'') 503))
           else
             (case cd_enc_put cd req of
                Inl e \<Rightarrow> turn_failed req i (''marshal forward request: '' @ e)
              | Inr body \<Rightarrow> PutPost req i addr body 0), snd (ask sr fx))"
| "handlePut_step cd sr s rq (PutBackoff req i addr body a, fx) =
     Some (PutPost req i addr body a, go_sleep (times_unit (int a * 100) millisecond) fx)"
| "handlePut_step cd sr s rq (PutPost req i addr body a, fx) =
     (let (ans, fx1) = post sr (put_url addr) body fx
      in Some (case ans of
                 ConnErr e \<Rightarrow>
                   (if Suc a < maxForwardRetries then PutBackoff req i addr body (Suc a)
                    else turn_failed req i (connect_error a addr e))
               | Answer code b \<Rightarrow>
                   (if code = 200 then PutRelease ok_empty else turn_failed req i (status_error a code b)), fx1))"
| "handlePut_step cd sr s rq (PutWait req i d, fx) = Some (PutResolve req (Suc i), go_sleep d fx)"
| "handlePut_step cd sr s rq (PutRelease rs, fx) = Some (PutLatency rs, fx\<lparr>fx_sem := fx_sem fx - 1\<rparr>)"
| "handlePut_step cd sr s rq (PutLatency rs, fx) =
     (case Record (sr_nanos sr) (Latency (fx_mets fx)) of
        None \<Rightarrow> None
      | Some t \<Rightarrow> Some (PutDone rs, fx\<lparr>fx_mets := (fx_mets fx)\<lparr>Latency := t\<rparr>\<rparr>))"
| "handlePut_step cd sr s rq (PutDone rs, fx) = Some (PutDone rs, fx)"

text \<open>What is left of the handler at each of its points, in terms of the functions it is made of.\<close>

definition leave :: "surroundings \<Rightarrow> Response \<times> effects \<Rightarrow> (Response \<times> effects) option" where
  "leave sr r =
     (case Record (sr_nanos sr) (Latency (fx_mets (snd r))) of
        None \<Rightarrow> None
      | Some t \<Rightarrow> Some (fst r, (snd r)\<lparr>fx_mets := (fx_mets (snd r))\<lparr>Latency := t\<rparr>\<rparr>))"

definition release :: "surroundings \<Rightarrow> Response \<times> effects \<Rightarrow> (Response \<times> effects) option" where
  "release sr r = leave sr (fst r, (snd r)\<lparr>fx_sem := fx_sem (snd r) - 1\<rparr>)"

definition after_turn ::
    "codec \<Rightarrow> surroundings \<Rightarrow> Server \<Rightarrow> PutRequest \<Rightarrow> nat \<Rightarrow> go_error \<times> effects \<Rightarrow> Response \<times> effects" where
  "after_turn cd sr s req i r =
     (case fst r of
        None \<Rightarrow> (ok_empty, snd r)
      | Some err \<Rightarrow>
          (if i < forward_tries - 1 then
             forward_loop cd sr s req [Suc i..<forward_tries] (go_sleep (times_unit 100 millisecond) (snd r))
           else (http_Error (''forward error: '' @ err) 502, snd r)))"

fun put_rest ::
    "codec \<Rightarrow> surroundings \<Rightarrow> Server \<Rightarrow> Request \<Rightarrow> put_pc \<Rightarrow> effects \<Rightarrow> (Response \<times> effects) option" where
  "put_rest cd sr s rq PutStart fx = handlePut cd sr s rq fx"
| "put_rest cd sr s rq PutDecode fx = release sr (put_body cd sr s rq fx)"
| "put_rest cd sr s rq (PutAsk req) fx =
     (let (ld, fx1) = ask sr fx
      in release sr (if \<not> IsLeader ld (sv_node s) then
             forwardWithRetry cd sr s req (fx1\<lparr>fx_mets := RecordForward (fx_mets fx1)\<rparr>)
           else applyAsLeader cd sr s req fx1))"
| "put_rest cd sr s rq (PutForward req) fx =
     release sr (forwardWithRetry cd sr s req (fx\<lparr>fx_mets := RecordForward (fx_mets fx)\<rparr>))"
| "put_rest cd sr s rq (PutPropose req) fx = release sr (applyAsLeader cd sr s req fx)"
| "put_rest cd sr s rq (PutFuture req) fx =
     (let (applied, err) = cluster_Apply (sr_future sr)
      in release sr (case err of
           Some e \<Rightarrow> (http_Error (''raft apply: '' @ e) 500, fx\<lparr>fx_mets := RecordError (fx_mets fx)\<rparr>)
         | None \<Rightarrow>
             (if \<not> applied then
                let fx1 = snd (ask sr fx)
                in forwardWithRetry cd sr s req (fx1\<lparr>fx_mets := RecordForward (fx_mets fx1)\<rparr>)
              else (ok_empty, fx))))"
| "put_rest cd sr s rq (PutFailed e) fx =
     release sr (http_Error (''raft apply: '' @ e) 500, fx\<lparr>fx_mets := RecordError (fx_mets fx)\<rparr>)"
| "put_rest cd sr s rq (PutLost req) fx =
     (let fx1 = snd (ask sr fx)
      in release sr (forwardWithRetry cd sr s req (fx1\<lparr>fx_mets := RecordForward (fx_mets fx1)\<rparr>)))"
| "put_rest cd sr s rq (PutResolve req i) fx = release sr (forward_loop cd sr s req [i..<forward_tries] fx)"
| "put_rest cd sr s rq (PutName req i addr) fx =
     release sr
       (if addr = [] then
          (if i < forward_tries - 1 then
             forward_loop cd sr s req [Suc i..<forward_tries] (go_sleep (times_unit 150 millisecond) (snd (ask sr fx)))
           else (http_Error (''no leader elected '' @ em_dash @ '' try again shortly'') 503, snd (ask sr fx)))
        else after_turn cd sr s req i (forwardToLeader cd sr addr req (snd (ask sr fx))))"
| "put_rest cd sr s rq (PutBackoff req i addr body a) fx =
     release sr (after_turn cd sr s req i
       (let (ans, fx1) = post sr (put_url addr) body (go_sleep (times_unit (int a * 100) millisecond) fx)
        in case ans of
             ConnErr e \<Rightarrow> post_attempts sr addr body [Suc a..<maxForwardRetries] (Some (connect_error a addr e)) fx1
           | Answer code b \<Rightarrow> (if code = 200 then None else Some (status_error a code b), fx1)))"
| "put_rest cd sr s rq (PutPost req i addr body a) fx =
     release sr (after_turn cd sr s req i
       (let (ans, fx1) = post sr (put_url addr) body fx
        in case ans of
             ConnErr e \<Rightarrow> post_attempts sr addr body [Suc a..<maxForwardRetries] (Some (connect_error a addr e)) fx1
           | Answer code b \<Rightarrow> (if code = 200 then None else Some (status_error a code b), fx1)))"
| "put_rest cd sr s rq (PutWait req i d) fx =
     release sr (forward_loop cd sr s req [Suc i..<forward_tries] (go_sleep d fx))"
| "put_rest cd sr s rq (PutRelease rs) fx = release sr (rs, fx)"
| "put_rest cd sr s rq (PutLatency rs) fx = leave sr (rs, fx)"
| "put_rest cd sr s rq (PutDone rs) fx = Some (rs, fx)"

lemma put_rest_turn_failed:
  "put_rest cd sr s rq (turn_failed req i err) fx = release sr (after_turn cd sr s req i (Some err, fx))"
  by (simp add: turn_failed_def after_turn_def)

lemma after_turn_None: "after_turn cd sr s req i (None, fx) = (ok_empty, fx)"
  by (simp add: after_turn_def)

text \<open>The steps are those of \<^verbatim>\<open>handlePut\<close>: each leaves what was left before it.\<close>

lemma put_rest_step:
  "put_rest cd sr s rq pc fx =
     (case handlePut_step cd sr s rq (pc, fx) of None \<Rightarrow> None | Some (pc', fx') \<Rightarrow> put_rest cd sr s rq pc' fx')"
proof (cases pc)
  case PutStart
  then show ?thesis
    by (simp add: handlePut_def release_def leave_def case_prod_beta Let_def split: option.split)
next
  case PutDecode
  then show ?thesis
    by (simp add: put_body_def case_prod_beta split: sum.split)
next
  case (PutPropose req)
  then show ?thesis
    by (cases "cluster_Apply (sr_future sr)"; cases "snd (cluster_Apply (sr_future sr))")
      (simp_all add: applyAsLeader_def Let_def split: sum.split)
next
  case (PutResolve req i)
  show ?thesis
  proof (cases "i < forward_tries")
    case True
    then have "[i..<forward_tries] = i # [Suc i..<forward_tries]"
      by (rule upt_conv_Cons)
    then show ?thesis
      using PutResolve True by (simp add: case_prod_beta Let_def after_turn_def split: option.split)
  qed (use PutResolve in simp)
next
  case (PutName req i addr)
  have "[0..<maxForwardRetries] = 0 # [Suc 0..<maxForwardRetries]"
    by (rule upt_conv_Cons) (simp add: maxForwardRetries_def)
  then show ?thesis
    using PutName
    by (simp add: put_rest_turn_failed forwardToLeader_def case_prod_beta Let_def split: sum.split http_answer.split)
next
  case (PutPost req i addr body a)
  show ?thesis
  proof (cases "Suc a < maxForwardRetries")
    case True
    then have "[Suc a..<maxForwardRetries] = Suc a # [Suc (Suc a)..<maxForwardRetries]"
      by (rule upt_conv_Cons)
    then show ?thesis
      using PutPost True
      by (cases "fst (post sr (put_url addr) body fx)") 
        (simp_all add: put_rest_turn_failed after_turn_None case_prod_beta Let_def split: http_answer.split)
  next
    case False
    then show ?thesis
      using PutPost by (simp add: put_rest_turn_failed after_turn_def case_prod_beta Let_def split: http_answer.split)
  qed
qed (simp_all add: forwardWithRetry_def release_def leave_def case_prod_beta Let_def split: option.split)

text \<open>At most 32 steps lead to the answer.\<close>

definition put_turns :: nat where "put_turns = 32"

fun put_rank :: "put_pc \<Rightarrow> nat" where
  "put_rank PutStart = put_turns"
| "put_rank PutDecode = 31"
| "put_rank (PutAsk req) = 30"
| "put_rank (PutPropose req) = 29"
| "put_rank (PutFuture req) = 28"
| "put_rank (PutLost req) = 27"
| "put_rank (PutForward req) = 26"
| "put_rank (PutResolve req i) = (if i < 3 then 1 + 8 * (3 - i) else 3)"
| "put_rank (PutName req i addr) = (if i < 3 then 8 * (3 - i) else 8)"
| "put_rank (PutPost req i addr body a) = 8 * (2 - i) + 3 + 2 * (2 - a)"
| "put_rank (PutBackoff req i addr body a) = 8 * (2 - i) + 4 + 2 * (2 - a)"
| "put_rank (PutWait req i d) = (if i < 2 then 2 + 8 * (2 - i) else 4)"
| "put_rank (PutFailed e) = 3"
| "put_rank (PutRelease rs) = 2"
| "put_rank (PutLatency rs) = 1"
| "put_rank (PutDone rs) = 0"

section \<open>What a PUT shares\<close>

definition counting :: "metrics \<Rightarrow> effects \<Rightarrow> effects" where
  "counting m fx = fx\<lparr>fx_mets := m\<rparr>"

lemma counting_simps [simp]:
  "fx_mets (counting m fx) = m" "counting m (counting m' fx) = counting m fx" "counting (fx_mets fx) fx = fx"
  "(counting m fx)\<lparr>fx_mets := m'\<rparr> = counting m' fx"
  "fx_sem (counting m fx) = fx_sem fx" "fx_proposed (counting m fx) = fx_proposed fx"
  "(counting m fx)\<lparr>fx_sem := n\<rparr> = counting m (fx\<lparr>fx_sem := n\<rparr>)"
  "(counting m fx)\<lparr>fx_proposed := ps\<rparr> = counting m (fx\<lparr>fx_proposed := ps\<rparr>)"
  by (simp_all add: counting_def)

lemma effects_counting:
  "ask sr (counting m fx) = map_prod id (counting m) (ask sr fx)" "go_sleep d (counting m fx) = counting m (go_sleep d fx)"
  "post sr url body (counting m fx) = map_prod id (counting m) (post sr url body fx)"
  by (simp_all add: counting_def ask_def go_sleep_def post_def)

text \<open>
  A step before the last deferred call changes the metrics by at most one counter, and does otherwise
  not depend on them, nor on the map.
\<close>

definition one_counter :: "(metrics \<Rightarrow> metrics) set" where
  "one_counter = {\<lambda>m. m, RecordForward, RecordError}"

lemma one_counterD: "h \<in> one_counter \<Longrightarrow> aside h" "h \<in> one_counter \<Longrightarrow> Latency (h m) = Latency m"
  using aside_handlers by (auto simp: one_counter_def metrics_defs)

definition counted_step ::
    "codec \<Rightarrow> surroundings \<Rightarrow> Server \<Rightarrow> Request \<Rightarrow> put_pc \<Rightarrow> effects \<Rightarrow> put_pc \<Rightarrow> (metrics \<Rightarrow> metrics) \<Rightarrow> effects \<Rightarrow> bool" where
  "counted_step cd sr s rq pc fx pc' h fx' \<longleftrightarrow>
     h \<in> one_counter \<and> put_rank pc' < put_rank pc
     \<and> (\<forall>k m. handlePut_step cd sr (s\<lparr>sv_kv := k\<rparr>) rq (pc, counting m fx) = Some (pc', counting (h m) fx'))"

lemma put_rank_turn_failed: "put_rank (turn_failed req i err) < 3 + 8 * (2 - i)"
  by (simp add: turn_failed_def forward_tries_def)

lemma quiet_step:
  assumes "\<forall>req rs e. pc \<notin> {PutForward req, PutFailed e, PutLatency rs, PutDone rs}"
  shows "\<exists>pc' fx'. put_rank pc' < put_rank pc
    \<and> (\<forall>k m. handlePut_step cd sr (s\<lparr>sv_kv := k\<rparr>) rq (pc, counting m fx) = Some (pc', counting m fx'))"
proof -
  note r = exI [of _ "fst (the (handlePut_step cd sr s rq (pc, fx)))"] exI [of _ "snd (the (handlePut_step cd sr s rq (pc, fx)))"]
  note defs = effects_counting case_prod_beta Let_def put_turns_def forward_tries_def maxForwardRetries_def
  show ?thesis
  proof (cases pc)
    case (PutName req i addr)
    then show ?thesis
      using put_rank_turn_failed [of req i]
      by (intro r) (auto simp: defs order_less_le_trans [OF put_rank_turn_failed] split: sum.split)
  next
    case (PutPost req i addr body a)
    then show ?thesis
      by (intro r) (auto simp: defs order_less_le_trans [OF put_rank_turn_failed] split: http_answer.split)
  next
    case (PutPropose req)
    then show ?thesis
      by (cases "cd_enc_cmd cd (put_command req)"; intro r) (simp_all add: defs)
  qed (use assms in \<open>(intro r, auto simp: defs split: sum.split option.split)\<close>)
qed

lemma handlePut_step_counted:
  assumes "\<forall>rs. pc \<noteq> PutLatency rs \<and> pc \<noteq> PutDone rs"
  shows "\<exists>pc' h fx'. counted_step cd sr s rq pc fx pc' h fx'"
proof (cases "\<exists>req e. pc \<in> {PutForward req, PutFailed e}")
  case True
  then show ?thesis
  proof (elim exE insertE emptyE)
    fix req assume "pc = PutForward req"
    then show ?thesis
      unfolding counted_step_def
      by (intro exI [of _ "PutResolve req 0"] exI [of _ RecordForward] exI [of _ fx]) (simp add: one_counter_def)
  next
    fix e assume "pc = PutFailed e"
    then show ?thesis
      unfolding counted_step_def
      by (intro exI [of _ "PutRelease (http_Error (''raft apply: '' @ e) 500)"] exI [of _ RecordError] exI [of _ fx])
        (simp add: one_counter_def)
  qed
next
  case False
  then obtain pc' fx' where "put_rank pc' < put_rank pc"
      "\<forall>k m. handlePut_step cd sr (s\<lparr>sv_kv := k\<rparr>) rq (pc, counting m fx) = Some (pc', counting m fx')"
    using quiet_step [of pc cd sr s rq fx] assms by auto
  then show ?thesis
    unfolding counted_step_def
    by (intro exI [of _ pc'] exI [of _ "\<lambda>m. m"] exI [of _ fx']) (simp add: one_counter_def)
qed

section \<open>The PUT and the goroutines\<close>

text \<open>
  One step of the handler in its process: it works on the counters of the process and its own
  effects. A schedule is a list of turns: \<open>None\<close> is the handler's, \<open>Some e\<close> that of the process for \<open>e\<close>.
\<close>

definition handler_turn ::
    "codecs \<Rightarrow> http_req \<Rightarrow> surroundings \<Rightarrow> process \<times> put_pc \<times> effects \<Rightarrow> (process \<times> put_pc \<times> effects) option" where
  "handler_turn co rq sr st =
     (let (p, pc, fx) = st
      in if p_exit p \<noteq> None then Some st
         else case handlePut_step (co_put co) sr (server_of p) (Request.truncate rq) (pc, counting (mets (p_fsm p)) fx) of
                None \<Rightarrow> None
              | Some (pc', fx') \<Rightarrow> Some (set_fsm ((p_fsm p)\<lparr>mets := fx_mets fx'\<rparr>) p, pc', fx'))"

fun mixed_run ::
    "codecs \<Rightarrow> http_req \<Rightarrow> surroundings \<Rightarrow> proc_event option list \<Rightarrow> process \<times> put_pc \<times> effects
     \<Rightarrow> (process \<times> put_pc \<times> effects) option" where
  "mixed_run co rq sr [] st = Some st"
| "mixed_run co rq sr (None # sch) st =
     (case handler_turn co rq sr st of None \<Rightarrow> None | Some st' \<Rightarrow> mixed_run co rq sr sch st')"
| "mixed_run co rq sr (Some e # sch) (p, h) =
     (case process_step co e p of None \<Rightarrow> None | Some (p', out) \<Rightarrow> mixed_run co rq sr sch (p', h))"

fun others :: "proc_event option list \<Rightarrow> proc_event list" where
  "others [] = []"
| "others (None # sch) = others sch"
| "others (Some e # sch) = e # others sch"

fun turns :: "proc_event option list \<Rightarrow> nat" where
  "turns [] = 0"
| "turns (None # sch) = Suc (turns sch)"
| "turns (Some e # sch) = turns sch"

text \<open>What goes on beside the handlers: the goroutines of the node, the shutdown, installed snapshots.\<close>

fun background :: "proc_event \<Rightarrow> bool" where
  "background (PSys e) = True"
| "background (PInstall d rc) = True"
| "background (PServe late rq sr vw) = False"
| "background (PListen err) = False"

definition count :: "(metrics \<Rightarrow> metrics) \<Rightarrow> process \<Rightarrow> process" where
  "count h p = set_fsm (under h (p_fsm p)) p"

lemma sys_step_count:
  assumes "aside h"
  shows "sys_step unm e (m\<lparr>m_fsm := under h (m_fsm m)\<rparr>) =
    map_option (\<lambda>m. m\<lparr>m_fsm := under h (m_fsm m)\<rparr>) (sys_step unm e m)"
proof -
  have upd: "m\<lparr>m_fsm := f, m_pc := pc\<rparr> = m\<lparr>m_pc := pc, m_fsm := f\<rparr>" for f pc
    by simp
  show ?thesis
    using node_step_under [OF assms]
    by (cases "(unm, e, m)" rule: sys_step.cases)
      (auto simp: main_step.simps dedup_Stop_def Stop_def Close_def under_def simp del: node_step.simps split: main_pc.split)
qed

lemma live_step_count:
  assumes "aside h" and "background e"
  shows "live_step co e (count h p) = map_option (map_prod (count h) id) (live_step co e p)"
  using assms(2) sys_step_count [OF assms(1), of "co_unm co" _ "p_machine p"]
  by (cases e) (auto simp: count_def set_fsm_def Restore_under split: option.split)

text \<open>What the background leaves alone of what a PUT reads.\<close>

definition beside :: "process \<Rightarrow> process \<Rightarrow> bool" where
  "beside p q \<longleftrightarrow>
     p_raft q = p_raft p \<and> p_peers q = p_peers p \<and> p_httpAddrs q = p_httpAddrs p \<and> p_mux q = p_mux p
     \<and> p_exit q = p_exit p \<and> Latency (mets (p_fsm q)) = Latency (mets (p_fsm p))"

lemma background_step:
  assumes "live_step co e p = Some (q, out)" and "background e"
  shows "out = None" "beside p q"
proof -
  have r: "mets (snd (Restore dec r1 r2 d rc f)) = mets f" for dec r1 r2 d rc f
    using Restore_frame(1) by (metis prod.collapse)
  show "out = None" "beside p q"
    using assms sys_step_Latency [of "co_unm co" _ "p_machine p"]
    by (cases e; auto simp: beside_def set_fsm_def r split: option.splits if_splits)+
qed

lemma still_serving_step:
  assumes "live_step co (PSys e) p = Some (q, out)" and "e \<noteq> EMain"
  shows "m_pc (p_machine q) = m_pc (p_machine p)"
  using assms by (cases "(co_unm co, e, p_machine p)" rule: sys_step.cases) (auto split: if_splits)

text \<open>A request that is accepted: it came before the shutdown, or its handler outlives it.\<close>

definition accepted :: "bool \<Rightarrow> proc_event list \<Rightarrow> process \<Rightarrow> bool" where
  "accepted late es p \<longleftrightarrow> late \<or> m_pc (p_machine p) = Serving \<and> PSys EMain \<notin> set es"

lemma background_run:
  assumes "process_run co es p = Some (q, outs)" and "list_all background es" and "p_exit p = None"
  shows "outs = [] \<and> beside p q \<and> (accepted late es p \<longrightarrow> accepted late [] q)
    \<and> (\<forall>h. aside h \<longrightarrow> process_run co es (count h p) = Some (count h q, []))"
  using assms
proof (induction es arbitrary: p outs)
  case Nil
  then show ?case by (simp add: beside_def accepted_def)
next
  case (Cons e es)
  obtain p' out outs' where s: "live_step co e p = Some (p', out)" "process_run co es p' = Some (q, outs')"
      "outs = (case out of None \<Rightarrow> outs' | Some o' \<Rightarrow> o' # outs')"
    using Cons.prems by (auto simp: process_step_def split: option.splits prod.splits)
  have b: "background e" "list_all background es"
    using Cons.prems(2) by simp_all
  note bs = background_step [OF s(1) b(1)]
  have e': "p_exit p' = None" "p_exit (count h p) = None" for h
    using bs(2) Cons.prems(3) by (simp_all add: beside_def count_def set_fsm_def)
  note IH = Cons.IH [OF s(2) b(2) e'(1)]
  have "accepted late (e # es) p \<longrightarrow> accepted late es p'"
  proof (cases e)
    case (PSys ev)
    then show ?thesis
      using s(1) still_serving_step [of co ev p p' out] by (auto simp: accepted_def simp del: live_step.simps)
  qed (use s(1) b(1) in \<open>auto simp: accepted_def set_fsm_def split: if_splits\<close>)
  moreover have "process_run co (e # es) (count h p) = Some (count h q, [])" if "aside h" for h
    using live_step_count [OF that b(1), of co p] that IH s(1) bs(1) e'(2) by (simp add: process_step_def)
  ultimately show ?case
    using IH bs s(3) by (auto simp: beside_def)
qed

lemma background_total:
  assumes "proc_inv p" and "list_all background es" and "p_exit p = None" and "accepted late es p"
  obtains q where "process_run co es p = Some (q, [])" "beside p q" "accepted late [] q"
    "\<And>h. aside h \<Longrightarrow> process_run co es (count h p) = Some (count h q, [])"
proof -
  obtain q outs where "process_run co es p = Some (q, outs)"
    using process_run_inv [OF assms(1)] by blast
  with background_run [OF this assms(2,3)] assms(4) show thesis
    by (intro that [of q]) simp_all
qed

lemma process_run_append:
  "process_run co (xs @ ys) p =
     (case process_run co xs p of
        None \<Rightarrow> None
      | Some (q, outs) \<Rightarrow>
          (case process_run co ys q of None \<Rightarrow> None | Some (r, outs') \<Rightarrow> Some (r, outs @ outs')))"
  by (induction xs arbitrary: p) (auto split: option.split)

section \<open>Where a PUT ends\<close>

text \<open>The end of the handler, the process let alone: its state, the answer, the effects but for the counters.\<close>

definition ends ::
    "codecs \<Rightarrow> http_req \<Rightarrow> surroundings \<Rightarrow> process \<Rightarrow> put_pc \<Rightarrow> effects \<Rightarrow> process \<Rightarrow> Response \<Rightarrow> effects \<Rightarrow> bool" where
  "ends co rq sr p pc fx q rs x \<longleftrightarrow>
     (\<exists>m. put_rest (co_put co) sr (server_of p) (Request.truncate rq) pc (counting (mets (p_fsm p)) fx) = Some (rs, counting m x)
        \<and> q = set_fsm ((p_fsm p)\<lparr>mets := m\<rparr>) p)"

lemma put_rest_counted:
  assumes "lt_wf L"
  shows "\<exists>g rs x. aside g \<and> (\<forall>k m. Latency m = L \<longrightarrow>
    put_rest cd sr (s\<lparr>sv_kv := k\<rparr>) rq pc (counting m fx) = Some (rs, counting (g m) x))"
proof (induction "put_rank pc" arbitrary: pc fx rule: less_induct)
  case less
  show ?case
  proof (cases "\<forall>rs. pc \<noteq> PutLatency rs \<and> pc \<noteq> PutDone rs")
    case True
    from handlePut_step_counted [OF this, of cd sr s rq fx]
    obtain pc' h fx1 where h: "h \<in> one_counter" "put_rank pc' < put_rank pc"
        "\<And>k m. handlePut_step cd sr (s\<lparr>sv_kv := k\<rparr>) rq (pc, counting m fx) = Some (pc', counting (h m) fx1)"
      unfolding counted_step_def by blast
    obtain g rs x where g: "aside g" "\<And>k m. Latency m = L \<Longrightarrow>
        put_rest cd sr (s\<lparr>sv_kv := k\<rparr>) rq pc' (counting m fx1) = Some (rs, counting (g m) x)"
      using less [OF h(2), of fx1] by blast
    have "put_rest cd sr (s\<lparr>sv_kv := k\<rparr>) rq pc (counting m fx) = Some (rs, counting (g (h m)) x)" if "Latency m = L" for k m
      using put_rest_step [of cd sr "s\<lparr>sv_kv := k\<rparr>" rq pc "counting m fx"] g(2) one_counterD(2) [OF h(1)] that
      by (simp add: h(3))
    then show ?thesis
      using aside_comp [OF g(1) one_counterD(1) [OF h(1)]] by blast
  next
    case False
    then consider rs where "pc = PutLatency rs" | rs where "pc = PutDone rs" by blast
    then show ?thesis
    proof cases
      case 1
      obtain t where "Record (sr_nanos sr) L = Some t"
        using Record_wf [OF assms] by blast
      then show ?thesis
        using 1 aside_handlers(4) [of t]
        by (intro exI [of _ "\<lambda>m. m\<lparr>Latency := t\<rparr>"] exI [of _ rs] exI [of _ fx]) (simp add: leave_def)
    next
      case 2
      then show ?thesis
        using aside_handlers(1) by (intro exI [of _ "\<lambda>m. m"] exI [of _ rs] exI [of _ fx]) simp
    qed
  qed
qed

text \<open>Every PUT ends, and the same way in all states that the background can bring about.\<close>

lemma ends_total:
  assumes "proc_inv p"
  obtains g rs x where "aside g" "\<And>q. beside p q \<Longrightarrow> ends co rq sr q pc fx (count g q) rs x"
proof -
  have "lt_wf (Latency (mets (p_fsm p)))"
    using assms by (simp add: proc_inv_def)
  from put_rest_counted [OF this, of "co_put co" sr "server_of p" "Request.truncate rq" pc fx]
  obtain g rs x where g: "aside g" "\<And>k m. Latency m = Latency (mets (p_fsm p)) \<Longrightarrow>
      put_rest (co_put co) sr ((server_of p)\<lparr>sv_kv := k\<rparr>) (Request.truncate rq) pc (counting m fx) = Some (rs, counting (g m) x)"
    by blast
  have "ends co rq sr q pc fx (count g q) rs x" if "beside p q" for q
  proof -
    have "server_of q = (server_of p)\<lparr>sv_kv := fsm_kv (p_fsm q)\<rparr>" "Latency (mets (p_fsm q)) = Latency (mets (p_fsm p))"
      using that by (simp_all add: beside_def server_of_def)
    then show ?thesis
      unfolding ends_def by (intro exI [of _ "g (mets (p_fsm q))"]) (simp add: g(2) count_def under_def)
  qed
  then show thesis
    using that g(1) by blast
qed

lemma ends_det:
  "ends co rq sr p pc fx q rs x \<Longrightarrow> ends co rq sr p pc fx q' rs' x' \<Longrightarrow> q' = q \<and> rs' = rs \<and> counting m x' = counting m x"
  unfolding ends_def by (metis counting_simps(1,2) option.inject prod.inject)

lemma beside_refl: "beside p p"
  by (simp add: beside_def)

text \<open>A turn of the handler does not change where it ends; a step of the background goes on beside it.\<close>

lemma handler_turn_ends:
  assumes "proc_inv p" and "p_exit p = None" and "ends co rq sr p pc fx r rs x"
  shows "\<exists>p' pc' fx'. handler_turn co rq sr (p, pc, fx) = Some (p', pc', fx') \<and> proc_inv p' \<and> p_exit p' = None
    \<and> ends co rq sr p' pc' fx' r rs x \<and> put_rank pc' \<le> put_rank pc - 1"
proof -
  let ?rq = "Request.truncate rq"
  let ?fx = "counting (mets (p_fsm p)) fx"
  obtain m where m: "put_rest (co_put co) sr (server_of p) ?rq pc ?fx = Some (rs, counting m x)"
      "r = set_fsm ((p_fsm p)\<lparr>mets := m\<rparr>) p"
    using assms(3) unfolding ends_def by blast
  then obtain pc' fx' where s: "handlePut_step (co_put co) sr (server_of p) ?rq (pc, ?fx) = Some (pc', fx')"
      "put_rest (co_put co) sr (server_of p) ?rq pc' fx' = Some (rs, counting m x)"
    using put_rest_step [of "co_put co" sr "server_of p" ?rq pc ?fx] by (auto split: option.splits)
  have wf: "lt_wf (Latency (mets (p_fsm p)))" "lt_cap (Latency (mets (p_fsm p))) = 2000"
    using assms(1) by (simp_all add: proc_inv_def)
  have k: "server_of p = (server_of p)\<lparr>sv_kv := sv_kv (server_of p)\<rparr>"
    by simp
  have c: "put_rank pc' \<le> put_rank pc - 1 \<and> lt_wf (Latency (fx_mets fx')) \<and> lt_cap (Latency (fx_mets fx')) = 2000"
  proof (cases "\<forall>rs. pc \<noteq> PutLatency rs \<and> pc \<noteq> PutDone rs")
    case True
    from handlePut_step_counted [OF this, of "co_put co" sr "server_of p" ?rq fx]
    obtain pc'' h fx'' where h: "h \<in> one_counter" "put_rank pc'' < put_rank pc"
        "handlePut_step (co_put co) sr (server_of p) ?rq (pc, ?fx) = Some (pc'', counting (h (mets (p_fsm p))) fx'')"
      unfolding counted_step_def using k by metis
    then have "pc' = pc''" "Latency (fx_mets fx') = Latency (mets (p_fsm p))"
      using s(1) one_counterD(2) [OF h(1)] by auto
    then show ?thesis
      using h(2) wf by simp
  next
    case False
    then show ?thesis
      using s(1) wf Record_wf [OF wf(1), of "sr_nanos sr"] by (auto split: option.splits)
  qed
  let ?p = "set_fsm ((p_fsm p)\<lparr>mets := fx_mets fx'\<rparr>) p"
  have "handler_turn co rq sr (p, pc, fx) = Some (?p, pc', fx')"
    using assms(2) s(1) by (simp add: handler_turn_def)
  moreover have "proc_inv ?p"
    using assms(1) c machine_inv_fsm [of "p_machine p" "(p_fsm p)\<lparr>mets := fx_mets fx'\<rparr>"] by (simp add: proc_inv_def)
  moreover have "server_of ?p = server_of p" "r = set_fsm ((p_fsm ?p)\<lparr>mets := m\<rparr>) ?p" "p_exit ?p = None"
    using m(2) assms(2) by (simp_all add: server_of_def set_fsm_def)
  ultimately show ?thesis
    using s(2) c unfolding ends_def by (intro exI [of _ ?p] exI [of _ pc'] exI [of _ fx']) auto
qed

lemma background_beside:
  assumes "proc_inv p" and "p_exit p = None" and "ends co rq sr p pc fx r rs x" and "background e"
  shows "\<exists>p' r'. process_step co e p = Some (p', None) \<and> process_step co e r = Some (r', None) \<and> proc_inv p' \<and> p_exit p' = None
    \<and> ends co rq sr p' pc fx r' rs x"
proof -
  obtain p' out where s: "live_step co e p = Some (p', out)" "proc_inv p'"
    using live_step_inv [OF assms(1)] by blast
  note b = background_step [OF s(1) assms(4)]
  have ex: "p_exit p' = None" "process_step co e p = Some (p', None)"
    using b s(1) assms(2) by (simp_all add: beside_def process_step_def)
  obtain g rs' x' where g: "aside g" "\<And>q. beside p q \<Longrightarrow> ends co rq sr q pc fx (count g q) rs' x'"
    by (rule ends_total [OF assms(1), where co = co and rq = rq and sr = sr and pc = pc and fx = fx]) blast
  have r: "r = count g p" "rs' = rs" "counting m x' = counting m x" for m
    using ends_det [OF assms(3) g(2) [OF beside_refl]] by auto
  have "ends co rq sr p' pc fx (count g p') rs x"
    using g(2) [OF b(2)] r(2,3) unfolding ends_def by metis
  moreover have "process_step co e r = Some (count g p', None)"
    using live_step_count [OF g(1) assms(4), of co p] s(1) b(1) assms(2) r(1)
    by (simp add: process_step_def) (simp add: count_def set_fsm_def)
  ultimately show ?thesis
    using ex s(2) by blast
qed

lemma mixed_run_ends:
  assumes "proc_inv p" and "p_exit p = None" and "ends co rq sr p pc fx r rs x" and "list_all background (others sch)"
  shows "\<exists>q pc' fx' r'. mixed_run co rq sr sch (p, pc, fx) = Some (q, pc', fx') \<and> process_run co (others sch) r = Some (r', [])
    \<and> ends co rq sr q pc' fx' r' rs x \<and> put_rank pc' \<le> put_rank pc - turns sch"
  using assms
proof (induction sch arbitrary: p pc fx r)
  case (Cons ev sch)
  show ?case
  proof (cases ev)
    case None
    obtain p' pc' fx' where h: "handler_turn co rq sr (p, pc, fx) = Some (p', pc', fx')" "proc_inv p'" "p_exit p' = None"
        "ends co rq sr p' pc' fx' r rs x" "put_rank pc' \<le> put_rank pc - 1"
      using handler_turn_ends [OF Cons.prems(1-3)] by blast
    have "list_all background (others sch)"
      using Cons.prems(4) None by simp
    from Cons.IH [OF h(2-4) this] show ?thesis
      using None h(1,5) by fastforce
  next
    case (Some e)
    then have b: "background e" "list_all background (others sch)"
      using Cons.prems(4) by simp_all
    obtain p' r' where s: "process_step co e p = Some (p', None)" "process_step co e r = Some (r', None)" "proc_inv p'"
        "p_exit p' = None" "ends co rq sr p' pc fx r' rs x"
      using background_beside [OF Cons.prems(1-3) b(1)] by blast
    from Cons.IH [OF s(3-5) b(2)] show ?thesis
      using Some s(1,2) by fastforce
  qed
qed (auto simp: ends_def)

lemma ends_done:
  assumes "ends co rq sr p (PutDone rs') fx q rs x"
  shows "q = p" "rs' = rs" "counting m fx = counting m x"
proof -
  obtain m' where m: "rs' = rs" "counting (mets (p_fsm p)) fx = counting m' x" "q = set_fsm ((p_fsm p)\<lparr>mets := m'\<rparr>) p"
    using assms by (auto simp: ends_def)
  have "m' = mets (p_fsm p)"
    using arg_cong [OF m(2), of fx_mets] by simp
  then show "q = p" "rs' = rs" "counting m fx = counting m x"
    using m by (simp_all add: set_fsm_def) (metis counting_simps(2))
qed

lemma put_rank_0: "put_rank pc = 0 \<longleftrightarrow> (\<exists>rs. pc = PutDone rs)"
  by (cases pc) (auto simp: put_turns_def)

text \<open>As one step of the process.\<close>

lemma serve_ends:
  assumes "proc_inv p" and "p_exit p = None" and "rq_Path rq = ''/put''" and "accepted late [] p"
    and "ends co rq sr p PutStart fx q rs x" and "counting m0 fx = counting m0 (fresh_fx p)"
  shows "\<exists>m. process_run co [PServe late rq sr vw] p = Some (q, [(web_of rs, counting m x)])"
proof -
  have "counting (mets (p_fsm p)) fx = fresh_fx p"
    using assms(6) by (metis counting_simps(2,3) fresh_fx_def effects.select_convs(6))
  then obtain m where m: "handlePut (co_put co) sr (server_of p) (Request.truncate rq) (fresh_fx p) = Some (rs, counting m x)"
      "q = set_fsm ((p_fsm p)\<lparr>mets := m\<rparr>) p"
    using assms(5) unfolding ends_def by auto
  have "findHandler (p_mux p) (rq_Method rq) ''/put'' = Serve HPut"
    using assms(1) find_route [of "''/put''" HPut] by (simp add: proc_inv_def routes_def)
  moreover have "m_pc (p_machine p) \<noteq> Serving \<and> \<not> late \<longleftrightarrow> False"
    using assms(4) by (auto simp: accepted_def)
  ultimately show ?thesis
    using m assms(2,3) by (intro exI [of _ m]) (simp add: process_step_def serve_def Let_def)
qed

section \<open>Properties\<close>

text \<open>
  C14: A PUT is atomic. The handler of an accepted PUT runs in steps, one for each access to
  the semaphore, raft, the network, a counter or the latency window; between any two of them raft may
  apply entries and install snapshots, the batch worker receive and flush, the cleaner evict, and the
  shutdown proceed. In every such interleaving that gives the handler its turns, of which 32 are always enough, the
  request is answered, and the process ends in the state, and the client gets the answer, as if the whole request
  had come before all of that, or after it: also the counters, the latency window and what was proposed
  and posted agree.
\<close>

theorem put_is_atomic:
  assumes "main_start getenv flg mk disk d dflt oc lag = (cs, Listening p0)" and "process_run co es0 p0 = Some (p, outs0)"
    and "p_exit p = None" and "rq_Path rq = ''/put''" and "accepted late (others sch) p"
    and "list_all background (others sch)" and "put_turns \<le> turns sch"
  shows "\<exists>q rs fx m m'. mixed_run co rq sr sch (p, PutStart, fresh_fx p) = Some (q, PutDone rs, fx)
    \<and> process_run co (PServe late rq sr vw # others sch) p = Some (q, [(web_of rs, fx\<lparr>fx_mets := m\<rparr>)])
    \<and> process_run co (others sch @ [PServe late rq sr vw]) p = Some (q, [(web_of rs, fx\<lparr>fx_mets := m'\<rparr>)])"
proof -
  have inv: "proc_inv p"
    using main_start_Listening [OF assms(1)] process_of_inv process_run_inv assms(2) by (metis option.inject prod.inject)
  obtain g rs x where g: "aside g" "\<And>q. beside p q \<Longrightarrow> ends co rq sr q PutStart (fresh_fx p) (count g q) rs x"
    by (rule ends_total [OF inv, where co = co and rq = rq and sr = sr and pc = PutStart and fx = "fresh_fx p"]) blast
  obtain e where e: "process_run co (others sch) p = Some (e, [])" "beside p e" "accepted late [] e"
      "\<And>g. aside g \<Longrightarrow> process_run co (others sch) (count g p) = Some (count g e, [])"
    by (rule background_total [OF inv assms(6,3,5), where co = co]) blast
  obtain q pc' fx' where q: "mixed_run co rq sr sch (p, PutStart, fresh_fx p) = Some (q, pc', fx')"
      "ends co rq sr q pc' fx' (count g e) rs x" "put_rank pc' = 0"
    using mixed_run_ends [OF inv assms(3) g(2) [OF beside_refl] assms(6)] e(4) [OF g(1)] assms(7) by auto
  obtain rs' where pc: "pc' = PutDone rs'"
    using q(3) put_rank_0 by blast
  note d = ends_done [OF q(2) [unfolded pc]]
  have acc: "accepted late [] p"
    using assms(5) by (auto simp: accepted_def)
  obtain m where "process_run co [PServe late rq sr vw] p = Some (count g p, [(web_of rs, counting m x)])"
    using serve_ends [OF inv assms(3,4) acc g(2) [OF beside_refl] refl] by blast
  then have first: "process_run co (PServe late rq sr vw # others sch) p = Some (count g e, [(web_of rs, counting m x)])"
    using process_run_append [of co "[PServe late rq sr vw]" "others sch" p] e(4) [OF g(1)] by (simp del: process_run.simps(2))
  have inv': "proc_inv e" "p_exit e = None"
    using process_run_inv [OF inv, of co "others sch"] e(1,2) assms(3) by (auto simp: beside_def)
  have "counting m0 (fresh_fx p) = counting m0 (fresh_fx e)" for m0
    by (simp add: fresh_fx_def counting_def)
  then obtain m' where "process_run co [PServe late rq sr vw] e = Some (count g e, [(web_of rs, counting m' x)])"
    using serve_ends [OF inv' assms(4) e(3) g(2) [OF e(2)]] by blast
  then have last: "process_run co (others sch @ [PServe late rq sr vw]) p = Some (count g e, [(web_of rs, counting m' x)])"
    using process_run_append [of co "others sch" "[PServe late rq sr vw]" p] e(1) by simp
  have "fx'\<lparr>fx_mets := m1\<rparr> = counting m1 x" for m1
    using d(3) [of m1] by (simp add: counting_def)
  then show ?thesis
    using q(1) pc d(1,2) first last by auto
qed

text \<open>
  A PUT forwarded by the first node, in whose midst raft applies an entry, the worker flushes, and \<^verbatim>\<open>main\<close>
  shuts down: three turns of the handler before each of these steps.
\<close>

definition ex_fwd :: surroundings where
  "ex_fwd = ex_net\<lparr>sr_leader := \<lambda>n. (''127.0.0.1:7002'', ''node2'')\<rparr>"

definition ex_meanwhile :: "proc_event list" where
  "ex_meanwhile = map (\<lambda>ev. PSys (ENode ev)) ex_evs @ ex_down"

definition ex_schedule :: "proc_event option list" where
  "ex_schedule = concat (map (\<lambda>e. [None, None, None, Some e]) ex_meanwhile) @ replicate 32 None"

definition ex_put_rq :: http_req where
  "ex_put_rq = \<lparr>rq_Method = ''POST'', rq_QueryKey = [], rq_Body = rq_Body ex_json_rq, rq_Path = ''/put'', rq_Host = []\<rparr>"

lemma ex_schedule_others: "others ex_schedule = ex_meanwhile"
proof -
  have "others (concat (map (\<lambda>e. [None, None, None, Some e]) es) @ replicate n None) = es" for es n
    by (induction es) (simp, induction n, simp_all)
  then show ?thesis
    by (simp add: ex_schedule_def)
qed

lemma ex_schedule_turns: "32 \<le> turns ex_schedule"
proof -
  have "n \<le> turns (concat (map (\<lambda>e. [None, None, None, Some e]) es) @ replicate n None)" for es n
    by (induction es) (simp, induction n, simp_all)
  then show ?thesis
    by (simp add: ex_schedule_def)
qed

lemma ex_put_served:
  "\<exists>p1 fx. process_step ex_codecs (PServe True ex_put_rq ex_fwd ex_view) ex_process = Some (p1, Some (web_of ok_empty, fx))
     \<and> length (fx_posts fx) = 2"
proof -
  obtain fx where "put_body (co_put ex_codecs) ex_fwd (server_of ex_process) (Request.truncate ex_put_rq)
        ((fresh_fx ex_process)\<lparr>fx_sem := 1\<rparr>) = (ok_empty, fx)" "length (fx_posts fx) = 2"
      "Latency (fx_mets fx) = NewLatencyTracker 2000"
    using ex_json_decodes [of "''...''"]
    by (simp add: numeral_2_eq_2 put_body_def ex_http ask_def IsLeader_def forwardWithRetry_def
          forward_tries_def upt_rec LeaderHTTPAddr_def go_lookup_def main_httpAddrs_def forwardToLeader_def
          maxForwardRetries_def post_def go_sleep_def RecordForward_def Let_def ex_json_rq_def ex_json_req_def ex_codecs_def
          ex_put_rq_def ex_fwd_def server_of_def fresh_fx_def process_of_def booted_def init_metrics_def ex_cfg_def
          Request.truncate_def)
  moreover obtain t where "Record (sr_nanos ex_fwd) (NewLatencyTracker 2000) = Some t"
    using Record_wf [OF lt_wf_New [of 2000]] by auto
  moreover have "rq_Method (Request.truncate ex_put_rq) = ''POST''" "sr_slot ex_fwd" "fx_sem (fresh_fx ex_process) + 1 = 1"
    by (simp_all add: Request.truncate_def ex_put_rq_def ex_fwd_def ex_http fresh_fx_def)
  ultimately have "\<exists>fx. handlePut (co_put ex_codecs) ex_fwd (server_of ex_process) (Request.truncate ex_put_rq)
      (fresh_fx ex_process) = Some (ok_empty, fx) \<and> length (fx_posts fx) = 2"
    unfolding handlePut_def by simp
  moreover have "findHandler (p_mux ex_process) (rq_Method ex_put_rq) (rq_Path ex_put_rq) = Serve HPut" "p_exit ex_process = None"
    using find_route [of "''/put''" HPut] by (simp_all add: process_of_def routes_def ex_put_rq_def)
  ultimately show ?thesis
    by (auto simp: process_step_def serve_def Let_def)
qed

theorem put_is_atomic_witness:
  "\<exists>q rs fx m. mixed_run ex_codecs ex_put_rq ex_fwd ex_schedule (ex_process, PutStart, fresh_fx ex_process) = Some (q, PutDone rs, fx)
     \<and> web_Status (web_of rs) = 200 \<and> length (fx_posts fx) = 2
     \<and> process_run ex_codecs (ex_meanwhile @ [PServe True ex_put_rq ex_fwd ex_view]) ex_process =
         Some (q, [(web_of rs, fx\<lparr>fx_mets := m\<rparr>)])"
proof -
  have "list_all background (others ex_schedule)" "accepted True (others ex_schedule) ex_process" "p_exit ex_process = None"
      "rq_Path ex_put_rq = ''/put''" "put_turns \<le> turns ex_schedule"
    using ex_schedule_turns
    by (simp_all add: ex_schedule_others ex_meanwhile_def ex_down_def list_all_iff accepted_def process_of_def ex_put_rq_def put_turns_def)
  from put_is_atomic [OF ex_main_empty process_run.simps(1) this(3,4,2,1,5), of ex_codecs ex_fwd ex_view]
  obtain q rs fx m m' where r:
      "mixed_run ex_codecs ex_put_rq ex_fwd ex_schedule (ex_process, PutStart, fresh_fx ex_process) = Some (q, PutDone rs, fx)"
      "process_run ex_codecs (PServe True ex_put_rq ex_fwd ex_view # ex_meanwhile) ex_process = Some (q, [(web_of rs, fx\<lparr>fx_mets := m\<rparr>)])"
      "process_run ex_codecs (ex_meanwhile @ [PServe True ex_put_rq ex_fwd ex_view]) ex_process = Some (q, [(web_of rs, fx\<lparr>fx_mets := m'\<rparr>)])"
    unfolding ex_schedule_others by blast
  obtain p1 fx0 where s: "process_step ex_codecs (PServe True ex_put_rq ex_fwd ex_view) ex_process = Some (p1, Some (web_of ok_empty, fx0))"
      "length (fx_posts fx0) = 2"
    using ex_put_served by blast
  then have "web_of rs = web_of ok_empty" "fx\<lparr>fx_mets := m\<rparr> = fx0"
    using r(2) by (auto split: option.splits)
  then have "web_Status (web_of rs) = 200" "length (fx_posts fx) = 2"
    using s(2) by (auto simp: web_of_def ok_empty_def)
  then show ?thesis
    using r(1,3) by blast
qed

end
