(* ===== verification/Spec2Isabelle.thy ===== *)
theory Spec2Isabelle
  imports Prelude Env KV Metrics Float64 Report Sqlite BatchWriter Dedup FSM Node Recovery Shutdown
    Cluster Server Utf8 JsonString Json Codec Lifecycle Liveness Replication Swagger Router Document Process
    Forwarding EndToEnd Url Snapshots Concurrency
begin

text \<open>
  A verification development for raft-kv, a replicated key-value store in Go on top of
  \<^verbatim>\<open>hashicorp/raft\<close>. Paths below are relative to the repository.

  \<^bold>\<open>The program.\<close> A client sends \<^verbatim>\<open>POST /put\<close> with a key, a value and an idempotency key to any
  node. A follower forwards the request to the leader over HTTP; the leader marshals a command
  and proposes it to raft. When raft has committed the entry, every node calls \<^verbatim>\<open>FSM.Apply\<close>,
  which skips keys it has seen, sets the in-memory map, queues a row for the SQLite batch writer
  and marks the key. A worker goroutine flushes the queue in transactions; a cleaner goroutine
  evicts old keys. Raft takes snapshots through \<^verbatim>\<open>FSM.Snapshot\<close> and installs them through
  \<^verbatim>\<open>FSM.Restore\<close>. On a restart \<^verbatim>\<open>main\<close> rebuilds the map from SQLite and raft delivers its log again.

  \<^bold>\<open>Theories and sources.\<close>

  \<^item> \<^verbatim>\<open>Prelude\<close>: names of types, lists of writes to a map, the last entries of a list, and the
    locale \<^verbatim>\<open>simulation\<close> of a machine by an abstract one.
  \<^item> \<^verbatim>\<open>Env\<close>: \<^verbatim>\<open>strconv.Atoi\<close>, both copies of \<^verbatim>\<open>envInt\<close>, \<^verbatim>\<open>envOr\<close>, 64-bit durations.
  \<^item> \<^verbatim>\<open>KV\<close> (\<^verbatim>\<open>store/kv.go\<close>): the in-memory map; locale \<^verbatim>\<open>kv_store\<close>.
  \<^item> \<^verbatim>\<open>Metrics\<close>, \<^verbatim>\<open>Float64\<close>, \<^verbatim>\<open>Report\<close> (\<^verbatim>\<open>metrics/metrics.go\<close>): counters and latency ring (locale
    \<^verbatim>\<open>bounded_window\<close>), rounding to 53 bits, and the percentiles and throughput that are reported.
  \<^item> \<^verbatim>\<open>Sqlite\<close> (\<^verbatim>\<open>store/sqlite.go\<close>): the table as a list of rows with a primary key (locale
    \<^verbatim>\<open>keyed_table\<close>), \<^verbatim>\<open>Append\<close>, \<^verbatim>\<open>Replay\<close>, \<^verbatim>\<open>ReplaceAll\<close>, \<^verbatim>\<open>Close\<close>.
  \<^item> \<^verbatim>\<open>BatchWriter\<close> (\<^verbatim>\<open>store/batch.go\<close>): channel, batch and worker; one step per case of the
    worker's loop; \<^verbatim>\<open>Send\<close> with the steps of the worker during its timeout (locale \<^verbatim>\<open>durable_sink\<close>).
  \<^item> \<^verbatim>\<open>Dedup\<close> (\<^verbatim>\<open>dedup/dedup.go\<close>): the store of idempotency keys with eviction (locale \<^verbatim>\<open>dup_filter\<close>).
  \<^item> \<^verbatim>\<open>FSM\<close> (\<^verbatim>\<open>fsm/fsm.go\<close>): the record \<^verbatim>\<open>FSM\<close> extends the writer's state; \<^verbatim>\<open>Apply\<close>, \<^verbatim>\<open>Snapshot\<close>,
    \<^verbatim>\<open>Persist\<close>, \<^verbatim>\<open>Restore\<close>, and the abstract machine \<^verbatim>\<open>spec_step\<close> of applied keys and map.
  \<^item> \<^verbatim>\<open>Node\<close> (\<^verbatim>\<open>main.go\<close>): start-up, and the interleaving of raft, worker and cleaner as a list of
    events. \<^verbatim>\<open>Recovery\<close>: restarts and snapshots over such runs. \<^verbatim>\<open>Shutdown\<close>: the five calls of
    the graceful shutdown interleaved with everything else. \<^verbatim>\<open>Liveness\<close>: infinite runs of a node (locale
    \<^verbatim>\<open>staged\<close>). \<^verbatim>\<open>Replication\<close>: several nodes over one committed log, as a step relation.
  \<^item> \<^verbatim>\<open>Cluster\<close> (\<^verbatim>\<open>config/config.go\<close>, \<^verbatim>\<open>cluster/raft.go\<close>, flags of \<^verbatim>\<open>main.go\<close>): configuration, the
    construction of the raft node call by call, leader detection.
  \<^item> \<^verbatim>\<open>Server\<close> (\<^verbatim>\<open>server/http.go\<close>, \<^verbatim>\<open>server/forward.go\<close>): the handlers as functions of the request and
    of what raft and the network answer, with their effects; the semaphore as a step relation.
  \<^item> \<^verbatim>\<open>Utf8\<close>, \<^verbatim>\<open>JsonString\<close>, \<^verbatim>\<open>Json\<close>: \<^verbatim>\<open>encoding/json\<close> of the standard library, as far as the program
    uses it. \<^verbatim>\<open>Codec\<close>: the structs and maps of the program through it, which instantiates the
    codecs that \<^verbatim>\<open>FSM\<close> and \<^verbatim>\<open>Server\<close> take. \<^verbatim>\<open>Lifecycle\<close>: the reachable states of a node whose
    entries and snapshots arrive as bytes.
  \<^item> \<^verbatim>\<open>Swagger\<close> (\<^verbatim>\<open>server/swagger.go\<close>): the OpenAPI document and the page. \<^verbatim>\<open>Router\<close> (\<^verbatim>\<open>New\<close> of
    \<^verbatim>\<open>server/http.go\<close>, \<^verbatim>\<open>registerSwagger\<close>): the routes on a model of \<^verbatim>\<open>http.ServeMux\<close>, and \<open>serve\<close>, the
    server as one function. \<^verbatim>\<open>Document\<close>: what it is for an answer to conform to the document.
  \<^item> \<^verbatim>\<open>Process\<close> (\<^verbatim>\<open>main.go\<close>): \<^verbatim>\<open>main\<close> from its flags to the listening server, and the whole process as
    a run of requests, node steps, snapshots and the shutdown. The worker and the cleaner are started on the
    way; if the first statements of one panic, that ends the process at a moment that is a parameter (\<open>lag\<close>).
  \<^item> \<^verbatim>\<open>Forwarding\<close>: a PUT across nodes (\<^verbatim>\<open>forwardWithRetry\<close>, \<^verbatim>\<open>server/forward.go\<close>): \<open>forwards\<close> relates a request at
    a node to the one that its handler sends to another. \<^verbatim>\<open>EndToEnd\<close>: \<open>answered\<close>, the answers a node gives
    together with what they cause in the committed log, over any number of forwards.
  \<^item> \<^verbatim>\<open>Url\<close>: the query of a request (\<^verbatim>\<open>r.URL.Query().Get\<close> in \<^verbatim>\<open>handleGet\<close>) and its escapes.
  \<^item> \<^verbatim>\<open>Snapshots\<close>: the cluster of \<^verbatim>\<open>Replication\<close> with nodes that persist snapshots and install them.
  \<^item> \<^verbatim>\<open>Concurrency\<close>: \<^verbatim>\<open>handlePut\<close> and what it calls in small steps, one for each access to the semaphore, raft,
    the network, a counter or the latency window (\<open>handlePut_step\<close>), interleaved with the steps of the process (\<open>mixed_run\<close>).
  \<^item> this theory: the properties that run from the request to the map of a node.

  \<^bold>\<open>How state corresponds.\<close> A struct is a record with the fields of the source; fields of several
  goroutines of one component are in one record, and a mutex or atomic operation makes a step.
  A buffered channel is its queue and capacity, a \<^verbatim>\<open>stop\<close> channel a flag that is set once.
  Raft indices are 64-bit words, durations and counters are 64-bit words with wrap-around,
  instants are integers in nanoseconds, strings are lists of bytes. A \<^verbatim>\<open>float64\<close> is a rational,
  rounded after each operation.

  \<^bold>\<open>Parameters.\<close> Answers that come from outside are arguments: the SQL driver (a \<^verbatim>\<open>driver\<close> says
  which call fails; \<^verbatim>\<open>no_fault\<close> is one that never does), the file system, the clock, the order in
  which Go ranges over a map (\<^verbatim>\<open>enumerates\<close> says that it meets each key once), the outcome of raft's
  futures, the leader raft names at each question, the answers of other nodes, and the schedule. Of
  the JSON codec only the texts of errors (\<open>errt\<close>) and of the floats in \<^verbatim>\<open>GET /metrics\<close> stay parameters.
  Theorems quantify over them; where a result needs them to behave, a hypothesis says so
  (\<^verbatim>\<open>healthy\<close>, increasing indices, retries within the retention time), and a witness applies the
  theorem where it holds. Results of the components are proved for any codec.

  \<^bold>\<open>What is shown.\<close>

  \<^item> Exactly once: \<^verbatim>\<open>apply_log_refines\<close>, \<^verbatim>\<open>node_exactly_once\<close>, \<^verbatim>\<open>cluster_agrees\<close>, \<^verbatim>\<open>shown_values_are_committed\<close>,
    \<^verbatim>\<open>put_takes_effect_once\<close>: for every schedule and every fault of the database, under the assumption
    on retries that \<^verbatim>\<open>dedup.go\<close> states. \<^verbatim>\<open>eviction_divergence\<close> and \<^verbatim>\<open>snapshot_forgets_dedup\<close> show what
    happens outside it. \<^verbatim>\<open>acknowledged_put_survives\<close> takes it from the answer of any node, through any
    chain of forwards, to every replica. \<^verbatim>\<open>disciplined_nodes_agree\<close> and
    \<^verbatim>\<open>acknowledged_put_outlives_snapshots\<close> extend both to snapshots: there no retry may reach a node that
    has the first put only through a snapshot, and a snapshot must be taken when the table has caught
    up with the memory, neither of which the code ensures. That the dedup store then knows every retry, and that the
    snapshots are the maps of their takers, is proved (\<^verbatim>\<open>disciplined_remembers\<close>, \<^verbatim>\<open>shot_ok_snapshot\<close>).
  \<^item> Durability: \<^verbatim>\<open>writer_delivers_all\<close>, \<^verbatim>\<open>memory_is_settled_log\<close>, \<^verbatim>\<open>restart_serves_the_log\<close>,
    \<^verbatim>\<open>restored_node_continues\<close>, \<^verbatim>\<open>orderly_shutdown_persists\<close>, and in the end \<^verbatim>\<open>applied_put_becomes_durable\<close>
    and \<^verbatim>\<open>drain_terminates\<close>; its limits are \<^verbatim>\<open>failed_flush_drops_batch\<close>, \<^verbatim>\<open>snapshot_misses_queued\<close>,
    \<^verbatim>\<open>restore_then_stale_flush\<close>, \<^verbatim>\<open>shutdown_can_strand\<close> and \<^verbatim>\<open>apply_after_writer_exit\<close>.
  \<^item> Bytes: \<^verbatim>\<open>codec_normalises\<close>, \<^verbatim>\<open>forwarded_put_is_the_clients\<close>, \<^verbatim>\<open>snapshot_bytes_transfer\<close>, \<^verbatim>\<open>get_by_url\<close>;
    they rest on \<^verbatim>\<open>node_stays_well_typed\<close>: no string that is not UTF-8 ever enters a node.
  \<^item> The HTTP side: \<^verbatim>\<open>put_ok_means_committed\<close>, \<^verbatim>\<open>put_effort_bounded\<close>, \<^verbatim>\<open>put_outlasts_server\<close>,
    \<^verbatim>\<open>forward_success_iff\<close>, \<^verbatim>\<open>forwarding_ends_iff\<close> (a request can be sent round for ever only while views of
    the leader form a cycle), \<^verbatim>\<open>semaphore_exact\<close>, \<^verbatim>\<open>read_your_write\<close>, \<^verbatim>\<open>routing\<close>, and the agreement of the
    document with the code, \<^verbatim>\<open>document_matches_code\<close> and \<^verbatim>\<open>statuses_of_documented_paths\<close>.
  \<^item> The process: \<^verbatim>\<open>main_start_outcome\<close>, \<^verbatim>\<open>process_never_panics\<close> (and only a failing listener makes it exit),
    \<^verbatim>\<open>put_is_atomic\<close>, \<^verbatim>\<open>restart_serves_the_log\<close>, \<^verbatim>\<open>served_reads_follow_the_log\<close>, which also shows how values go back after a restart.
  \<^item> Measurements and configuration: \<^verbatim>\<open>percentiles_nearest_rank\<close>, and the lemmas \<^verbatim>\<open>wps_window\<close>,
    \<^verbatim>\<open>latency_ring_window\<close>, \<^verbatim>\<open>flush_interval_wraps\<close>, \<^verbatim>\<open>huge_sizes_panic\<close>, \<^verbatim>\<open>dedup_ttl_wraps\<close>.

  \<^bold>\<open>Bounds.\<close> No definition uses fuel: loops are recursions over the list of attempts, rows or
  events, and the JSON scanner consumes its input. The drain of the worker is shown to end after one
  step per queued entry and one more, and one for each entry still sent; the handler of a PUT after at most 32 steps. \<^verbatim>\<open>make\<close>
  panics beyond the address space of \<open>2 ^ 48\<close> bytes. The forwarding of a PUT waits at most 111.1 seconds. The rank of a percentile is exact for up to a million samples;
  the ring has two thousand.

  \<^bold>\<open>Not modelled.\<close> The consensus protocol, BoltDB and the SQLite engine are third-party code. A raft
  index is taken as it is in the table, although the driver refuses values of \<open>2 ^ 63\<close> and more. In
  \<^verbatim>\<open>Replication\<close> nodes catch up from the log; snapshots are in \<^verbatim>\<open>Snapshots\<close>, whose log is never
  truncated: truncation would only forbid some deliveries. The limit that recent releases of Go put on
  the number of settings in a query is left out.
  Memory that runs out within the address space is not a panic of the model.
  A request is one step of the process. For a PUT \<^verbatim>\<open>put_is_atomic\<close> shows that nothing is lost by this, as to
  the goroutines of the node; the slots that several PUTs share are the subject of \<^verbatim>\<open>semaphore_exact\<close>. The
  other handlers read the shared map at most once, so that only \<^verbatim>\<open>GET /metrics\<close>, which reads one counter after
  the other, could meet a state half-way. Logging, the arrival of the signal, percent escapes in paths, \<^verbatim>\<open>RaftNode.Stats\<close>, which returns the map of a library
  call, and the tests are left out.
\<close>

section \<open>From the request to the map\<close>



lemma ex_json_valid: "valid_put (json_codec ex_text) ex_json_rq ex_json_req"
  using ex_json_decoded by (simp add: valid_put_def ex_json_req_def)



text \<open>
  C21: Read your write. Once the state machine of the leader has applied the entry it proposed for a
  PUT, as it has when raft's future succeeds and the client is answered 200, a GET on the same node
  returns the value, and this also when the client was told of an error; unless the idempotency
  key had been applied before, in which case the GET returns what it would have returned without it.
\<close>

theorem read_your_write:
  assumes "handlePut (json_codec errt) sr s rq fx = Some (rs, fx')"
    and "fx_proposed fx' = fx_proposed fx @ [log_Data l]" and "valid_put (json_codec errt) rq req"
    and "sv_kv s = fsm_kv f"
    and "s' = s\<lparr>sv_kv := fsm_kv (fst (Apply (Unmarshal_Command errt') env l f))\<rparr>"
    and "get = \<lparr>rq_Method = ''GET'', rq_QueryKey = pr_Key req, rq_Body = []\<rparr>"
  shows "handleGet enc s' get =
    (if IsDuplicate (pr_IdempotencyKey req) (fsm_dedup f) then handleGet enc s get
     else ok_json (enc [''key'' \<mapsto> pr_Key req, ''value'' \<mapsto> pr_Value req]))"
proof -
  note dec = valid_put_json [OF assms(3)]
  have "log_Data l = Marshal_Command (put_command req)"
    using handlePut_json(2) [OF assms(1) dec] assms(2) by simp
  then have "Unmarshal_Command errt' (log_Data l) = Inr (put_command req)"
    using decoded_put(2) [OF dec] by simp
  moreover have "pr_Key req \<noteq> []"
    using assms(3) by (simp add: valid_put_def)
  ultimately show ?thesis
    using assms(4-6)
    by (auto simp: Apply_dup Apply_put handleGet_def kv_Get_def put_command_def)
qed

theorem read_your_write_witness:
  "\<exists>fx'. handlePut (json_codec ex_text) ex_net (ex_server ''node1'') ex_json_rq ex_fx = Some (ok_empty, fx')
     \<and> handleGet (Encode_map ordered) ((ex_server ''node1'')\<lparr>sv_kv := fsm_kv (fst (Apply (Unmarshal_Command ex_text)
           (ex_at 0) ex_json_log ((ex_node [])\<lparr>fsm_kv := \<lparr>kv_data = [''k'' \<mapsto> []]\<rparr>\<rparr>)))\<rparr>)
         \<lparr>rq_Method = ''GET'', rq_QueryKey = ''k'', rq_Body = []\<rparr>
       = ok_json (Encode_map ordered [''key'' \<mapsto> ''k'', ''value'' \<mapsto> ''<v>''])"
proof -
  let ?f = "(ex_node [])\<lparr>fsm_kv := \<lparr>kv_data = [''k'' \<mapsto> []]\<rparr>\<rparr>"
  obtain fx' where h: "handlePut (json_codec ex_text) ex_net (ex_server ''node1'') ex_json_rq ex_fx = Some (ok_empty, fx')"
      "fx_proposed fx' = fx_proposed ex_fx @ [log_Data ex_json_log]"
    using ex_json_put(1) by (auto simp: ex_json_log_def ex_fx_def)
  have s: "sv_kv (ex_server ''node1'') = fsm_kv ?f"
    by (simp add: ex_server_def)
  from read_your_write [OF h(1,2) ex_json_valid s refl refl, of "Encode_map ordered" ex_text "ex_at 0"]
  show ?thesis
    using h(1) by (auto simp: ok_empty_def IsDuplicate_def dedup_New_def ex_json_req_def)
qed

end
